(* ===== verification/Prelude.thy ===== *)
theory Prelude
  imports Main "HOL-Library.Word" "HOL-Library.AList"
begin

text \<open>
  The vocabulary every component shares: Rust's fixed-width integers with their
  saturating, checked and rounding operations, \<^verbatim>\<open>Result\<close>, slices and
  \<^verbatim>\<open>Option\<close>-valued indexing, little-endian integers, and the standard
  collections.

  A \<^verbatim>\<open>HashMap\<close> is an association list and a \<^verbatim>\<open>HashSet\<close> a list; the order of
  the list stands for the unspecified iteration order of the Rust collection. The locale
  \<open>hash_map\<close> states what a client may rely on and is interpreted on the list operations.
\<close>

named_theorems rust_int \<open>unsigned value of the integer operations\<close>
named_theorems hm_simps \<open>lookup laws of the map and set operations\<close>


section \<open>Integers\<close>

type_synonym u8 = "8 word"
type_synonym u16 = "16 word"
type_synonym u32 = "32 word"
type_synonym u64 = "64 word"
type_synonym u128 = "128 word"
type_synonym byte_string = "8 word list"
type_synonym hash = "256 word"

text \<open>
  \<^verbatim>\<open>usize\<close> values are lengths and indices of objects in memory and are \<open>nat\<close>.
  \<^verbatim>\<open>i64\<close> and \<^verbatim>\<open>i128\<close> values are \<open>int\<close>, with every narrowing cast written out.
\<close>

definition saturating_add :: "'a::len word \<Rightarrow> 'a word \<Rightarrow> 'a word" where
  "saturating_add a b = (if unat a + unat b < 2 ^ LENGTH('a) then a + b else - 1)"

definition saturating_sub :: "'a::len word \<Rightarrow> 'a word \<Rightarrow> 'a word" where
  "saturating_sub a b = (if a < b then 0 else a - b)"

definition saturating_mul :: "'a::len word \<Rightarrow> 'a word \<Rightarrow> 'a word" where
  "saturating_mul a b = (if unat a * unat b < 2 ^ LENGTH('a) then a * b else - 1)"

definition checked_add :: "'a::len word \<Rightarrow> 'a word \<Rightarrow> 'a word option" where
  "checked_add a b = (if unat a + unat b < 2 ^ LENGTH('a) then Some (a + b) else None)"

definition checked_mul :: "'a::len word \<Rightarrow> 'a word \<Rightarrow> 'a word option" where
  "checked_mul a b = (if unat a * unat b < 2 ^ LENGTH('a) then Some (a * b) else None)"

definition div_ceil :: "'a::len word \<Rightarrow> 'a word \<Rightarrow> 'a word" where
  "div_ceil a b = (if a mod b = 0 then a div b else a div b + 1)"

text \<open>\<^verbatim>\<open>x as i64\<close> for an unsigned \<open>x\<close>, and \<^verbatim>\<open>x as u64\<close> for a signed one.\<close>

definition as_i64 :: "u64 \<Rightarrow> int" where
  "as_i64 w = sint w"

definition as_u64 :: "int \<Rightarrow> u64" where
  "as_u64 i = word_of_int i"

definition i64_min :: int where "i64_min = - (2 ^ 63)"
definition i64_max :: int where "i64_max = 2 ^ 63 - 1"

definition i64_saturating_add :: "int \<Rightarrow> int \<Rightarrow> int" where
  "i64_saturating_add a b = max i64_min (min i64_max (a + b))"

lemma unat_bound: "unat (a :: 'a::len word) < 2 ^ LENGTH('a)"
  by (rule unsigned_less)

lemma unat_max_word: "unat (- 1 :: 'a::len word) = 2 ^ LENGTH('a) - 1"
  by (simp add: unsigned_minus_1_eq_mask mask_eq_exp_minus_1)

lemma unat_saturating_add [rust_int]:
  "unat (saturating_add (a :: 'a::len word) b) = min (unat a + unat b) (2 ^ LENGTH('a) - 1)"
  by (auto simp: saturating_add_def unat_max_word unat_word_ariths min_def)

lemma unat_saturating_sub [rust_int]:
  "unat (saturating_sub a b) = unat a - unat b"
  by (auto simp: saturating_sub_def word_less_nat_alt unat_sub word_le_nat_alt)

lemma unat_saturating_mul [rust_int]:
  "unat (saturating_mul (a :: 'a::len word) b) = min (unat a * unat b) (2 ^ LENGTH('a) - 1)"
proof -
  have "(2::nat) ^ LENGTH('a) > 0" by simp
  then show ?thesis
    by (cases "unat a * unat b < 2 ^ LENGTH('a)")
      (simp_all add: saturating_mul_def unat_max_word unat_word_ariths)
qed

lemma checked_add_Some_iff:
  "checked_add (a :: 'a::len word) b = Some c
    \<longleftrightarrow> unat a + unat b < 2 ^ LENGTH('a) \<and> unat c = unat a + unat b"
proof (cases "unat a + unat b < 2 ^ LENGTH('a)")
  case True
  then have "unat (a + b) = unat a + unat b" by (simp add: unat_word_ariths)
  with True show ?thesis by (auto simp: checked_add_def word_unat_eq_iff)
next
  case False
  then show ?thesis by (simp add: checked_add_def)
qed

lemma checked_mul_Some_iff:
  "checked_mul (a :: 'a::len word) b = Some c
    \<longleftrightarrow> unat a * unat b < 2 ^ LENGTH('a) \<and> unat c = unat a * unat b"
proof (cases "unat a * unat b < 2 ^ LENGTH('a)")
  case True
  then have "unat (a * b) = unat a * unat b" by (simp add: unat_word_ariths)
  with True show ?thesis by (auto simp: checked_mul_def word_unat_eq_iff)
next
  case False
  then show ?thesis by (simp add: checked_mul_def)
qed


lemma unat_div_ceil [rust_int]:
  assumes "b \<noteq> 0"
  shows "unat (div_ceil (a :: 'a::len word) b)
    = unat a div unat b + (if unat a mod unat b = 0 then 0 else 1)"
proof -
  have b: "0 < unat b" using assms by (simp add: unat_gt_0)
  have small: "unat a div unat b + 1 < 2 ^ LENGTH('a)" if "unat a mod unat b \<noteq> 0"
  proof -
    have "2 \<le> unat b" using that b by (cases "unat b = 1") simp_all
    then have "unat a div unat b \<le> unat a div 2" by (simp add: div_le_mono2)
    moreover have "0 < unat a" using that by (cases "unat a = 0") simp_all
    ultimately have "unat a div unat b < unat a" by simp
    then show ?thesis using unat_bound [of a] by linarith
  qed
  have z: "a mod b = 0 \<longleftrightarrow> unat a mod unat b = 0"
    by (simp add: word_unat_eq_iff unat_mod_distrib)
  show ?thesis
    using small by (auto simp: div_ceil_def z unat_div_distrib unat_word_ariths)
qed

text \<open>Rounding up is exact: a value covers the quotient when its product covers the dividend.\<close>

lemma div_ceil_le_iff:
  assumes "b \<noteq> 0"
  shows "unat (div_ceil a b) \<le> n \<longleftrightarrow> unat a \<le> n * unat b"
proof -
  have b: "0 < unat b" using assms by (simp add: unat_gt_0)
  have ceil: "x div d + (if x mod d = 0 then 0 else 1) \<le> n \<longleftrightarrow> x \<le> n * d"
    if "0 < d" for x d :: nat
  proof (cases "x mod d = 0")
    case True
    then have "x = x div d * d" by (metis add.right_neutral div_mult_mod_eq)
    with that show ?thesis by (metis True mult_le_cancel2 add.right_neutral)
  next
    case False
    have "x div d < n \<longleftrightarrow> x < n * d" using that by (simp add: div_less_iff_less_mult)
    moreover have "x \<noteq> n * d" using False by auto
    ultimately show ?thesis using False by auto
  qed
  show ?thesis unfolding unat_div_ceil [OF assms] by (rule ceil [OF b])
qed


text \<open>A value in the lower half of its type keeps its value as a signed integer.\<close>

lemma sint_small:
  assumes "unat (w :: 'a::len word) < 2 ^ (LENGTH('a) - 1)"
  shows "sint w = int (unat w)"
proof -
  have "int (unat w) < int (2 ^ (LENGTH('a) - 1))" using assms by (simp only: of_nat_less_iff)
  then have "uint w < 2 ^ (LENGTH('a) - 1)" by simp
  moreover have "- (2 ^ (LENGTH('a) - 1)) \<le> uint w"
    by (rule order_trans [of _ 0]) simp_all
  ultimately have "signed_take_bit (LENGTH('a) - 1) (uint w) = uint w"
    by (intro signed_take_bit_int_eq_self)
  then show ?thesis by (simp add: sint_uint)
qed

lemma unat_ucast_up:
  assumes "LENGTH('a) \<le> LENGTH('b)"
  shows "unat (ucast (w :: 'a::len word) :: 'b::len word) = unat w"
proof -
  have "unat w < 2 ^ LENGTH('b)"
    using unat_bound [of w] assms by (meson less_le_trans one_le_numeral power_increasing)
  then show ?thesis by (simp add: unsigned_ucast_eq take_bit_nat_eq_self)
qed


section \<open>Results, slices and little-endian integers\<close>

type_synonym ('a, 'e) result = "'e + 'a"

abbreviation Ok :: "'a \<Rightarrow> ('a, 'e) result" where "Ok \<equiv> Inr"
abbreviation Err :: "'e \<Rightarrow> ('a, 'e) result" where "Err \<equiv> Inl"

text \<open>\<^verbatim>\<open>xs.get(i)\<close> and \<^verbatim>\<open>xs.get(a..b)\<close>.\<close>

definition list_get :: "'a list \<Rightarrow> nat \<Rightarrow> 'a option" where
  "list_get xs i = (if i < length xs then Some (xs ! i) else None)"

definition slice :: "'a list \<Rightarrow> nat \<Rightarrow> nat \<Rightarrow> 'a list" where
  "slice xs a b = take (b - a) (drop a xs)"

definition slice_get :: "'a list \<Rightarrow> nat \<Rightarrow> nat \<Rightarrow> 'a list option" where
  "slice_get xs a b = (if a \<le> b \<and> b \<le> length xs then Some (slice xs a b) else None)"

definition list_last :: "'a list \<Rightarrow> 'a option" where
  "list_last xs = (if xs = [] then None else Some (last xs))"

lemma list_get_Some_iff [simp]:
  "list_get xs i = Some x \<longleftrightarrow> i < length xs \<and> xs ! i = x"
  by (auto simp: list_get_def)

lemma list_get_None_iff [simp]: "list_get xs i = None \<longleftrightarrow> length xs \<le> i"
  by (auto simp: list_get_def)

lemma list_get_mem: "list_get xs i = Some x \<Longrightarrow> x \<in> set xs"
  by auto

text \<open>Little-endian integers over byte strings.\<close>

fun le_bytes :: "nat \<Rightarrow> nat \<Rightarrow> byte_string" where
  "le_bytes 0 n = []"
| "le_bytes (Suc k) n = of_nat (n mod 256) # le_bytes k (n div 256)"

fun from_le_bytes :: "byte_string \<Rightarrow> nat" where
  "from_le_bytes [] = 0"
| "from_le_bytes (b # bs) = unat b + 256 * from_le_bytes bs"

lemma length_le_bytes [simp]: "length (le_bytes k n) = k"
  by (induction k arbitrary: n) auto

lemma unat_byte_of_nat: "n < 256 \<Longrightarrow> unat (of_nat n :: u8) = n"
  by (simp add: unat_of_nat)

lemma from_le_bytes_le_bytes [simp]:
  "n < 256 ^ k \<Longrightarrow> from_le_bytes (le_bytes k n) = n"
proof (induction k arbitrary: n)
  case 0
  then show ?case by simp
next
  case (Suc k)
  then have "n div 256 < 256 ^ k" by (simp add: div_less_iff_less_mult mult.commute)
  with Suc.IH show ?case by (simp add: unat_byte_of_nat)
qed

lemma from_le_bytes_bound: "from_le_bytes bs < 256 ^ length bs"
proof (induction bs)
  case Nil
  then show ?case by simp
next
  case (Cons b bs)
  have "unat b < 256" using unsigned_less [of b] by simp
  with Cons.IH show ?case by simp
qed

lemma le_bytes_from_le_bytes [simp]: "le_bytes (length bs) (from_le_bytes bs) = bs"
proof (induction bs)
  case Nil
  then show ?case by simp
next
  case (Cons b bs)
  have "unat b < 256" using unsigned_less [of b] by simp
  with Cons.IH show ?case by simp
qed


text \<open>\<^verbatim>\<open>to_le_bytes\<close> and \<^verbatim>\<open>from_le_bytes\<close> of 64-bit integers, and the 32 bytes of a hash.\<close>

definition u64_le :: "u64 \<Rightarrow> byte_string" where
  "u64_le w = le_bytes 8 (unat w)"

definition u64_of :: "byte_string \<Rightarrow> u64" where
  "u64_of bs = of_nat (from_le_bytes bs)"

definition i64_le :: "int \<Rightarrow> byte_string" where
  "i64_le i = u64_le (as_u64 i)"

definition i64_of :: "byte_string \<Rightarrow> int" where
  "i64_of bs = as_i64 (u64_of bs)"

definition hash_le :: "hash \<Rightarrow> byte_string" where
  "hash_le h = le_bytes 32 (unat h)"

definition hash_of_bytes :: "byte_string \<Rightarrow> hash" where
  "hash_of_bytes bs = of_nat (from_le_bytes bs)"

lemma length_le [simp]: "length (u64_le w) = 8" "length (i64_le i) = 8" "length (hash_le h) = 32"
  by (simp_all add: u64_le_def i64_le_def hash_le_def)

lemma u64_of_le [simp]: "u64_of (u64_le w) = w"
  using unat_bound [of w] by (simp add: u64_of_def u64_le_def)

lemma i64_of_le [simp]: "i64_min \<le> i \<Longrightarrow> i \<le> i64_max \<Longrightarrow> i64_of (i64_le i) = i"
  by (simp add: i64_of_def i64_le_def as_i64_def as_u64_def i64_min_def i64_max_def
      signed_of_int signed_take_bit_int_eq_self)

lemma hash_of_bytes_le [simp]: "hash_of_bytes (hash_le h) = h"
  using unat_bound [of h] by (simp add: hash_of_bytes_def hash_le_def)

lemma hash_le_inject [simp]: "hash_le a = hash_le b \<longleftrightarrow> a = b"
  by (metis hash_of_bytes_le)


section \<open>Hash maps and hash sets\<close>

type_synonym ('k, 'v) hmap = "('k \<times> 'v) list"
type_synonym 'a hset = "'a list"

abbreviation hm_get :: "('k, 'v) hmap \<Rightarrow> 'k \<Rightarrow> 'v option" where
  "hm_get \<equiv> map_of"

abbreviation hm_insert :: "'k \<Rightarrow> 'v \<Rightarrow> ('k, 'v) hmap \<Rightarrow> ('k, 'v) hmap" where
  "hm_insert \<equiv> AList.update"

abbreviation hm_remove :: "'k \<Rightarrow> ('k, 'v) hmap \<Rightarrow> ('k, 'v) hmap" where
  "hm_remove \<equiv> AList.delete"

abbreviation hm_keys :: "('k, 'v) hmap \<Rightarrow> 'k list" where
  "hm_keys m \<equiv> map fst m"

definition hm_contains :: "('k, 'v) hmap \<Rightarrow> 'k \<Rightarrow> bool" where
  "hm_contains m k = (hm_get m k \<noteq> None)"

definition hm_wf :: "('k, 'v) hmap \<Rightarrow> bool" where
  "hm_wf m = distinct (hm_keys m)"

text \<open>\<^verbatim>\<open>m.get(k).copied().unwrap_or(d)\<close>\<close>

definition hm_get_or :: "('k, 'v) hmap \<Rightarrow> 'k \<Rightarrow> 'v \<Rightarrow> 'v" where
  "hm_get_or m k d = (case hm_get m k of None \<Rightarrow> d | Some v \<Rightarrow> v)"

definition hs_insert :: "'a \<Rightarrow> 'a hset \<Rightarrow> 'a hset" where
  "hs_insert x s = (if x \<in> set s then s else x # s)"

definition hs_remove :: "'a \<Rightarrow> 'a hset \<Rightarrow> 'a hset" where
  "hs_remove x s = filter (\<lambda>y. y \<noteq> x) s"

definition hs_extend :: "'a hset \<Rightarrow> 'a list \<Rightarrow> 'a hset" where
  "hs_extend s xs = foldl (\<lambda>acc x. hs_insert x acc) s xs"

text \<open>\<^verbatim>\<open>m.entry(k).or_default()\<close> and \<^verbatim>\<open>m.entry(k).or_default().insert(x)\<close>\<close>

definition hm_entry_default :: "'k \<Rightarrow> ('k, 'a hset) hmap \<Rightarrow> ('k, 'a hset) hmap" where
  "hm_entry_default k m = (case hm_get m k of None \<Rightarrow> hm_insert k [] m | Some _ \<Rightarrow> m)"

definition hm_entry_insert :: "'k \<Rightarrow> 'a \<Rightarrow> ('k, 'a hset) hmap \<Rightarrow> ('k, 'a hset) hmap" where
  "hm_entry_insert k x m = hm_insert k (hs_insert x (hm_get_or m k [])) m"

text \<open>\<^verbatim>\<open>if let Some(s) = m.get_mut(k) { s.remove(x); }\<close>\<close>

definition hm_set_remove :: "'k \<Rightarrow> 'a \<Rightarrow> ('k, 'a hset) hmap \<Rightarrow> ('k, 'a hset) hmap" where
  "hm_set_remove k x m = (case hm_get m k of None \<Rightarrow> m | Some s \<Rightarrow> hm_insert k (hs_remove x s) m)"


text \<open>
  The contract of a map as its clients use it: a lookup after an insertion or a removal,
  and the distinctness of keys, which makes the number of entries and a walk over the
  entries meaningful.
\<close>

locale hash_map =
  fixes get :: "'m \<Rightarrow> 'k \<Rightarrow> 'v option"
    and ins :: "'k \<Rightarrow> 'v \<Rightarrow> 'm \<Rightarrow> 'm"
    and del :: "'k \<Rightarrow> 'm \<Rightarrow> 'm"
    and entries :: "'m \<Rightarrow> ('k \<times> 'v) list"
    and wf :: "'m \<Rightarrow> bool"
  assumes get_ins: "get (ins k v m) = (get m)(k \<mapsto> v)"
    and get_del: "get (del k m) = (get m)(k := None)"
    and wf_ins: "wf m \<Longrightarrow> wf (ins k v m)"
    and wf_del: "wf m \<Longrightarrow> wf (del k m)"
    and entries_get: "wf m \<Longrightarrow> (k, v) \<in> set (entries m) \<longleftrightarrow> get m k = Some v"
    and entries_distinct: "wf m \<Longrightarrow> distinct (map fst (entries m))"
begin

definition del_all :: "'k list \<Rightarrow> 'm \<Rightarrow> 'm" where
  "del_all ks m = foldl (\<lambda>m k. del k m) m ks"

lemma get_del_all: "get (del_all ks m) k = (if k \<in> set ks then None else get m k)"
  by (induction ks arbitrary: m) (auto simp: del_all_def get_del)

lemma wf_del_all: "wf m \<Longrightarrow> wf (del_all ks m)"
  by (induction ks arbitrary: m) (auto simp: del_all_def wf_del)

lemma keys_get: "wf m \<Longrightarrow> k \<in> fst ` set (entries m) \<longleftrightarrow> get m k \<noteq> None"
proof -
  assume wf: "wf m"
  have "k \<in> fst ` set (entries m) \<longleftrightarrow> (\<exists>v. (k, v) \<in> set (entries m))" by force
  with wf show ?thesis by (auto simp: entries_get)
qed

lemma card_dom: "wf m \<Longrightarrow> card (dom (get m)) = length (entries m)"
proof -
  assume wf: "wf m"
  then have "dom (get m) = set (map fst (entries m))"
    using keys_get [OF wf] by (auto simp: dom_def)
  with entries_distinct [OF wf] show ?thesis
    by (metis distinct_card length_map)
qed

lemma entries_del:
  assumes "wf m"
  shows "set (entries (del k m)) = {e \<in> set (entries m). fst e \<noteq> k}"
  using assms wf_del [OF assms, of k] by (auto simp: entries_get get_del split: if_splits)

end

interpretation hm: hash_map hm_get hm_insert hm_remove "\<lambda>m. m" hm_wf
  by unfold_locales
    (auto simp: hm_wf_def update_conv' delete_conv' distinct_update distinct_delete
      dest: map_of_SomeD)

lemmas [hm_simps] = update_conv' delete_conv' map_of_SomeD

lemma hm_contains_iff [simp]: "hm_contains m k \<longleftrightarrow> k \<in> fst ` set m"
  by (auto simp: hm_contains_def map_of_eq_None_iff)

lemma set_hs_insert [simp]: "set (hs_insert x s) = insert x (set s)"
  by (auto simp: hs_insert_def)

lemma set_hs_remove [simp]: "set (hs_remove x s) = set s - {x}"
  by (auto simp: hs_remove_def)

lemma distinct_hs_insert [simp]: "distinct (hs_insert x s) = distinct s"
  by (auto simp: hs_insert_def)

lemma distinct_hs_remove [simp]: "distinct s \<Longrightarrow> distinct (hs_remove x s)"
  by (simp add: hs_remove_def)

lemma set_hs_extend [simp]: "set (hs_extend s xs) = set s \<union> set xs"
  by (induction xs arbitrary: s) (auto simp: hs_extend_def)

lemma distinct_hs_extend [simp]: "distinct (hs_extend s xs) = distinct s"
  by (induction xs arbitrary: s) (auto simp: hs_extend_def)

lemma get_hm_entry_default [hm_simps]:
  "hm_get (hm_entry_default k m) k' =
    (if k' = k \<and> hm_get m k = None then Some [] else hm_get m k')"
  by (auto simp: hm_entry_default_def update_conv' split: option.splits)

lemma get_hm_entry_insert [hm_simps]:
  "hm_get (hm_entry_insert k x m) k' =
    (if k' = k then Some (hs_insert x (hm_get_or m k [])) else hm_get m k')"
  by (auto simp: hm_entry_insert_def update_conv')

lemma get_hm_set_remove [hm_simps]:
  "hm_get (hm_set_remove k x m) k' =
    (if k' = k then map_option (hs_remove x) (hm_get m k) else hm_get m k')"
  by (auto simp: hm_set_remove_def update_conv' split: option.splits)

lemma hm_wf_simps [simp]:
  "hm_wf []"
  "hm_wf m \<Longrightarrow> hm_wf (hm_insert k v m)"
  "hm_wf m \<Longrightarrow> hm_wf (hm_remove k m)"
  by (simp_all add: hm_wf_def distinct_update distinct_delete)

lemma hm_wf_entry [simp]:
  "hm_wf m \<Longrightarrow> hm_wf (hm_entry_default k m)"
  "hm_wf m \<Longrightarrow> hm_wf (hm_entry_insert k x m)"
  "hm_wf m \<Longrightarrow> hm_wf (hm_set_remove k x m)"
  by (auto simp: hm_entry_default_def hm_entry_insert_def hm_set_remove_def split: option.splits)


section \<open>Maps of sets\<close>

text \<open>
  A \<^verbatim>\<open>HashMap<K, HashSet<V>>\<close> read as a relation: \<open>mm_set\<close> is the set stored at a key, empty
  for a key that is absent, and \<open>mm_dom\<close> the keys. The laws are the ones the dependency graph
  of the pool uses.
\<close>

definition mm_set :: "('k, 'a hset) hmap \<Rightarrow> 'k \<Rightarrow> 'a set" where
  "mm_set m k = set (hm_get_or m k [])"

definition mm_dom :: "('k, 'v) hmap \<Rightarrow> 'k set" where
  "mm_dom m = dom (hm_get m)"

lemma mm_dom_iff: "k \<in> mm_dom m \<longleftrightarrow> hm_get m k \<noteq> None"
  by (auto simp: mm_dom_def)

lemma mm_dom_fst: "fst ` set m = mm_dom m"
  by (simp add: mm_dom_def dom_map_of_conv_image_fst)

lemma mm_dom_simps [simp]:
  "mm_dom [] = {}"
  "mm_dom (hm_insert k v m) = insert k (mm_dom m)"
  "mm_dom (hm_remove k m) = mm_dom m - {k}"
  by (auto simp: mm_dom_def update_conv' delete_conv' split: if_splits)

lemma mm_dom_entry [simp]:
  "mm_dom (hm_entry_default k d) = insert k (mm_dom d)"
  "mm_dom (hm_entry_insert k x d) = insert k (mm_dom d)"
  "mm_dom (hm_set_remove k x d) = mm_dom d"
  by (auto simp: hm_entry_default_def hm_entry_insert_def hm_set_remove_def mm_dom_def update_conv'
    split: option.splits if_splits)

lemma mm_set_empty: "k \<notin> mm_dom m \<Longrightarrow> mm_set m k = {}"
  by (auto simp: mm_set_def mm_dom_def hm_get_or_def split: option.splits)

lemma mm_set_entry_default [simp]: "mm_set (hm_entry_default k m) k' = mm_set m k'"
  by (simp add: mm_set_def hm_get_or_def get_hm_entry_default)

lemma mm_set_entry_insert [simp]:
  "mm_set (hm_entry_insert k x m) k' = (if k' = k then insert x (mm_set m k) else mm_set m k')"
  by (cases "k' = k") (simp_all add: mm_set_def hm_get_or_def get_hm_entry_insert)

lemma mm_set_set_remove [simp]:
  "mm_set (hm_set_remove k x m) k' = (if k' = k then mm_set m k - {x} else mm_set m k')"
  by (cases "k' = k"; cases "hm_get m k") (simp_all add: mm_set_def hm_get_or_def get_hm_set_remove)

lemma mm_set_remove [simp]: "mm_set (hm_remove k m) k' = (if k' = k then {} else mm_set m k')"
  by (simp add: mm_set_def hm_get_or_def delete_conv')

lemma mm_set_Nil [simp]: "mm_set [] k = {}"
  by (simp add: mm_set_def hm_get_or_def)

lemma mm_get_set: "hm_get m k = Some s \<Longrightarrow> mm_set m k = set s"
  by (simp add: mm_set_def hm_get_or_def)

lemma get_foldl_insert [hm_simps]:
  "hm_get (foldl (\<lambda>m k. hm_insert k v m) m ks) k = (if k \<in> set ks then Some v else hm_get m k)"
  by (induction ks arbitrary: m) (auto simp: update_conv')

lemma get_foldl_remove [hm_simps]:
  "hm_get (foldl (\<lambda>m k. hm_remove k m) m ks) k = (if k \<in> set ks then None else hm_get m k)"
  using hm.get_del_all [of ks m k] by (simp add: hm.del_all_def)

lemma wf_foldl [simp]:
  "hm_wf m \<Longrightarrow> hm_wf (foldl (\<lambda>m k. hm_insert k v m) m ks)"
  "hm_wf m \<Longrightarrow> hm_wf (foldl (\<lambda>m k. hm_remove k m) m ks)"
  by (induction ks arbitrary: m) auto

lemma set_foldl_sets [simp]:
  "set (foldl (\<lambda>s x. hs_insert x s) s xs) = set s \<union> set xs"
  "set (foldl (\<lambda>s x. hs_remove x s) s xs) = set s - set xs"
  by (induction xs arbitrary: s) auto

lemma mm_set_foldl_remove [simp]:
  "mm_set (foldl (\<lambda>d c. hm_set_remove c x d) m cs) k = (if k \<in> set cs then mm_set m k - {x} else mm_set m k)"
  by (induction cs arbitrary: m) auto

lemma mm_dom_foldl_remove [simp]:
  "mm_dom (foldl (\<lambda>d c. hm_set_remove c x d) m cs) = mm_dom m"
  by (induction cs arbitrary: m) auto

lemma mm_foldl_from [simp]:
  "mm_set (foldl (\<lambda>d p. hm_entry_insert c p d) m ps) k = (if k = c then mm_set m k \<union> set ps else mm_set m k)"
  "mm_dom (foldl (\<lambda>d p. hm_entry_insert c p d) m ps) = (if ps = [] then mm_dom m else insert c (mm_dom m))"
  by (induction ps arbitrary: m) auto

lemma mm_foldl_to [simp]:
  "mm_set (foldl (\<lambda>d p. hm_entry_insert p c d) m ps) k = (if k \<in> set ps then insert c (mm_set m k) else mm_set m k)"
  "mm_dom (foldl (\<lambda>d p. hm_entry_insert p c d) m ps) = mm_dom m \<union> set ps"
  by (induction ps arbitrary: m) auto

lemma foldl_invariant:
  assumes "\<And>s x. I s \<Longrightarrow> x \<in> set xs \<Longrightarrow> I (f s x)" "I s"
  shows "I (foldl f s xs)"
  using assms by (induction xs arbitrary: s) simp_all

end
