(* ===== verification/Protocol.thy ===== *)
theory Protocol
  imports Prelude
begin

text \<open>
  The data types of \<^verbatim>\<open>blvm_protocol\<close> the node works on, with the fields it reads, and
  the functions of \<^verbatim>\<open>blvm_protocol\<close>, \<^verbatim>\<open>blvm_consensus\<close> and \<^verbatim>\<open>sha2\<close> it calls.
  Those crates are not part of this repository, so their functions are the fields of the
  record \<open>protocol\<close>, and every definition that reaches one takes such a record as its
  argument \<open>P\<close>. Nothing is assumed of them here; a theorem that relies on documented
  behaviour states it as a hypothesis.
\<close>


section \<open>Data\<close>

datatype network = Mainnet | Testnet | Testnet4 | Regtest | Signet

record outpoint =
  op_hash :: hash
  op_index :: u32

record tx_input =
  prevout :: outpoint
  script_sig :: byte_string
  sequence :: u64

record tx_output =
  out_value :: int
  script_pubkey :: byte_string

record transaction =
  version :: u64
  inputs :: "tx_input list"
  outputs :: "tx_output list"
  lock_time :: u64

record utxo =
  utxo_value :: int
  utxo_script :: byte_string
  utxo_height :: u64
  utxo_is_coinbase :: bool

record block_header =
  hdr_version :: int
  prev_block_hash :: hash
  merkle_root :: hash
  timestamp :: u64
  bits :: u64
  nonce :: u64

record block =
  blk_header :: block_header
  block_txs :: "transaction list"

type_synonym utxo_set = "(outpoint, utxo) hmap"

text \<open>One witness stack: the items pushed for one input.\<close>

type_synonym witness = "byte_string list"

typedecl spam_config

datatype script_flag =
    DISCOURAGE_UPGRADABLE_NOPS | MINIMALIF | CLEANSTACK | NULLFAIL | LOW_S
  | WITNESS_PUBKEYTYPE | DISCOURAGE_OP_SUCCESS | DISCOURAGE_UPGRADABLE_TAPROOT_VERSION
  | CONST_SCRIPTCODE | DISCOURAGE_UPGRADABLE_WITNESS_PROGRAM
  | DISCOURAGE_UPGRADABLE_PUBKEYTYPE | STRICTENC

definition prevouts :: "transaction \<Rightarrow> outpoint list" where
  "prevouts tx = map prevout (inputs tx)"


section \<open>Functions of other crates\<close>

record script_api =
  OP_0 :: u8
  OP_1 :: u8
  OP_16 :: u8
  OP_1NEGATE :: u8
  OP_PUSHDATA1 :: u8
  OP_PUSHDATA2 :: u8
  OP_PUSHDATA4 :: u8
  OP_EQUAL :: u8
  OP_HASH160 :: u8
  OP_CHECKMULTISIG :: u8
  PUSH_20_BYTES :: u8
  PUSH_33_BYTES :: u8
  PUSH_65_BYTES :: u8
  is_any_witness_program :: "byte_string \<Rightarrow> bool"
  is_invalid_v0_witness_program :: "byte_string \<Rightarrow> bool"
  is_upgradable_witness_program :: "byte_string \<Rightarrow> bool"
  is_pay_to_anchor :: "byte_string \<Rightarrow> bool"
  count_sigops_in_script :: "byte_string \<Rightarrow> bool \<Rightarrow> u32"
  p2sh_push_only_check :: "byte_string \<Rightarrow> bool"
  script_flag_bits :: "script_flag \<Rightarrow> u32"
  SEGWIT_STANDARD_FLAGS :: u32

record tx_api = script_api +
  calculate_tx_id :: "transaction \<Rightarrow> hash"
  serialize_transaction :: "transaction \<Rightarrow> byte_string"
  serialize_transaction_with_witness :: "transaction \<Rightarrow> witness list \<Rightarrow> (byte_string, string) result"
  deserialize_transaction_with_witness ::
    "byte_string \<Rightarrow> (transaction \<times> witness list \<times> nat, string) result"
  wire_serialize_tx :: "transaction \<Rightarrow> (byte_string, string) result"
  sha256 :: "byte_string \<Rightarrow> byte_string"
  is_coinbase :: "transaction \<Rightarrow> bool"
  check_transaction_valid :: "transaction \<Rightarrow> bool"
  check_coinbase_maturity :: "u64 \<Rightarrow> u64 \<Rightarrow> bool \<Rightarrow> bool"
  get_median_time_past :: "block_header list \<Rightarrow> u64"
  is_sequence_disabled :: "u32 \<Rightarrow> bool"
  extract_sequence_type_flag :: "u32 \<Rightarrow> bool"
  extract_sequence_locktime_value :: "u32 \<Rightarrow> u32"
  version_enforces_relative_lock :: "u64 \<Rightarrow> bool"
  MAX_MONEY :: int

record protocol = tx_api +
  is_final_tx :: "transaction \<Rightarrow> u64 \<Rightarrow> u64 \<Rightarrow> bool"
  relative_lock_unsatisfied ::
    "transaction \<Rightarrow> utxo_set \<Rightarrow> u64 \<Rightarrow> u64 \<Rightarrow> int list option \<Rightarrow> network \<Rightarrow> (bool, string) result"
  signals_rbf :: "transaction \<Rightarrow> bool"
  has_conflict_with_tx :: "transaction \<Rightarrow> transaction \<Rightarrow> bool"
  replacement_checks_with_witness ::
    "transaction \<Rightarrow> transaction \<Rightarrow> utxo_set \<Rightarrow> hash hset \<Rightarrow> witness list option
      \<Rightarrow> (bool, string) result"
  get_transaction_sigop_cost_with_utxos ::
    "transaction \<Rightarrow> utxo option list \<Rightarrow> witness list option \<Rightarrow> u32 \<Rightarrow> (u64, string) result"
  get_legacy_sigop_count :: "transaction \<Rightarrow> u32"
  sigop_adjusted_vsize :: "u64 \<Rightarrow> u64 \<Rightarrow> u64 \<Rightarrow> u64"
  transaction_weight_from_stacks :: "transaction \<Rightarrow> witness list \<Rightarrow> (u64, string) result"
  calculate_script_flags :: "transaction \<Rightarrow> bool \<Rightarrow> u64 \<Rightarrow> network \<Rightarrow> u32"
  verify_script ::
    "byte_string \<Rightarrow> byte_string \<Rightarrow> witness option \<Rightarrow> u32 \<Rightarrow> transaction \<Rightarrow> nat
      \<Rightarrow> int list \<Rightarrow> byte_string list \<Rightarrow> (bool, string) result"
  is_spam :: "spam_config option \<Rightarrow> transaction \<Rightarrow> witness list option \<Rightarrow> bool"
  outpoint_value_hash :: "outpoint \<Rightarrow> int \<Rightarrow> u64"
  DEFAULT_BYTES_PER_SIGOP :: u64
  MAX_STANDARD_TX_SIGOPS_COST :: u64

text \<open>The documented values of the script opcodes.\<close>

definition bitcoin_opcodes :: "('a) script_api_scheme \<Rightarrow> bool" where
  "bitcoin_opcodes P \<longleftrightarrow>
     OP_0 P = 0 \<and> OP_1 P = 0x51 \<and> OP_16 P = 0x60 \<and> OP_1NEGATE P = 0x4f
   \<and> OP_PUSHDATA1 P = 0x4c \<and> OP_PUSHDATA2 P = 0x4d \<and> OP_PUSHDATA4 P = 0x4e
   \<and> OP_EQUAL P = 0x87 \<and> OP_HASH160 P = 0xa9 \<and> OP_CHECKMULTISIG P = 0xae
   \<and> PUSH_20_BYTES P = 0x14 \<and> PUSH_33_BYTES P = 0x21 \<and> PUSH_65_BYTES P = 0x41"

end
