(* ===== verification/Script_Policy.thy ===== *)
theory Script_Policy
  imports Protocol
begin

text \<open>
  Standardness of scripts, dust and money sums: the free functions of
  \<^verbatim>\<open>src/node/mempool.rs\<close> before \<^verbatim>\<open>impl MempoolManager\<close>. A script is a byte string; the
  parsing loops keep the source's byte index \<open>i\<close> and its bounds checks.
\<close>


section \<open>Script classes\<close>

definition is_p2sh_script :: "'a script_api_scheme \<Rightarrow> byte_string \<Rightarrow> bool" where
  "is_p2sh_script P script \<longleftrightarrow>
     length script = 23
   \<and> script ! 0 = OP_HASH160 P
   \<and> script ! 1 = PUSH_20_BYTES P
   \<and> script ! 22 = OP_EQUAL P"

text \<open>One iteration of \<^verbatim>\<open>last_script_push\<close>: bytes to advance and the pushed data.\<close>

definition script_push_at ::
  "'a script_api_scheme \<Rightarrow> byte_string \<Rightarrow> nat \<Rightarrow> (nat \<times> byte_string) option" where
  "script_push_at P script i =
     (let opcode = script ! i in
      if opcode = OP_0 P then Some (1, [])
      else if opcode > OP_0 P \<and> opcode < OP_PUSHDATA1 P then
        (let len = unat opcode in
         if i + 1 + len > length script then None
         else Some (1 + len, slice script (i + 1) (i + 1 + len)))
      else if opcode = OP_PUSHDATA1 P then
        (if i + 1 \<ge> length script then None
         else let len = unat (script ! (i + 1)) in
           if i + 2 + len > length script then None
           else Some (2 + len, slice script (i + 2) (i + 2 + len)))
      else if opcode = OP_PUSHDATA2 P then
        (if i + 2 \<ge> length script then None
         else let len = from_le_bytes [script ! (i + 1), script ! (i + 2)] in
           if i + 3 + len > length script then None
           else Some (3 + len, slice script (i + 3) (i + 3 + len)))
      else if opcode = OP_PUSHDATA4 P then
        (if i + 4 \<ge> length script then None
         else let len = from_le_bytes [script ! (i + 1), script ! (i + 2),
                                       script ! (i + 3), script ! (i + 4)] in
           if i + 5 + len > length script then None
           else Some (5 + len, slice script (i + 5) (i + 5 + len)))
      else if opcode = OP_1NEGATE P \<or> (OP_1 P \<le> opcode \<and> opcode \<le> OP_16 P) then Some (1, [])
      else None)"

lemma script_push_at_advances: "script_push_at P script i = Some (n, d) \<Longrightarrow> 0 < n"
  by (auto simp: script_push_at_def Let_def split: if_splits)

function last_script_push_loop ::
  "'a script_api_scheme \<Rightarrow> byte_string \<Rightarrow> nat \<Rightarrow> byte_string option \<Rightarrow> byte_string option" where
  "last_script_push_loop P script i last_push =
     (if i < length script then
        (case script_push_at P script i of
           None \<Rightarrow> None
         | Some (n, d) \<Rightarrow> last_script_push_loop P script (i + n) (Some d))
      else last_push)"
  by pat_completeness auto
termination
  by (relation "measure (\<lambda>(P, script, i, l). length script - i)")
    (auto dest: script_push_at_advances)

declare last_script_push_loop.simps [simp del]

definition last_script_push :: "'a script_api_scheme \<Rightarrow> byte_string \<Rightarrow> byte_string option" where
  "last_script_push P script = last_script_push_loop P script 0 None"

definition p2sh_redeem_is_witness_program ::
  "'a script_api_scheme \<Rightarrow> byte_string \<Rightarrow> byte_string \<Rightarrow> bool" where
  "p2sh_redeem_is_witness_program P script_pk script_sg =
     (if \<not> is_p2sh_script P script_pk then False
      else case last_script_push P script_sg of
        None \<Rightarrow> False
      | Some redeem \<Rightarrow> is_any_witness_program P redeem)"

text \<open>
  The header of a push beyond the direct ones, shared by \<^verbatim>\<open>op_return_payload_is_push_only\<close>
  and \<^verbatim>\<open>last_push_payload\<close>: \<open>None\<close> for an opcode that carries no data, otherwise the size of
  the header and the length it announces, if the header is complete.
\<close>

definition pushdata_header :: "byte_string \<Rightarrow> nat \<Rightarrow> (nat \<times> nat option) option" where
  "pushdata_header script i =
     (let opcode = script ! i in
      if opcode = 0x4c then Some (2, map_option unat (list_get script (i + 1)))
      else if opcode = 0x4d then Some (3, map_option from_le_bytes (slice_get script (i + 1) (i + 3)))
      else if opcode = 0x4e then Some (5, map_option from_le_bytes (slice_get script (i + 1) (i + 5)))
      else None)"

lemma pushdata_header_pos: "pushdata_header script i = Some (h, l) \<Longrightarrow> 0 < h"
  by (auto simp: pushdata_header_def Let_def split: if_splits)

function op_return_loop :: "byte_string \<Rightarrow> nat \<Rightarrow> bool" where
  "op_return_loop script i =
     (if i < length script then
        (let opcode = script ! i in
         if opcode > 0x60 then False
         else if opcode \<le> 0x4b then
           (let len = unat opcode in
            if i + 1 + len > length script then False
            else op_return_loop script (i + 1 + len))
         else case pushdata_header script i of
           None \<Rightarrow> op_return_loop script (i + 1)
         | Some (header, None) \<Rightarrow> False
         | Some (header, Some len) \<Rightarrow>
             if i + header + len > length script then False
             else op_return_loop script (i + header + len))
      else True)"
  by pat_completeness auto
termination
  by (relation "measure (\<lambda>(script, i). length script - i)")
    (auto dest: pushdata_header_pos)

declare op_return_loop.simps [simp del]

definition op_return_payload_is_push_only :: "byte_string \<Rightarrow> bool" where
  "op_return_payload_is_push_only script = op_return_loop script 1"

function last_push_loop :: "byte_string \<Rightarrow> nat \<Rightarrow> byte_string option \<Rightarrow> byte_string option" where
  "last_push_loop script i last_push =
     (if i < length script then
        (let opcode = script ! i in
         if opcode > 0x60 then None
         else if opcode \<le> 0x4b then
           (let len = unat opcode in
            if i + 1 + len > length script then None
            else last_push_loop script (i + 1 + len) (Some (slice script (i + 1) (i + 1 + len))))
         else case pushdata_header script i of
           None \<Rightarrow> last_push_loop script (i + 1) (Some [])
         | Some (header, None) \<Rightarrow> None
         | Some (header, Some len) \<Rightarrow>
             if i + header + len > length script then None
             else last_push_loop script (i + header + len)
                    (Some (slice script (i + header) (i + header + len))))
      else last_push)"
  by pat_completeness auto
termination
  by (relation "measure (\<lambda>(script, i, l). length script - i)")
    (auto dest: pushdata_header_pos)

declare last_push_loop.simps [simp del]

definition last_push_payload :: "byte_string \<Rightarrow> byte_string option" where
  "last_push_payload script = (if script = [] then None else last_push_loop script 0 None)"

text \<open>The key loop of \<^verbatim>\<open>bare_multisig_within\<close>: where the keys end, if every key is well formed.\<close>

fun multisig_keys :: "'a script_api_scheme \<Rightarrow> byte_string \<Rightarrow> nat \<Rightarrow> nat \<Rightarrow> nat option" where
  "multisig_keys P script 0 i = Some i"
| "multisig_keys P script (Suc n) i =
     (if i \<ge> length script - 2 then None
      else
        case (if script ! i = PUSH_33_BYTES P then Some (list_get script (i + 1), 33)
              else if script ! i = PUSH_65_BYTES P then Some (list_get script (i + 1), 65)
              else None) of
          None \<Rightarrow> None
        | Some (None, pk_len) \<Rightarrow> None
        | Some (Some hd_byte, pk_len) \<Rightarrow>
            (let compressed = (hd_byte = 0x02 \<or> hd_byte = 0x03);
                 uncompressed = (hd_byte = 0x04)
             in if pk_len = 33 \<and> \<not> compressed \<or> pk_len = 65 \<and> \<not> uncompressed then None
                else if i + 1 + pk_len > length script - 2 then None
                else multisig_keys P script n (i + 1 + pk_len)))"

definition bare_multisig_within :: "'a script_api_scheme \<Rightarrow> byte_string \<Rightarrow> u8 \<Rightarrow> bool" where
  "bare_multisig_within P script max_keys =
     (if length script < 4 \<or> script ! (length script - 1) \<noteq> OP_CHECKMULTISIG P then False
      else
        let n_op = script ! (length script - 2) in
        if n_op < OP_1 P \<or> n_op > OP_1 P + saturating_sub max_keys 1 then False
        else
          let n = unat (n_op - OP_1 P + 1); m_op = script ! 0 in
          if \<not> (OP_1 P \<le> m_op \<and> m_op \<le> OP_16 P) then False
          else
            let m = unat (m_op - OP_1 P + 1) in
            if m = 0 \<or> m > n then False
            else multisig_keys P script n 1 = Some (length script - 2))"

definition bare_multisig_is_standard :: "'a script_api_scheme \<Rightarrow> byte_string \<Rightarrow> bool" where
  "bare_multisig_is_standard P script = bare_multisig_within P script 3"

definition MAX_STANDARD_TX_WEIGHT :: u64 where "MAX_STANDARD_TX_WEIGHT = 400000"
definition MIN_STANDARD_TX_NONWITNESS_SIZE :: nat where "MIN_STANDARD_TX_NONWITNESS_SIZE = 65"
definition MAX_STANDARD_SCRIPTSIG_SIZE :: nat where "MAX_STANDARD_SCRIPTSIG_SIZE = 1650"
definition MAX_STANDARD_OP_RETURN_SIZE :: nat where
  "MAX_STANDARD_OP_RETURN_SIZE = unat (MAX_STANDARD_TX_WEIGHT div 4)"

definition output_script_is_standard :: "'a script_api_scheme \<Rightarrow> byte_string \<Rightarrow> bool" where
  "output_script_is_standard P script =
     (if script = [] then False
      else if script ! 0 = 0x6a then
        length script \<le> MAX_STANDARD_OP_RETURN_SIZE \<and> op_return_payload_is_push_only script
      else if is_any_witness_program P script \<and> \<not> is_invalid_v0_witness_program P script then True
      else if length script = 25 \<and> script ! 0 = 0x76 \<and> script ! 1 = 0xa9 \<and> script ! 2 = 0x14
        \<and> script ! 23 = 0x88 \<and> script ! 24 = 0xac then True
      else if length script = 23 \<and> script ! 0 = 0xa9 \<and> script ! 1 = 0x14 \<and> script ! 22 = 0x87
        then True
      else if length script = 35 \<and> script ! 0 = 0x21 \<and> (script ! 1 = 0x02 \<or> script ! 1 = 0x03)
        \<and> script ! 34 = 0xac then True
      else length script = 67 \<and> script ! 0 = 0x41 \<and> script ! 1 = 0x04 \<and> script ! 66 = 0xac
        \<or> bare_multisig_is_standard P script)"

definition spent_script_is_standard :: "'a script_api_scheme \<Rightarrow> byte_string \<Rightarrow> bool" where
  "spent_script_is_standard P script \<longleftrightarrow>
     output_script_is_standard P script \<or> bare_multisig_within P script 16"

definition output_is_dust :: "'a script_api_scheme \<Rightarrow> tx_output \<Rightarrow> bool" where
  "output_is_dust P out =
     (if list_get (script_pubkey out) 0 = Some 0x6a then False
      else
        let script_len = of_nat (length (script_pubkey out)) :: u64;
            compact = (if script_len < 253 then 1 else if script_len \<le> 0xffff then 3 else 5);
            spend = (if is_any_witness_program P (script_pubkey out)
                     then 32 + 4 + 1 + (107 div 4) + 4 else 32 + 4 + 1 + 107 + 4);
            n_size = 8 + compact + script_len + spend;
            threshold = saturating_mul n_size 3000 div 1000
        in out_value out < as_i64 threshold)"



section \<open>Spent outputs and their witnesses\<close>

record input_prevout =
  ip_value :: int
  ip_script :: byte_string

definition MAX_STANDARD_P2SH_SIGOPS :: u32 where "MAX_STANDARD_P2SH_SIGOPS = 15"
definition MAX_STANDARD_P2WSH_STACK_ITEM_SIZE :: nat where "MAX_STANDARD_P2WSH_STACK_ITEM_SIZE = 80"
definition MAX_STANDARD_P2WSH_SCRIPT_SIZE :: nat where "MAX_STANDARD_P2WSH_SCRIPT_SIZE = 3600"
definition MAX_STANDARD_P2WSH_STACK_ITEMS :: nat where "MAX_STANDARD_P2WSH_STACK_ITEMS = 100"
definition MAX_STANDARD_TAPSCRIPT_STACK_ITEM_SIZE :: nat where
  "MAX_STANDARD_TAPSCRIPT_STACK_ITEM_SIZE = 80"
definition TAPROOT_ANNEX_TAG :: u8 where "TAPROOT_ANNEX_TAG = 0x50"
definition TAPROOT_LEAF_MASK :: u8 where "TAPROOT_LEAF_MASK = 0xfe"
definition TAPROOT_LEAF_TAPSCRIPT :: u8 where "TAPROOT_LEAF_TAPSCRIPT = 0xc0"

text \<open>\<^verbatim>\<open>xs.iter().enumerate().any(|(i, x)| p)\<close> where \<open>x\<close> is present.\<close>

definition any_present :: "(nat \<Rightarrow> 'a \<Rightarrow> bool) \<Rightarrow> 'a option list \<Rightarrow> bool" where
  "any_present p xs =
     list_ex (\<lambda>(i, x). case x of None \<Rightarrow> False | Some y \<Rightarrow> p i y) (enumerate 0 xs)"

definition prevout_at :: "input_prevout option list \<Rightarrow> nat \<Rightarrow> input_prevout option" where
  "prevout_at ps i = Option.bind (list_get ps i) (\<lambda>p. p)"

definition p2sh_redeem_sigops_exceed ::
  "'a script_api_scheme \<Rightarrow> transaction \<Rightarrow> input_prevout option list \<Rightarrow> bool" where
  "p2sh_redeem_sigops_exceed P tx ps =
     list_ex (\<lambda>(i, inp).
       case prevout_at ps i of
         None \<Rightarrow> False
       | Some p \<Rightarrow>
           if \<not> is_p2sh_script P (ip_script p) then False
           else case last_push_payload (script_sig inp) of
             None \<Rightarrow> False
           | Some redeem \<Rightarrow> count_sigops_in_script P redeem True > MAX_STANDARD_P2SH_SIGOPS)
       (enumerate 0 (inputs tx))"

definition is_p2wsh_script :: "byte_string \<Rightarrow> bool" where
  "is_p2wsh_script script \<longleftrightarrow> length script = 34 \<and> script ! 0 = 0x00 \<and> script ! 1 = 0x20"

definition pay_to_anchor_witness_present ::
  "'a script_api_scheme \<Rightarrow> input_prevout option list \<Rightarrow> witness list option \<Rightarrow> bool" where
  "pay_to_anchor_witness_present P ps wits =
     (case wits of
        None \<Rightarrow> False
      | Some ws \<Rightarrow>
          any_present (\<lambda>i p.
            if \<not> is_pay_to_anchor P (ip_script p) then False
            else case list_get ws i of None \<Rightarrow> False | Some stack \<Rightarrow> stack \<noteq> []) ps)"

text \<open>
  The opening of the three \<^verbatim>\<open>p2wsh_*\<close> checks: the spent output is P2WSH, either directly
  or as the redeem script of a P2SH output.
\<close>

definition spends_p2wsh ::
  "'a script_api_scheme \<Rightarrow> transaction \<Rightarrow> nat \<Rightarrow> input_prevout \<Rightarrow> bool" where
  "spends_p2wsh P tx i p =
     (let script_sg = (case list_get (inputs tx) i of None \<Rightarrow> [] | Some inp \<Rightarrow> script_sig inp);
          native = is_p2wsh_script (ip_script p);
          wrapped = (is_p2sh_script P (ip_script p)
            \<and> (case last_script_push P script_sg of None \<Rightarrow> False | Some d \<Rightarrow> is_p2wsh_script d))
      in native \<or> wrapped)"

definition p2wsh_data_item_exceeds ::
  "'a script_api_scheme \<Rightarrow> transaction \<Rightarrow> input_prevout option list \<Rightarrow> witness list option \<Rightarrow> bool" where
  "p2wsh_data_item_exceeds P tx ps wits =
     (case wits of
        None \<Rightarrow> False
      | Some ws \<Rightarrow>
          any_present (\<lambda>i p.
            if \<not> spends_p2wsh P tx i p then False
            else case list_get ws i of
              None \<Rightarrow> False
            | Some stack \<Rightarrow>
                list_ex (\<lambda>item. length item > MAX_STANDARD_P2WSH_STACK_ITEM_SIZE)
                  (take (length stack - 1) stack)) ps)"

definition p2wsh_script_exceeds ::
  "'a script_api_scheme \<Rightarrow> transaction \<Rightarrow> input_prevout option list \<Rightarrow> witness list option \<Rightarrow> bool" where
  "p2wsh_script_exceeds P tx ps wits =
     (case wits of
        None \<Rightarrow> False
      | Some ws \<Rightarrow>
          any_present (\<lambda>i p.
            if \<not> spends_p2wsh P tx i p then False
            else case Option.bind (list_get ws i) list_last of
              None \<Rightarrow> False
            | Some script \<Rightarrow> length script > MAX_STANDARD_P2WSH_SCRIPT_SIZE) ps)"

definition p2wsh_stack_count_exceeds ::
  "'a script_api_scheme \<Rightarrow> transaction \<Rightarrow> input_prevout option list \<Rightarrow> witness list option \<Rightarrow> bool" where
  "p2wsh_stack_count_exceeds P tx ps wits =
     (case wits of
        None \<Rightarrow> False
      | Some ws \<Rightarrow>
          any_present (\<lambda>i p.
            if \<not> spends_p2wsh P tx i p then False
            else case list_get ws i of
              None \<Rightarrow> False
            | Some stack \<Rightarrow> length stack - 1 > MAX_STANDARD_P2WSH_STACK_ITEMS) ps)"

definition is_taproot_output :: "byte_string \<Rightarrow> bool" where
  "is_taproot_output script \<longleftrightarrow> length script = 34 \<and> script ! 0 = 0x51 \<and> script ! 1 = 0x20"

definition taproot_annex_present :: "input_prevout option list \<Rightarrow> witness list option \<Rightarrow> bool" where
  "taproot_annex_present ps wits =
     (case wits of
        None \<Rightarrow> False
      | Some ws \<Rightarrow>
          any_present (\<lambda>i p.
            if \<not> is_taproot_output (ip_script p) then False
            else case list_get ws i of
              None \<Rightarrow> False
            | Some stack \<Rightarrow>
                length stack \<ge> 2
                \<and> (case list_last stack of
                     None \<Rightarrow> False
                   | Some annex \<Rightarrow> list_get annex 0 = Some TAPROOT_ANNEX_TAG)) ps)"

definition tapscript_data_item_exceeds ::
  "input_prevout option list \<Rightarrow> witness list option \<Rightarrow> bool" where
  "tapscript_data_item_exceeds ps wits =
     (case wits of
        None \<Rightarrow> False
      | Some ws \<Rightarrow>
          any_present (\<lambda>i p.
            if \<not> is_taproot_output (ip_script p) then False
            else case list_get ws i of
              None \<Rightarrow> False
            | Some stack \<Rightarrow>
                if length stack < 2 then False
                else case list_last stack of
                  None \<Rightarrow> False
                | Some control \<Rightarrow>
                    if (case list_get control 0 of
                          None \<Rightarrow> True
                        | Some hdr \<Rightarrow> and hdr TAPROOT_LEAF_MASK \<noteq> TAPROOT_LEAF_TAPSCRIPT)
                    then False
                    else list_ex (\<lambda>item. length item > MAX_STANDARD_TAPSCRIPT_STACK_ITEM_SIZE)
                           (take (length stack - 2) stack)) ps)"


section \<open>Money\<close>

definition money_sats :: "'a tx_api_scheme \<Rightarrow> int \<Rightarrow> u64 option" where
  "money_sats P v = (if 0 \<le> v \<and> v \<le> MAX_MONEY P then Some (as_u64 v) else None)"

definition add_money :: "'a tx_api_scheme \<Rightarrow> u64 \<Rightarrow> u64 \<Rightarrow> u64 option" where
  "add_money P acc sats =
     (case checked_add acc sats of
        None \<Rightarrow> None
      | Some s \<Rightarrow> if s \<le> as_u64 (MAX_MONEY P) then Some s else None)"

fun output_sum_from :: "'a tx_api_scheme \<Rightarrow> u64 \<Rightarrow> tx_output list \<Rightarrow> u64 option" where
  "output_sum_from P acc [] = Some acc"
| "output_sum_from P acc (out # outs) =
     (case money_sats P (out_value out) of
        None \<Rightarrow> None
      | Some sats \<Rightarrow>
          (case add_money P acc sats of
             None \<Rightarrow> None
           | Some acc' \<Rightarrow> output_sum_from P acc' outs))"

definition output_sum_sats :: "'a tx_api_scheme \<Rightarrow> transaction \<Rightarrow> u64 option" where
  "output_sum_sats P tx = output_sum_from P 0 (outputs tx)"

definition accounted_tx_bytes :: "'a tx_api_scheme \<Rightarrow> transaction \<Rightarrow> witness list option \<Rightarrow> u64" where
  "accounted_tx_bytes P tx wits =
     (let n = of_nat (length (serialize_transaction P tx)) :: u64 in
      case wits of
        None \<Rightarrow> n
      | Some stacks \<Rightarrow>
          foldl (\<lambda>n stack. foldl (\<lambda>n item. saturating_add n (of_nat (length item))) n stack) n stacks)"

end
