(* ===== verification/Demo_Protocol.thy ===== *)
theory Demo_Protocol
  imports Protocol
begin

text \<open>
  One concrete instance of the functions of the other crates, so that every theorem that takes
  them as a parameter can be applied. It has the documented opcodes and money range; a
  transaction is identified by its lock time, its outputs have to be in the money range, and
  every script and witness check passes.
\<close>

definition demo :: protocol where
  "demo =
     \<lparr> OP_0 = 0, OP_1 = 0x51, OP_16 = 0x60, OP_1NEGATE = 0x4f, OP_PUSHDATA1 = 0x4c,
       OP_PUSHDATA2 = 0x4d, OP_PUSHDATA4 = 0x4e, OP_EQUAL = 0x87, OP_HASH160 = 0xa9,
       OP_CHECKMULTISIG = 0xae, PUSH_20_BYTES = 0x14, PUSH_33_BYTES = 0x21, PUSH_65_BYTES = 0x41,
       is_any_witness_program = (\<lambda>s. s \<noteq> [] \<and> hd s = 0),
       is_invalid_v0_witness_program = (\<lambda>s. False),
       is_upgradable_witness_program = (\<lambda>s. False), is_pay_to_anchor = (\<lambda>s. False),
       count_sigops_in_script = (\<lambda>s b. 0), p2sh_push_only_check = (\<lambda>s. True),
       script_flag_bits = (\<lambda>f. 0), SEGWIT_STANDARD_FLAGS = 0,
       calculate_tx_id = (\<lambda>tx. of_nat (unat (lock_time tx))),
       serialize_transaction = (\<lambda>tx. replicate (100 * length (outputs tx)) 0),
       serialize_transaction_with_witness =
         (\<lambda>tx ws. Ok (le_bytes 8 (unat (lock_time tx)))),
       deserialize_transaction_with_witness =
         (\<lambda>bs. if length bs < 8 then Err ''short''
               else Ok (\<lparr> version = 1, inputs = [], outputs = [],
                          lock_time = of_nat (from_le_bytes (take 8 bs)) \<rparr>, [[[1]]], 8)),
       wire_serialize_tx = (\<lambda>tx. Ok (le_bytes 8 (unat (lock_time tx)))),
       sha256 = (\<lambda>bs. take 32 (bs @ replicate 32 0)),
       is_coinbase = (\<lambda>tx. inputs tx = []),
       check_transaction_valid = (\<lambda>tx. list_all (\<lambda>out. 0 \<le> out_value out) (outputs tx)
         \<and> (\<Sum>out\<leftarrow>outputs tx. out_value out) \<le> 2100000000000000),
       check_coinbase_maturity = (\<lambda>h u c. True), get_median_time_past = (\<lambda>hs. 0),
       is_sequence_disabled = (\<lambda>s. True), extract_sequence_type_flag = (\<lambda>s. False),
       extract_sequence_locktime_value = (\<lambda>s. 0), version_enforces_relative_lock = (\<lambda>v. False),
       MAX_MONEY = 2100000000000000,
       is_final_tx = (\<lambda>tx h t. True),
       relative_lock_unsatisfied = (\<lambda>tx us h t ms net. Ok False),
       signals_rbf = (\<lambda>tx. True),
       has_conflict_with_tx =
         (\<lambda>tx tx'. list_ex (\<lambda>op. op \<in> set (prevouts tx')) (prevouts tx)),
       replacement_checks_with_witness = (\<lambda>tx tx' us pool ws. Ok True),
       get_transaction_sigop_cost_with_utxos = (\<lambda>tx us ws fl. Ok 0),
       get_legacy_sigop_count = (\<lambda>tx. 0),
       sigop_adjusted_vsize = (\<lambda>weight cost b. div_ceil (max weight (cost * b)) 4),
       transaction_weight_from_stacks = (\<lambda>tx ws. Ok 400),
       calculate_script_flags = (\<lambda>tx w h net. 0),
       verify_script = (\<lambda>sig pk w fl tx i vs ss. Ok True),
       is_spam = (\<lambda>cfg tx ws. False),
       outpoint_value_hash = (\<lambda>op v. ucast (op_hash op)),
       DEFAULT_BYTES_PER_SIGOP = 20, MAX_STANDARD_TX_SIGOPS_COST = 16000 \<rparr>"

lemma demo_opcodes: "bitcoin_opcodes demo"
  by (simp add: bitcoin_opcodes_def demo_def)

lemma demo_tx [simp]:
  "calculate_tx_id demo tx = of_nat (unat (lock_time tx))" "MAX_MONEY demo = 2100000000000000"
  by (simp_all add: demo_def)

lemma demo_api:
  "is_any_witness_program demo s \<longleftrightarrow> s \<noteq> [] \<and> hd s = 0" "check_coinbase_maturity demo h u c"
  "\<not> version_enforces_relative_lock demo v" "is_final_tx demo tx ht t" "is_coinbase demo tx \<longleftrightarrow> inputs tx = []"
  "verify_script demo sig pk w fl tx i vs ss = Ok True" "signals_rbf demo tx"
  "serialize_transaction demo tx = replicate (100 * length (outputs tx)) 0"
  "check_transaction_valid demo tx \<longleftrightarrow> list_all (\<lambda>out. 0 \<le> out_value out) (outputs tx)
     \<and> (\<Sum>out\<leftarrow>outputs tx. out_value out) \<le> 2100000000000000"
  "MAX_STANDARD_TX_SIGOPS_COST demo = 16000"
  by (simp_all add: demo_def)

end
