(* ===== verification/Script_Grammar.thy ===== *)
theory Script_Grammar
  imports Script_Policy Demo_Protocol
begin

text \<open>
  What the push parsers of the mempool accept, stated as a grammar. A push-only script is a
  concatenation of chunks, each the encoding of one payload; the parsers accept exactly
  those byte strings and return the payload of the last chunk. The contract of a parser is
  the locale \<open>push_parser\<close>, interpreted on the loop that keeps the last payload; the data-carrier loop is the
  same walk.
\<close>

inductive push_chunk :: "(u8 \<Rightarrow> bool) \<Rightarrow> byte_string \<Rightarrow> byte_string \<Rightarrow> bool" for bare where
  direct: "length d \<le> 0x4b \<Longrightarrow> push_chunk bare (of_nat (length d) # d) d"
| pushdata1: "length d < 2 ^ 8 \<Longrightarrow> push_chunk bare (0x4c # le_bytes 1 (length d) @ d) d"
| pushdata2: "length d < 2 ^ 16 \<Longrightarrow> push_chunk bare (0x4d # le_bytes 2 (length d) @ d) d"
| pushdata4: "length d < 2 ^ 32 \<Longrightarrow> push_chunk bare (0x4e # le_bytes 4 (length d) @ d) d"
| bare: "bare b \<Longrightarrow> push_chunk bare [b] []"

text \<open>
  Opcodes that push no bytes of the script: \<^verbatim>\<open>OP_1NEGATE\<close>, \<^verbatim>\<open>OP_1\<close> to \<^verbatim>\<open>OP_16\<close>, and in
  the wider class also \<^verbatim>\<open>OP_RESERVED\<close>.
\<close>

definition bare_number :: "u8 \<Rightarrow> bool" where
  "bare_number b \<longleftrightarrow> b = 0x4f \<or> (0x51 \<le> b \<and> b \<le> 0x60)"

definition bare_number_or_reserved :: "u8 \<Rightarrow> bool" where
  "bare_number_or_reserved b \<longleftrightarrow> 0x4f \<le> b \<and> b \<le> 0x60"

definition push_script :: "(u8 \<Rightarrow> bool) \<Rightarrow> byte_string \<Rightarrow> byte_string list \<Rightarrow> bool" where
  "push_script bare s ds \<longleftrightarrow> (\<exists>cs. list_all2 (push_chunk bare) cs ds \<and> concat cs = s)"

lemma push_script_Nil [simp]: "push_script bare s [] \<longleftrightarrow> s = []"
  by (auto simp: push_script_def)

lemma push_script_Cons:
  "push_script bare s (d # ds)
    \<longleftrightarrow> (\<exists>c s'. push_chunk bare c d \<and> s = c @ s' \<and> push_script bare s' ds)"
proof
  assume "push_script bare s (d # ds)"
  then obtain c cs where "push_chunk bare c d" "list_all2 (push_chunk bare) cs ds"
    "s = c @ concat cs" by (auto simp: push_script_def list_all2_Cons2)
  then show "\<exists>c s'. push_chunk bare c d \<and> s = c @ s' \<and> push_script bare s' ds"
    unfolding push_script_def by blast
next
  assume "\<exists>c s'. push_chunk bare c d \<and> s = c @ s' \<and> push_script bare s' ds"
  then obtain c cs where "push_chunk bare c d" "s = c @ concat cs"
    "list_all2 (push_chunk bare) cs ds" by (auto simp: push_script_def)
  then show "push_script bare s (d # ds)"
    unfolding push_script_def by (intro exI [of _ "c # cs"]) simp
qed

locale push_parser =
  fixes step :: "byte_string \<Rightarrow> nat \<Rightarrow> (nat \<times> byte_string) option"
    and loop :: "byte_string \<Rightarrow> nat \<Rightarrow> byte_string option \<Rightarrow> byte_string option"
    and bare :: "u8 \<Rightarrow> bool"
  assumes loop_unfold: "loop s i l =
      (if i < length s
       then (case step s i of None \<Rightarrow> None | Some (n, d) \<Rightarrow> loop s (i + n) (Some d)) else l)"
    and step_iff: "step (p @ b # r) (length p) = Some (n, d)
      \<longleftrightarrow> 0 < n \<and> n \<le> Suc (length r) \<and> push_chunk bare (take n (b # r)) d"
begin

lemma loop_gen:
  "loop (p @ s) (length p) l = Some d
    \<longleftrightarrow> (\<exists>ds. push_script bare s ds \<and> (if ds = [] then l = Some d else last ds = d))"
proof (induction "length s" arbitrary: p s l rule: less_induct)
  case less
  show ?case
  proof (cases s)
    case Nil
    have "push_script bare [] ds \<longleftrightarrow> ds = []" for ds
      by (cases ds) (auto simp: push_script_Cons elim: push_chunk.cases)
    with Nil show ?thesis by (subst loop_unfold) simp
  next
    case (Cons b r)
    have loop: "loop (p @ s) (length p) l = Some d
        \<longleftrightarrow> (\<exists>n d'. step (p @ b # r) (length p) = Some (n, d')
              \<and> loop (p @ s) (length p + n) (Some d') = Some d)"
      using Cons by (subst loop_unfold) (auto split: option.splits)
    have rest: "loop (p @ s) (length p + n) (Some d') = Some d
        \<longleftrightarrow> (\<exists>ds. push_script bare (drop n s) ds \<and> (if ds = [] then d' = d else last ds = d))"
      if "0 < n" "n \<le> Suc (length r)" for n d'
    proof -
      have "length (drop n s) < length s" using that Cons by simp
      from less [OF this, of "p @ take n s" "Some d'"] that Cons show ?thesis by simp
    qed
    have split: "(\<exists>n d'. 0 < n \<and> n \<le> Suc (length r) \<and> push_chunk bare (take n s) d'
          \<and> Q d' (drop n s)) \<longleftrightarrow> (\<exists>c d' s'. push_chunk bare c d' \<and> s = c @ s' \<and> Q d' s')" for Q
    proof
      assume "\<exists>c d' s'. push_chunk bare c d' \<and> s = c @ s' \<and> Q d' s'"
      then obtain c d' s' where c: "push_chunk bare c d'" "s = c @ s'" "Q d' s'" by blast
      have "0 < length c" using c(1) by cases auto
      moreover have "length c \<le> Suc (length r)" using c(2) Cons by (metis length_append length_Cons le_add1)
      ultimately show "\<exists>n d'. 0 < n \<and> n \<le> Suc (length r) \<and> push_chunk bare (take n s) d' \<and> Q d' (drop n s)"
        using c by (intro exI [of _ "length c"] exI [of _ d']) simp
    qed (metis append_take_drop_id)
    have "loop (p @ s) (length p) l = Some d
        \<longleftrightarrow> (\<exists>n d'. 0 < n \<and> n \<le> Suc (length r) \<and> push_chunk bare (take n s) d'
              \<and> (\<exists>ds. push_script bare (drop n s) ds \<and> (if ds = [] then d' = d else last ds = d)))"
      unfolding loop step_iff using rest Cons by blast
    also have "\<dots> \<longleftrightarrow> (\<exists>c d' s'. push_chunk bare c d' \<and> s = c @ s'
              \<and> (\<exists>ds. push_script bare s' ds \<and> (if ds = [] then d' = d else last ds = d)))"
      by (rule split)
    also have "\<dots> \<longleftrightarrow> (\<exists>d' ds. push_script bare s (d' # ds) \<and> last (d' # ds) = d)"
    proof -
      have "(if ds = [] then d' = d else last ds = d) \<longleftrightarrow> last (d' # ds) = d" for d' ds
        by simp
      then show ?thesis unfolding push_script_Cons by blast
    qed
    also have "\<dots> \<longleftrightarrow> (\<exists>ds. push_script bare s ds \<and> (if ds = [] then l = Some d else last ds = d))"
      using Cons by (metis list.distinct(1) neq_Nil_conv push_script_Nil)
    finally show ?thesis .
  qed
qed

theorem parses:
  "loop s 0 None = Some d \<longleftrightarrow> (\<exists>ds. push_script bare s ds \<and> ds \<noteq> [] \<and> last ds = d)"
  using loop_gen [of "[]" s None d] by (auto split: if_splits)

theorem accepts:
  "loop (p @ s) (length p) (Some d) \<noteq> None \<longleftrightarrow> (\<exists>ds. push_script bare s ds)"
proof
  assume "loop (p @ s) (length p) (Some d) \<noteq> None"
  then obtain d' where "loop (p @ s) (length p) (Some d) = Some d'" by blast
  then show "\<exists>ds. push_script bare s ds" unfolding loop_gen by blast
next
  assume "\<exists>ds. push_script bare s ds"
  then obtain ds where "push_script bare s ds" by blast
  then have "loop (p @ s) (length p) (Some d) = Some (if ds = [] then d else last ds)"
    unfolding loop_gen by (intro exI [of _ ds]) simp
  then show "loop (p @ s) (length p) (Some d) \<noteq> None" by simp
qed

end



section \<open>One push\<close>

lemma nth_at [simp]: "(p @ b # r) ! (length p + Suc k) = r ! k"
  by (simp add: nth_append)

lemma nth_at_0 [simp]: "(p @ b # r) ! length p = b"
  by simp

lemma slice_at: "slice (p @ b # r) (length p + Suc k) (length p + Suc k + len) = take len (drop k r)"
  by (simp add: slice_def)

lemma slice_get_at:
  "slice_get (p @ b # r) (length p + 1) (length p + Suc k)
    = (if k \<le> length r then Some (take k r) else None)"
  by (simp add: slice_get_def slice_def)

lemma list_get_at: "list_get (p @ b # r) (length p + Suc k) = list_get r k"
  by (simp add: list_get_def nth_append)

inductive_simps push_chunk_Cons: "push_chunk bare (b # c) d"

lemma direct_byte:
  assumes "n \<le> 0x4b" and "b = (of_nat n :: u8)"
  shows "unat b = n" and "b \<le> 0x4b"
proof -
  show n: "unat b = n" using assms by (simp add: unat_of_nat)
  show "b \<le> 0x4b" using assms(1) n by (simp add: word_le_nat_alt)
qed

text \<open>A length header of \<open>j\<close> bytes followed by that many bytes.\<close>

lemma header_iff:
  "(k \<le> length r \<and> take k r = le_bytes j (length d) @ d \<and> length d < 256 ^ j)
   \<longleftrightarrow> (j \<le> length r \<and> j + from_le_bytes (take j r) \<le> length r
      \<and> k = j + from_le_bytes (take j r) \<and> d = take (from_le_bytes (take j r)) (drop j r))"
  (is "?L \<longleftrightarrow> ?R")
proof
  assume L: ?L
  then have k: "k = j + length d"
    by (metis length_append length_le_bytes length_take min.absorb2)
  have "take j r = take j (take k r)" by (simp add: k)
  also have "\<dots> = le_bytes j (length d)" using L by simp
  finally have t: "take j r = le_bytes j (length d)" .
  then have len: "from_le_bytes (take j r) = length d" using L by simp
  have "take (length d) (drop j r) = drop j (take k r)" by (simp add: k take_drop add.commute)
  also have "\<dots> = d" using L by simp
  finally show ?R using L k len by simp
next
  assume R: ?R
  let ?n = "from_le_bytes (take j r)"
  from R have d: "length d = ?n" by (auto simp: min_def)
  have "le_bytes j ?n = take j r"
    using le_bytes_from_le_bytes [of "take j r"] R by simp
  moreover have "?n < 256 ^ j" using from_le_bytes_bound [of "take j r"] R by simp
  ultimately show ?L using R d by (simp add: take_add)
qed

lemma take_1: "r \<noteq> [] \<Longrightarrow> take (Suc 0) r = [r ! 0]"
  by (cases r) auto

lemma take_2: "1 < length r \<Longrightarrow> take 2 r = [r ! 0, r ! 1]"
  by (cases r; cases "tl r") (auto simp: numeral_2_eq_2)

lemma take_4: "3 < length r \<Longrightarrow> take 4 r = [r ! 0, r ! 1, r ! 2, r ! 3]"
  by (cases r; cases "tl r"; cases "tl (tl r)"; cases "tl (tl (tl r))") auto

lemma chunk_at_direct:
  assumes "b \<le> 0x4b" and "\<not> bare b"
  shows "0 < n \<and> n \<le> Suc (length r) \<and> push_chunk bare (take n (b # r)) d
    \<longleftrightarrow> unat b \<le> length r \<and> n = 1 + unat b \<and> d = take (unat b) r"
proof (cases n)
  case (Suc k)
  have ne: "b \<noteq> 0x4c" "b \<noteq> 0x4d" "b \<noteq> 0x4e" using assms(1) by auto
  have small: "unat b \<le> 0x4b" using assms(1) by (simp add: word_le_nat_alt)
  have "push_chunk bare (b # take k r) d \<longleftrightarrow> b = of_nat (length d) \<and> take k r = d \<and> length d \<le> 0x4b"
    using ne assms(2) by (auto simp: push_chunk_Cons)
  also have "k \<le> length r \<and> \<dots> \<longleftrightarrow> unat b \<le> length r \<and> k = unat b \<and> d = take (unat b) r"
    using small direct_byte(1) [of "length d" b] by auto
  finally show ?thesis using Suc by auto
qed simp

lemma chunk_at_pushdata:
  assumes "(b, j) \<in> {(0x4c, 1), (0x4d, 2), (0x4e, 4)}" and "\<not> bare b"
  shows "0 < n \<and> n \<le> Suc (length r) \<and> push_chunk bare (take n (b # r)) d
    \<longleftrightarrow> j \<le> length r \<and> j + from_le_bytes (take j r) \<le> length r
      \<and> n = 1 + j + from_le_bytes (take j r) \<and> d = take (from_le_bytes (take j r)) (drop j r)"
proof (cases n)
  case (Suc k)
  have "\<not> (b = of_nat (length d) \<and> length d \<le> 0x4b)"
    using assms(1) direct_byte(2) [of "length d" b] by auto
  then have "push_chunk bare (b # take k r) d
      \<longleftrightarrow> take k r = le_bytes j (length d) @ d \<and> length d < 256 ^ j"
    using assms by (auto simp: push_chunk_Cons)
  then have "k \<le> length r \<and> push_chunk bare (b # take k r) d
      \<longleftrightarrow> j \<le> length r \<and> j + from_le_bytes (take j r) \<le> length r
        \<and> k = j + from_le_bytes (take j r) \<and> d = take (from_le_bytes (take j r)) (drop j r)"
    using header_iff [of k r j d] by blast
  then show ?thesis using Suc by auto
qed simp

lemma chunk_at_bare:
  assumes "0x4f \<le> b"
  shows "0 < n \<and> n \<le> Suc (length r) \<and> push_chunk bare (take n (b # r)) d
    \<longleftrightarrow> bare b \<and> n = 1 \<and> d = []"
proof (cases n)
  case (Suc k)
  have ne: "b \<noteq> 0x4c" "b \<noteq> 0x4d" "b \<noteq> 0x4e" using assms by auto
  have "\<not> b \<le> 0x4b" using assms by (simp add: word_le_nat_alt)
  then have "\<not> (b = of_nat (length d) \<and> length d \<le> 0x4b)"
    using direct_byte(2) [of "length d" b] by blast
  with ne have "push_chunk bare (b # take k r) d \<longleftrightarrow> bare b \<and> take k r = [] \<and> d = []"
    by (auto simp: push_chunk_Cons)
  with Suc show ?thesis by auto
qed simp

lemma byte_cases [case_names direct pushdata1 pushdata2 pushdata4 bare]:
  fixes b :: u8
  obtains "b \<le> 0x4b" | "b = 0x4c" | "b = 0x4d" | "b = 0x4e" | "0x4f \<le> b"
proof -
  have "unat b \<le> 0x4b \<or> unat b = 0x4c \<or> unat b = 0x4d \<or> unat b = 0x4e \<or> 0x4f \<le> unat b"
    by linarith
  then show thesis
    using that by (auto simp: word_le_nat_alt word_unat_eq_iff)
qed



section \<open>The parsers of the source\<close>

text \<open>The body of the loop of \<^verbatim>\<open>last_push_payload\<close> and of \<^verbatim>\<open>op_return_payload_is_push_only\<close>.\<close>

definition push_step :: "byte_string \<Rightarrow> nat \<Rightarrow> (nat \<times> byte_string) option" where
  "push_step s i =
     (let b = s ! i in
      if b > 0x60 then None
      else if b \<le> 0x4b then
        (if i + 1 + unat b > length s then None
         else Some (1 + unat b, slice s (i + 1) (i + 1 + unat b)))
      else case pushdata_header s i of
        None \<Rightarrow> Some (1, [])
      | Some (h, None) \<Rightarrow> None
      | Some (h, Some len) \<Rightarrow>
          if i + h + len > length s then None else Some (h + len, slice s (i + h) (i + h + len)))"

lemma last_push_loop_step:
  "last_push_loop s i l =
     (if i < length s
      then (case push_step s i of None \<Rightarrow> None | Some (n, d) \<Rightarrow> last_push_loop s (i + n) (Some d))
      else l)"
  by (subst last_push_loop.simps)
    (auto simp: push_step_def Let_def add.assoc split: option.splits)

lemma bare_disjoint:
  "b \<le> 0x4b \<Longrightarrow> \<not> bare_number_or_reserved b"
  "b \<in> {0x4c, 0x4d, 0x4e} \<Longrightarrow> \<not> bare_number_or_reserved b"
  "b \<le> 0x4b \<Longrightarrow> \<not> bare_number b"
  "b \<in> {0x4c, 0x4d, 0x4e} \<Longrightarrow> \<not> bare_number b"
  by (auto simp: bare_number_or_reserved_def bare_number_def word_le_nat_alt)

lemma pushdata_header_at:
  "b = 0x4c \<Longrightarrow> pushdata_header (p @ b # r) (length p) =
     Some (2, if 1 \<le> length r then Some (from_le_bytes (take 1 r)) else None)"
  "b = 0x4d \<Longrightarrow> pushdata_header (p @ b # r) (length p) =
     Some (3, if 2 \<le> length r then Some (from_le_bytes (take 2 r)) else None)"
  "b = 0x4e \<Longrightarrow> pushdata_header (p @ b # r) (length p) =
     Some (5, if 4 \<le> length r then Some (from_le_bytes (take 4 r)) else None)"
  using slice_get_at [of p b r 2] slice_get_at [of p b r 4] list_get_at [of p b r 0]
  by (cases r; auto simp: pushdata_header_def list_get_def)+

lemma push_step_pushdata:
  assumes "(b, j) \<in> {(0x4c, 1), (0x4d, 2), (0x4e, 4)}"
  shows "push_step (p @ b # r) (length p) = Some (n, d)
    \<longleftrightarrow> j \<le> length r \<and> j + from_le_bytes (take j r) \<le> length r
      \<and> n = 1 + j + from_le_bytes (take j r) \<and> d = take (from_le_bytes (take j r)) (drop j r)"
proof -
  have h: "pushdata_header (p @ b # r) (length p)
      = Some (Suc j, if j \<le> length r then Some (from_le_bytes (take j r)) else None)"
    using assms pushdata_header_at [of b p r] by auto
  have "\<not> b > 0x60" "\<not> b \<le> 0x4b" using assms by auto
  with h show ?thesis
    using slice_at [of p b r j "from_le_bytes (take j r)"] by (auto simp: push_step_def Let_def)
qed

lemma push_step_iff:
  "push_step (p @ b # r) (length p) = Some (n, d)
    \<longleftrightarrow> 0 < n \<and> n \<le> Suc (length r) \<and> push_chunk bare_number_or_reserved (take n (b # r)) d"
proof (cases b rule: byte_cases)
  case direct
  then have "\<not> b > 0x60" by (simp add: word_le_nat_alt word_less_nat_alt)
  with direct show ?thesis
    using chunk_at_direct [of b bare_number_or_reserved n r d] bare_disjoint(1) [of b]
      slice_at [of p b r 0 "unat b"]
    by (auto simp: push_step_def Let_def)
next
  case pushdata1
  then show ?thesis
    using push_step_pushdata [of b 1 p r n d] bare_disjoint(2) [of b]
      chunk_at_pushdata [of b 1 bare_number_or_reserved n r d] by simp
next
  case pushdata2
  then show ?thesis
    using push_step_pushdata [of b 2 p r n d] bare_disjoint(2) [of b]
      chunk_at_pushdata [of b 2 bare_number_or_reserved n r d] by simp
next
  case pushdata4
  then show ?thesis
    using push_step_pushdata [of b 4 p r n d] bare_disjoint(2) [of b]
      chunk_at_pushdata [of b 4 bare_number_or_reserved n r d] by simp
next
  case bare
  then have "b \<noteq> 0x4c" "b \<noteq> 0x4d" "b \<noteq> 0x4e" "\<not> b \<le> 0x4b"
    by (auto simp: word_le_nat_alt)
  then have "push_step (p @ b # r) (length p) = (if b > 0x60 then None else Some (1, []))"
    by (simp add: push_step_def pushdata_header_def)
  with bare show ?thesis
    by (subst chunk_at_bare) (auto simp: bare_number_or_reserved_def)
qed

interpretation payload: push_parser push_step last_push_loop bare_number_or_reserved
  by unfold_locales (rule last_push_loop_step, rule push_step_iff)

text \<open>The check of a data carrier is the same walk, without the payloads.\<close>

lemma op_return_loop_step:
  "op_return_loop s i =
     (if i < length s
      then (case push_step s i of None \<Rightarrow> False | Some (n, d) \<Rightarrow> op_return_loop s (i + n))
      else True)"
  by (subst op_return_loop.simps)
    (auto simp: push_step_def Let_def add.assoc split: option.splits)

lemma push_step_advances: "push_step s i = Some (n, d) \<Longrightarrow> 0 < n"
  by (auto simp: push_step_def Let_def dest: pushdata_header_pos split: if_splits option.splits)

lemma op_return_loop_eq: "op_return_loop s i \<longleftrightarrow> last_push_loop s i (Some d) \<noteq> None"
proof (induction "length s - i" arbitrary: i d rule: less_induct)
  case less
  show ?case
  proof (cases "i < length s")
    case True
    then have "op_return_loop s (i + n) \<longleftrightarrow> last_push_loop s (i + n) (Some d') \<noteq> None"
      if "push_step s i = Some (n, d')" for n d'
      using less [of "i + n" d'] push_step_advances [OF that] by simp
    with True show ?thesis
      by (subst op_return_loop_step, subst last_push_loop_step) (auto split: option.splits)
  next
    case False
    then show ?thesis by (subst op_return_loop_step, subst last_push_loop_step) simp
  qed
qed

lemma script_push_at_eq_header:
  assumes "bitcoin_opcodes P" and "s ! i = b" and "(b, j) \<in> {(0x4c, 1), (0x4d, 2), (0x4e, 4)}"
  shows "script_push_at P s i =
    (if i + j \<ge> length s then None
     else let len = from_le_bytes (map (\<lambda>k. s ! (i + 1 + k)) [0..<j]) in
       if i + 1 + j + len > length s then None
       else Some (1 + j + len, slice s (i + 1 + j) (i + 1 + j + len)))"
proof -
  have ops: "OP_0 P = 0" "OP_PUSHDATA1 P = 0x4c" "OP_PUSHDATA2 P = 0x4d" "OP_PUSHDATA4 P = 0x4e"
    using assms(1) by (simp_all add: bitcoin_opcodes_def)
  from assms(3) consider "b = 0x4c" "j = 1" | "b = 0x4d" "j = 2" | "b = 0x4e" "j = 4" by auto
  moreover have upts: "[0..<1] = [0::nat]" "[0..<2] = [0::nat, 1]" "[0..<4] = [0::nat, 1, 2, 3]"
    by (simp_all add: upt_rec)
  moreover have sums: "i + 1 + 0 = i + 1" "i + 1 + 1 = i + 2" "i + 1 + 2 = i + 3" "i + 1 + 3 = i + 4"
    "i + 1 + 4 = i + 5" "(1::nat) + 1 = 2" "(1::nat) + 2 = 3" "(1::nat) + 4 = 5" by simp_all
  ultimately show ?thesis
    by cases (simp_all only: script_push_at_def assms(2) ops Let_def upts sums list.map, simp_all)
qed

lemma map_nth_upt: "j \<le> length r \<Longrightarrow> map (\<lambda>k. r ! k) [0..<j] = take j r"
  by (rule nth_equalityI) simp_all

lemma script_push_at_pushdata:
  assumes "bitcoin_opcodes P" and "(b, j) \<in> {(0x4c, 1), (0x4d, 2), (0x4e, 4)}"
  shows "script_push_at P (p @ b # r) (length p) = Some (n, d)
    \<longleftrightarrow> j \<le> length r \<and> j + from_le_bytes (take j r) \<le> length r
      \<and> n = 1 + j + from_le_bytes (take j r) \<and> d = take (from_le_bytes (take j r)) (drop j r)"
proof -
  have "map (\<lambda>k. (p @ b # r) ! (length p + 1 + k)) [0..<j] = take j r" if "j \<le> length r"
    using map_nth_upt [OF that] by (simp add: nth_append)
  then show ?thesis
    using slice_at [of p b r j "from_le_bytes (take j r)"]
    by (subst script_push_at_eq_header [OF assms(1) nth_at_0 assms(2)]) (auto simp: Let_def)
qed

lemma script_push_at_iff:
  assumes P: "bitcoin_opcodes P"
  shows "script_push_at P (p @ b # r) (length p) = Some (n, d)
    \<longleftrightarrow> 0 < n \<and> n \<le> Suc (length r) \<and> push_chunk bare_number (take n (b # r)) d"
proof (cases b rule: byte_cases)
  case direct
  have "script_push_at P (p @ b # r) (length p) =
      (if unat b > length r then None else Some (1 + unat b, take (unat b) r))"
  proof (cases "b = 0")
    case True
    then show ?thesis using P by (simp add: script_push_at_def bitcoin_opcodes_def)
  next
    case False
    have "b < 0x4c" using direct by (simp add: word_le_nat_alt word_less_nat_alt)
    with False show ?thesis
      using P slice_at [of p b r 0 "unat b"]
      by (auto simp: script_push_at_def bitcoin_opcodes_def Let_def word_neq_0_conv)
  qed
  with direct show ?thesis
    using chunk_at_direct [of b bare_number n r d] bare_disjoint(3) [of b] by auto
next
  case pushdata1
  then show ?thesis
    using script_push_at_pushdata [OF P, of b 1 p r n d] bare_disjoint(4) [of b]
      chunk_at_pushdata [of b 1 bare_number n r d] by simp
next
  case pushdata2
  then show ?thesis
    using script_push_at_pushdata [OF P, of b 2 p r n d] bare_disjoint(4) [of b]
      chunk_at_pushdata [of b 2 bare_number n r d] by simp
next
  case pushdata4
  then show ?thesis
    using script_push_at_pushdata [OF P, of b 4 p r n d] bare_disjoint(4) [of b]
      chunk_at_pushdata [of b 4 bare_number n r d] by simp
next
  case bare
  then have ne: "b \<noteq> 0" "b \<noteq> 0x4c" "b \<noteq> 0x4d" "b \<noteq> 0x4e" "\<not> b < 0x4c"
    by (auto simp: word_le_nat_alt word_less_nat_alt)
  then have "script_push_at P (p @ b # r) (length p) = (if bare_number b then Some (1, []) else None)"
    using P by (simp add: script_push_at_def bitcoin_opcodes_def bare_number_def)
  with bare show ?thesis by (subst chunk_at_bare) auto
qed

lemma script_push_parser:
  "bitcoin_opcodes P \<Longrightarrow> push_parser (script_push_at P) (last_script_push_loop P) bare_number"
  by unfold_locales (rule last_script_push_loop.simps, rule script_push_at_iff)



section \<open>Bare multisignature scripts\<close>

definition multisig_key :: "byte_string \<Rightarrow> bool" where
  "multisig_key k \<longleftrightarrow>
     length k = 33 \<and> (k ! 0 = 0x02 \<or> k ! 0 = 0x03) \<or> length k = 65 \<and> k ! 0 = 0x04"

definition key_push :: "byte_string \<Rightarrow> byte_string" where
  "key_push k = of_nat (length k) # k"

definition multisig_script :: "nat \<Rightarrow> byte_string list \<Rightarrow> byte_string" where
  "multisig_script m ks =
     of_nat (0x50 + m) # concat (map key_push ks) @ [of_nat (0x50 + length ks), 0xae]"

lemma multisig_keys_Suc:
  assumes "bitcoin_opcodes P" "i < length s - 2" "s ! i = b" "list_get s (Suc i) = Some h"
  shows "multisig_keys P s (Suc n) i =
    (if (b = 0x21 \<and> (h = 0x02 \<or> h = 0x03) \<or> b = 0x41 \<and> h = 0x04) \<and> i + 1 + unat b \<le> length s - 2
     then multisig_keys P s n (i + 1 + unat b) else None)"
proof -
  have ops: "PUSH_33_BYTES P = 0x21" "PUSH_65_BYTES P = 0x41"
    using assms(1) by (simp_all add: bitcoin_opcodes_def)
  consider "b = 0x21" | "b = 0x41" | "b \<noteq> 0x21" "b \<noteq> 0x41" by blast
  then show ?thesis
    using assms(2-4) by cases (auto simp: ops Let_def list_get_def)
qed

lemma key_push_prefix_iff:
  "(\<exists>k r'. multisig_key k \<and> b # r = key_push k @ r')
    \<longleftrightarrow> (b = 0x21 \<and> 33 \<le> length r \<and> (r ! 0 = 0x02 \<or> r ! 0 = 0x03)
        \<or> b = 0x41 \<and> 65 \<le> length r \<and> r ! 0 = 0x04)" (is "?E \<longleftrightarrow> ?C")
proof
  assume ?E
  then show ?C by (auto simp: multisig_key_def key_push_def nth_append)
next
  assume C: ?C
  then have "unat b = 33 \<or> unat b = 65" by auto
  with C have "multisig_key (take (unat b) r) \<and> b # r = key_push (take (unat b) r) @ drop (unat b) r"
    by (auto simp: multisig_key_def key_push_def)
  then show ?E by blast
qed

lemma multisig_key_step:
  assumes "bitcoin_opcodes P"
  shows "multisig_keys P (p @ (b # r) @ [x, y]) (Suc n) (length p) =
    (if \<exists>k r'. multisig_key k \<and> b # r = key_push k @ r'
     then multisig_keys P (p @ (b # r) @ [x, y]) n (length p + 1 + unat b) else None)"
proof -
  let ?s = "p @ (b # r) @ [x, y]"
  have "multisig_keys P ?s (Suc n) (length p) =
    (if (b = 0x21 \<and> ((r @ [x, y]) ! 0 = 0x02 \<or> (r @ [x, y]) ! 0 = 0x03)
         \<or> b = 0x41 \<and> (r @ [x, y]) ! 0 = 0x04) \<and> length p + 1 + unat b \<le> length ?s - 2
     then multisig_keys P ?s n (length p + 1 + unat b) else None)"
    by (rule multisig_keys_Suc [OF assms]) (simp_all add: list_get_def nth_append)
  also have "((b = 0x21 \<and> ((r @ [x, y]) ! 0 = 0x02 \<or> (r @ [x, y]) ! 0 = 0x03)
         \<or> b = 0x41 \<and> (r @ [x, y]) ! 0 = 0x04) \<and> length p + 1 + unat b \<le> length ?s - 2)
      \<longleftrightarrow> (\<exists>k r'. multisig_key k \<and> b # r = key_push k @ r')"
    unfolding key_push_prefix_iff by (cases r) auto
  finally show ?thesis .
qed

lemma multisig_keys_ge: "multisig_keys P s n i = Some e \<Longrightarrow> i \<le> e"
  by (induction P s n i rule: multisig_keys.induct)
    (force split: if_splits option.splits simp: Let_def)+

definition keys_prefix :: "nat \<Rightarrow> byte_string \<Rightarrow> nat \<Rightarrow> bool" where
  "keys_prefix n q e \<longleftrightarrow> (\<exists>ks q'. length ks = n \<and> list_all multisig_key ks
     \<and> q = concat (map key_push ks) @ q' \<and> e = length (concat (map key_push ks)))"

lemma keys_prefix_0 [simp]: "keys_prefix 0 q e \<longleftrightarrow> e = 0"
  by (simp add: keys_prefix_def)

lemma key_push_inject:
  assumes "multisig_key k" "multisig_key k'" "key_push k @ r = key_push k' @ r'"
  shows "k = k' \<and> r = r'"
proof -
  have "(of_nat (length k) :: u8) = of_nat (length k')"
    using assms(3) by (simp add: key_push_def)
  then have "length k = length k'"
    using assms(1,2) by (auto simp: multisig_key_def)
  with assms(3) show ?thesis by (simp add: key_push_def)
qed

lemma keys_prefix_Suc:
  "keys_prefix (Suc n) q e \<longleftrightarrow>
     (\<exists>k r e'. multisig_key k \<and> q = key_push k @ r \<and> keys_prefix n r e' \<and> e = length (key_push k) + e')"
    (is "?L \<longleftrightarrow> ?R")
proof
  assume ?L
  then obtain ks q' where ks: "length ks = Suc n" "list_all multisig_key ks"
    "q = concat (map key_push ks) @ q'" "e = length (concat (map key_push ks))"
    unfolding keys_prefix_def by blast
  then obtain k ks' where "ks = k # ks'" by (cases ks) simp_all
  with ks have "multisig_key k" "q = key_push k @ (concat (map key_push ks') @ q')"
    "keys_prefix n (concat (map key_push ks') @ q') (length (concat (map key_push ks')))"
    "e = length (key_push k) + length (concat (map key_push ks'))"
    unfolding keys_prefix_def by auto
  then show ?R by blast
next
  assume ?R
  then obtain k r ks q' where "multisig_key k" "q = key_push k @ r" "length ks = n"
    "list_all multisig_key ks" "r = concat (map key_push ks) @ q'"
    "e = length (key_push k) + length (concat (map key_push ks))"
    unfolding keys_prefix_def by blast
  then show ?L unfolding keys_prefix_def
    by (intro exI [of _ "k # ks"] exI [of _ q']) simp
qed

lemma multisig_keys_iff:
  assumes "bitcoin_opcodes P"
  shows "multisig_keys P (p @ q @ [x, y]) n (length p) = Some (length p + e) \<longleftrightarrow> keys_prefix n q e"
proof (induction n arbitrary: p q e)
  case 0
  then show ?case by auto
next
  case (Suc n)
  show ?case
  proof (cases "\<exists>k r. multisig_key k \<and> q = key_push k @ r")
    case True
    then obtain k r where k: "multisig_key k" and q: "q = key_push k @ r" by blast
    have uk: "unat (of_nat (length k) :: u8) = length k" using k by (auto simp: multisig_key_def)
    have "multisig_keys P (p @ q @ [x, y]) (Suc n) (length p)
        = multisig_keys P ((p @ key_push k) @ r @ [x, y]) n (length (p @ key_push k))"
      using multisig_key_step [OF assms, of p "of_nat (length k)" "k @ r" x y n] True q uk
      by (simp add: key_push_def del: multisig_keys.simps)
    moreover have "(\<exists>e'. e = length (key_push k) + e' \<and> keys_prefix n r e') \<longleftrightarrow> keys_prefix (Suc n) q e"
      unfolding keys_prefix_Suc using k q key_push_inject by blast
    moreover have "multisig_keys P ((p @ key_push k) @ r @ [x, y]) n (length (p @ key_push k))
        = Some (length p + e) \<longleftrightarrow> (\<exists>e'. e = length (key_push k) + e' \<and> keys_prefix n r e')"
      (is "?M = _ \<longleftrightarrow> ?R")
    proof
      assume M: "?M = Some (length p + e)"
      then have "length (p @ key_push k) \<le> length p + e" by (rule multisig_keys_ge)
      then have "e = length (key_push k) + (e - length (key_push k))" by simp
      with M Suc.IH [of "p @ key_push k" r "e - length (key_push k)"] show ?R
        by (intro exI [of _ "e - length (key_push k)"]) (simp add: add.assoc)
    next
      assume ?R
      then obtain e' where "e = length (key_push k) + e'" "keys_prefix n r e'" by blast
      with Suc.IH [of "p @ key_push k" r e'] show "?M = Some (length p + e)"
        by (simp add: add.assoc)
    qed
    ultimately show ?thesis by simp
  next
    case False
    have "multisig_keys P (p @ q @ [x, y]) (Suc n) (length p) = None"
    proof (cases q)
      case Nil
      then show ?thesis by simp
    next
      case (Cons b r)
      then show ?thesis
        using multisig_key_step [OF assms, of p b r x y n] False
        by (simp only: if_False)
    qed
    with False show ?thesis by (auto simp: keys_prefix_Suc simp del: multisig_keys.simps)
  qed
qed

lemma keys_prefix_all:
  "keys_prefix n q (length q) \<longleftrightarrow>
     (\<exists>ks. length ks = n \<and> list_all multisig_key ks \<and> q = concat (map key_push ks))"
  by (auto simp: keys_prefix_def)

lemma split_ends:
  assumes "4 \<le> length s"
  obtains a q x y where "s = a # q @ [x, y]"
proof -
  have "s = hd s # tl s" using assms by (cases s) auto
  moreover have "tl s = butlast (butlast (tl s)) @ [last (butlast (tl s)), last (tl s)]"
    using assms by (cases s; cases "tl s" rule: rev_cases; cases "butlast (tl s)" rule: rev_cases)
      (auto simp: butlast_append)
  ultimately show thesis using that by metis
qed

lemma bare_multisig_within_ends:
  assumes P: "bitcoin_opcodes P" and k: "1 \<le> unat max_keys" "unat max_keys \<le> 16" and q: "q \<noteq> []"
  shows "bare_multisig_within P (a # q @ [x, y]) max_keys \<longleftrightarrow>
    (\<exists>m n. a = of_nat (0x50 + m) \<and> x = of_nat (0x50 + n) \<and> y = 0xae \<and> 1 \<le> m \<and> m \<le> n
       \<and> n \<le> unat max_keys \<and> keys_prefix n q (length q))"
proof -
  let ?s = "a # q @ [x, y]"
  have ops: "OP_1 P = 0x51" "OP_16 P = 0x60" "OP_CHECKMULTISIG P = 0xae"
    using P by (simp_all add: bitcoin_opcodes_def)
  have at: "\<not> length ?s < 4" "?s ! (length ?s - 1) = y" "?s ! (length ?s - 2) = x" "?s ! 0 = a"
    "length ?s - 2 = 1 + length q"
    using q by (cases q; simp add: nth_append)+
  have top: "unat (0x51 + saturating_sub max_keys 1 :: u8) = 0x50 + unat max_keys"
    using k by (simp add: unat_word_ariths unat_saturating_sub)
  have keys: "multisig_keys P ?s n 1 = Some (1 + length q) \<longleftrightarrow> keys_prefix n q (length q)" for n
    using multisig_keys_iff [OF P, of "[a]" q x y n "length q"] by simp
  have rng: "(b < 0x51 \<or> b > 0x51 + saturating_sub max_keys 1) \<longleftrightarrow>
      \<not> (0x50 < unat b \<and> unat b \<le> 0x50 + unat max_keys)" for b :: u8
    by (auto simp: word_less_nat_alt top)
  have diff: "unat (b - 0x51 + 1) = unat b - 0x50" if "0x50 < unat b" for b :: u8
  proof -
    have "b - 0x51 + 1 = b - 0x50" by simp
    moreover have "0x50 \<le> b" using that by (simp add: word_le_nat_alt)
    ultimately show ?thesis by (simp add: unat_sub)
  qed
  have a_rng: "0x51 \<le> a \<and> a \<le> 0x60 \<longleftrightarrow> 0x50 < unat a \<and> unat a \<le> 0x60"
    by (auto simp: word_le_nat_alt)
  have byte: "b = of_nat (0x50 + j) \<longleftrightarrow> unat b = 0x50 + j" if "j \<le> 16" for b :: u8 and j
  proof -
    have "unat (of_nat (0x50 + j) :: u8) = 0x50 + j"
      using that by (simp add: unat_of_nat del: of_nat_add)
    then show ?thesis by (metis word_unat_eq_iff)
  qed
  have "bare_multisig_within P ?s max_keys \<longleftrightarrow>
      y = 0xae \<and> 0x50 < unat x \<and> unat x \<le> 0x50 + unat max_keys \<and> 0x50 < unat a \<and> unat a \<le> 0x60
      \<and> unat a \<le> unat x \<and> keys_prefix (unat x - 0x50) q (length q)"
    unfolding bare_multisig_within_def Let_def at ops rng
    using keys diff [of x] diff [of a] a_rng q by auto
  also have "\<dots> \<longleftrightarrow> (\<exists>m n. unat a = 0x50 + m \<and> unat x = 0x50 + n \<and> y = 0xae \<and> 1 \<le> m \<and> m \<le> n
       \<and> n \<le> unat max_keys \<and> keys_prefix n q (length q))" (is "?A \<longleftrightarrow> ?B")
  proof
    assume ?A
    then show ?B by (intro exI [of _ "unat a - 0x50"] exI [of _ "unat x - 0x50"]) auto
  next
    assume ?B
    then show ?A using k by auto
  qed
  also have "\<dots> \<longleftrightarrow> (\<exists>m n. a = of_nat (0x50 + m) \<and> x = of_nat (0x50 + n) \<and> y = 0xae \<and> 1 \<le> m \<and> m \<le> n
       \<and> n \<le> unat max_keys \<and> keys_prefix n q (length q))"
  proof -
    have "(unat a = 0x50 + m \<and> unat x = 0x50 + n \<and> y = 0xae \<and> 1 \<le> m \<and> m \<le> n \<and> n \<le> unat max_keys
          \<and> keys_prefix n q (length q)) \<longleftrightarrow>
        (a = of_nat (0x50 + m) \<and> x = of_nat (0x50 + n) \<and> y = 0xae \<and> 1 \<le> m \<and> m \<le> n
          \<and> n \<le> unat max_keys \<and> keys_prefix n q (length q))" for m n
      using byte [of m a] byte [of n x] k by (metis order_trans)
    then show ?thesis by presburger
  qed
  finally show ?thesis .
qed

lemma multisig_script_snoc:
  "multisig_script m ks = of_nat (0x50 + m) # concat (map key_push ks) @ [of_nat (0x50 + length ks), 0xae]"
  by (simp add: multisig_script_def)

lemma concat_key_push_Nil: "concat (map key_push ks) = [] \<longleftrightarrow> ks = []"
  by (cases ks) (simp_all add: key_push_def)


section \<open>What the parsers accept\<close>

text \<open>
  A bare multisignature output is recognised exactly when it is
  \<^verbatim>\<open>OP_m <key>...<key> OP_n OP_CHECKMULTISIG\<close> with between one and \<open>max_keys\<close> keys, each a
  well-formed compressed or uncompressed public key, and \<open>1 \<le> m \<le> n\<close>: the scan accepts no
  other byte string and rejects none of these.
\<close>

lemma bare_multisig_grammar:
  assumes "bitcoin_opcodes P" and "1 \<le> unat max_keys" "unat max_keys \<le> 16"
  shows "bare_multisig_within P script max_keys \<longleftrightarrow>
    (\<exists>m ks. 1 \<le> m \<and> m \<le> length ks \<and> length ks \<le> unat max_keys \<and> list_all multisig_key ks
       \<and> script = multisig_script m ks)" (is "?L \<longleftrightarrow> ?R")
proof
  assume L: ?L
  then have "4 \<le> length script" by (auto simp: bare_multisig_within_def split: if_splits)
  then obtain a q x y where s: "script = a # q @ [x, y]" by (rule split_ends)
  with \<open>4 \<le> length script\<close> have "q \<noteq> []" by auto
  with L show ?R
    unfolding s bare_multisig_within_ends [OF assms \<open>q \<noteq> []\<close>] keys_prefix_all multisig_script_def
    by auto
next
  assume ?R
  then obtain m ks where ks: "1 \<le> m" "m \<le> length ks" "length ks \<le> unat max_keys"
    "list_all multisig_key ks" "script = multisig_script m ks" by blast
  then have "concat (map key_push ks) \<noteq> []" by (auto simp: concat_key_push_Nil simp del: concat_eq_Nil_conv)
  from bare_multisig_within_ends [OF assms this] ks show ?L
    unfolding multisig_script_def keys_prefix_all by blast
qed

lemma bare_multisig_grammar_witness:
  "bare_multisig_within demo (multisig_script 1 [0x02 # replicate 32 7, 0x04 # replicate 64 9]) 3"
proof (subst bare_multisig_grammar [OF demo_opcodes])
  show "\<exists>m ks. 1 \<le> m \<and> m \<le> length ks \<and> length ks \<le> unat (3 :: u8) \<and> list_all multisig_key ks
      \<and> multisig_script 1 [0x02 # replicate 32 7, 0x04 # replicate 64 9] = multisig_script m ks"
    by (rule exI [of _ 1], rule exI [of _ "[0x02 # replicate 32 7, 0x04 # replicate 64 9]"])
      (simp add: multisig_key_def)
qed simp_all

text \<open>
  C27. An \<^verbatim>\<open>OP_RETURN\<close> output passes the push-only check exactly when the bytes after its first
  opcode are a concatenation of complete pushes.
\<close>

theorem op_return_grammar:
  "op_return_payload_is_push_only (b # s) \<longleftrightarrow> (\<exists>ds. push_script bare_number_or_reserved s ds)"
  unfolding op_return_payload_is_push_only_def op_return_loop_eq [of _ _ "[]"]
  using payload.accepts [of "[b]" s "[]"] by simp

text \<open>
  The two extractors of a redeem script, \<^verbatim>\<open>last_script_push\<close> and \<^verbatim>\<open>last_push_payload\<close>,
  return the payload of the last push of a push-only script and nothing for any other
  script. They agree on every script except those that hold an \<^verbatim>\<open>OP_RESERVED\<close>, which only the
  second counts as a push.
\<close>

lemma redeem_extractors:
  assumes "bitcoin_opcodes P"
  shows "(last_script_push P s = Some d \<longleftrightarrow>
      (\<exists>ds. push_script bare_number s ds \<and> ds \<noteq> [] \<and> last ds = d))
    \<and> (last_push_payload s = Some d \<longleftrightarrow>
      (\<exists>ds. push_script bare_number_or_reserved s ds \<and> ds \<noteq> [] \<and> last ds = d))
    \<and> (last_script_push P s = Some d \<longrightarrow> last_push_payload s = Some d)
    \<and> last_push_payload [0x50] = Some [] \<and> last_script_push P [0x50] = None"
proof (intro conjI impI)
  show A: "last_script_push P s = Some d \<longleftrightarrow>
      (\<exists>ds. push_script bare_number s ds \<and> ds \<noteq> [] \<and> last ds = d)"
    unfolding last_script_push_def by (rule push_parser.parses [OF script_push_parser [OF assms]])
  show B: "last_push_payload s = Some d \<longleftrightarrow>
      (\<exists>ds. push_script bare_number_or_reserved s ds \<and> ds \<noteq> [] \<and> last ds = d)"
    using payload.parses [of s d] last_push_loop.simps [of "[]" 0 None]
    by (cases "s = []") (simp_all add: last_push_payload_def)
  have mono: "push_chunk bare_number c e \<Longrightarrow> push_chunk bare_number_or_reserved c e" for c e
  proof (induction rule: push_chunk.induct)
    case (bare b)
    then have "bare_number_or_reserved b"
      by (auto simp: bare_number_def bare_number_or_reserved_def word_le_nat_alt)
    then show ?case by (rule push_chunk.bare)
  next
    case (direct d)
    then show ?case by (rule push_chunk.direct)
  next
    case (pushdata1 d)
    then show ?case by (rule push_chunk.pushdata1)
  next
    case (pushdata2 d)
    then show ?case by (rule push_chunk.pushdata2)
  next
    case (pushdata4 d)
    then show ?case by (rule push_chunk.pushdata4)
  qed
  show "last_push_payload s = Some d" if L: "last_script_push P s = Some d"
  proof -
    obtain ds cs where "list_all2 (push_chunk bare_number) cs ds" "concat cs = s" "ds \<noteq> []" "last ds = d"
      using L unfolding A push_script_def by blast
    moreover from this(1) have "list_all2 (push_chunk bare_number_or_reserved) cs ds"
      by (rule list_all2_mono) (rule mono)
    ultimately show ?thesis unfolding B push_script_def by blast
  qed
  show "last_push_payload [0x50] = Some []"
    unfolding last_push_payload_def
    by (subst last_push_loop.simps, simp add: pushdata_header_def, subst last_push_loop.simps, simp)
  show "last_script_push P [0x50] = None"
    using assms unfolding last_script_push_def
    by (subst last_script_push_loop.simps) (simp add: script_push_at_def bitcoin_opcodes_def)
qed

lemma redeem_extractors_witness:
  "last_push_payload [0x01, 0xab, 0x4c, 0x02, 1, 2] = Some [1, 2]"
proof -
  have "push_script bare_number [0x01, 0xab, 0x4c, 0x02, 1, 2] [[0xab], [1, 2]]"
    using push_chunk.direct [of "[0xab]" bare_number] push_chunk.pushdata1 [of "[1, 2]" bare_number]
    by (auto simp: push_script_def le_bytes.simps intro!: exI [of _ "[[0x01, 0xab], [0x4c, 0x02, 1, 2]]"])
  then show ?thesis
    using redeem_extractors [OF demo_opcodes, of "[0x01, 0xab, 0x4c, 0x02, 1, 2]" "[1, 2]"]
    by (metis last.simps list.distinct(1))
qed

end
