(* ===== verification/Float64.thy ===== *)
theory Float64
  imports Prelude
begin

text \<open>
  The part of Rust's \<^verbatim>\<open>f64\<close> the policy code uses: IEEE 754 binary64 values, one
  multiplication rounded to nearest with ties to even, \<^verbatim>\<open>is_finite\<close>, \<^verbatim>\<open>round\<close>
  (ties away from zero) and the saturating cast to \<^verbatim>\<open>u128\<close>. \<open>Finite m e\<close> is the
  value \<open>m * 2 ^ e\<close>; the sign of a zero is not kept, no operation here reads it.
\<close>

datatype f64 = NaN | Infinity bool | Finite int int

fun bit_len :: "nat \<Rightarrow> nat" where
  "bit_len n = (if n = 0 then 0 else Suc (bit_len (n div 2)))"

declare bit_len.simps [simp del]

definition round_half_even :: "nat \<Rightarrow> nat \<Rightarrow> nat" where
  "round_half_even a d =
     (let q = a div d; r = a mod d in
      if 2 * r < d \<or> (2 * r = d \<and> even q) then q else q + 1)"

text \<open>Round \<open>m * 2 ^ e\<close> to 53 significant bits, with the least exponent \<open>- 1074\<close>.\<close>

definition round_f64 :: "int \<Rightarrow> int \<Rightarrow> f64" where
  "round_f64 m e =
     (let a = nat \<bar>m\<bar>;
          s = max (int (bit_len a) - 53) (- 1074 - e);
          q = (if s \<le> 0 then a else round_half_even a (2 ^ nat s));
          e' = (if s \<le> 0 then e else e + s)
      in if a = 0 then Finite 0 0
         else if int (bit_len q) + e' > 1024 then Infinity (m < 0)
         else Finite (sgn m * int q) e')"

fun f64_mul :: "f64 \<Rightarrow> f64 \<Rightarrow> f64" where
  "f64_mul (Finite m e) (Finite m' e') = round_f64 (m * m') (e + e')"
| "f64_mul (Infinity s) (Finite m e) = (if m = 0 then NaN else Infinity (s \<noteq> (m < 0)))"
| "f64_mul (Finite m e) (Infinity s) = (if m = 0 then NaN else Infinity (s \<noteq> (m < 0)))"
| "f64_mul (Infinity s) (Infinity s') = Infinity (s \<noteq> s')"
| "f64_mul _ _ = NaN"

fun f64_is_finite :: "f64 \<Rightarrow> bool" where
  "f64_is_finite (Finite _ _) = True"
| "f64_is_finite _ = False"

fun f64_less_zero :: "f64 \<Rightarrow> bool" where
  "f64_less_zero (Finite m _) = (m < 0)"
| "f64_less_zero (Infinity s) = s"
| "f64_less_zero NaN = False"

text \<open>\<^verbatim>\<open>x.round()\<close> of a finite value, as an integer.\<close>

definition f64_round_int :: "int \<Rightarrow> int \<Rightarrow> int" where
  "f64_round_int m e =
     (if 0 \<le> e then m * 2 ^ nat e
      else sgn m * ((2 * \<bar>m\<bar> + 2 ^ nat (- e)) div (2 * 2 ^ nat (- e))))"

text \<open>\<^verbatim>\<open>x.round() as u128\<close>: out-of-range values saturate, \<^verbatim>\<open>NaN\<close> is 0.\<close>

fun f64_round_as_u128 :: "f64 \<Rightarrow> u128" where
  "f64_round_as_u128 (Finite m e) =
     (let i = f64_round_int m e in
      if i < 0 then 0 else if i < 2 ^ 128 then word_of_int i else - 1)"
| "f64_round_as_u128 (Infinity s) = (if s then 0 else - 1)"
| "f64_round_as_u128 NaN = 0"

text \<open>The literals of the configuration.\<close>

definition f64_one :: f64 where "f64_one = Finite 1 0"
definition f64_two :: f64 where "f64_two = Finite 2 0"
definition f64_1_05 :: f64 where "f64_1_05 = Finite 4728779608739021 (- 52)"
definition f64_million :: f64 where "f64_million = Finite 1000000 0"

end
