(* ===== verification/Mempool_Config.thy ===== *)
theory Mempool_Config
  imports Float64 Protocol
begin

text \<open>
  \<^verbatim>\<open>src/config/mempool.rs\<close>: the replacement modes with their parameters, the eviction
  strategies, the mempool policy with its defaults, the reading of a partial
  \<^verbatim>\<open>[rbf]\<close> section and the overlay of both sections on the consensus configuration.
\<close>

datatype rbf_mode = RbfDisabled | Conservative | Standard | Aggressive

record rbf_config =
  mode :: rbf_mode
  min_fee_rate_multiplier :: f64
  min_fee_bump_satoshis :: u64
  min_confirmations :: u32
  allow_package_replacements :: bool
  max_replacements_per_tx :: u32
  cooldown_seconds :: u64

definition default_rbf_config :: rbf_config where
  "default_rbf_config =
     \<lparr> mode = Standard, min_fee_rate_multiplier = f64_one, min_fee_bump_satoshis = 1000,
       min_confirmations = 0, allow_package_replacements = True,
       max_replacements_per_tx = 10, cooldown_seconds = 0 \<rparr>"

fun with_mode :: "rbf_mode \<Rightarrow> rbf_config" where
  "with_mode RbfDisabled =
     \<lparr> mode = RbfDisabled, min_fee_rate_multiplier = Infinity False,
       min_fee_bump_satoshis = - 1, min_confirmations = - 1, allow_package_replacements = False,
       max_replacements_per_tx = 0, cooldown_seconds = - 1 \<rparr>"
| "with_mode Conservative =
     \<lparr> mode = Conservative, min_fee_rate_multiplier = f64_two,
       min_fee_bump_satoshis = 5000, min_confirmations = 1, allow_package_replacements = False,
       max_replacements_per_tx = 3, cooldown_seconds = 300 \<rparr>"
| "with_mode Standard = default_rbf_config"
| "with_mode Aggressive =
     \<lparr> mode = Aggressive, min_fee_rate_multiplier = f64_1_05,
       min_fee_bump_satoshis = 500, min_confirmations = 0, allow_package_replacements = True,
       max_replacements_per_tx = 10, cooldown_seconds = 60 \<rparr>"

text \<open>The fields of a configuration section as \<^verbatim>\<open>serde\<close> reads them, before the defaults.\<close>

record raw_rbf =
  raw_mode :: "rbf_mode option"
  raw_min_fee_rate_multiplier :: "f64 option"
  raw_min_fee_bump_satoshis :: "u64 option"
  raw_min_confirmations :: "u32 option"
  raw_allow_package_replacements :: "bool option"
  raw_max_replacements_per_tx :: "u32 option"
  raw_cooldown_seconds :: "u64 option"

definition unwrap_or :: "'a option \<Rightarrow> 'a \<Rightarrow> 'a" where
  "unwrap_or x d = (case x of None \<Rightarrow> d | Some v \<Rightarrow> v)"

lemma unwrap_or_simps [simp]: "unwrap_or None d = d" "unwrap_or (Some v) d = v"
  by (simp_all add: unwrap_or_def)

definition deserialize_rbf :: "raw_rbf \<Rightarrow> rbf_config" where
  "deserialize_rbf raw =
     (let rmode = unwrap_or (raw_mode raw) Standard;
          explicit = (raw_min_fee_rate_multiplier raw \<noteq> None \<or> raw_min_fee_bump_satoshis raw \<noteq> None
            \<or> raw_min_confirmations raw \<noteq> None \<or> raw_allow_package_replacements raw \<noteq> None
            \<or> raw_max_replacements_per_tx raw \<noteq> None \<or> raw_cooldown_seconds raw \<noteq> None);
          base = default_rbf_config
      in if \<not> explicit then with_mode rmode
         else \<lparr> mode = rmode,
           min_fee_rate_multiplier =
             unwrap_or (raw_min_fee_rate_multiplier raw) (min_fee_rate_multiplier base),
           min_fee_bump_satoshis =
             unwrap_or (raw_min_fee_bump_satoshis raw) (min_fee_bump_satoshis base),
           min_confirmations = unwrap_or (raw_min_confirmations raw) (min_confirmations base),
           allow_package_replacements =
             unwrap_or (raw_allow_package_replacements raw) (allow_package_replacements base),
           max_replacements_per_tx =
             unwrap_or (raw_max_replacements_per_tx raw) (max_replacements_per_tx base),
           cooldown_seconds = unwrap_or (raw_cooldown_seconds raw) (cooldown_seconds base) \<rparr>)"

datatype eviction_strategy =
  LowestFeeRate | OldestFirst | LargestFirst | NoDescendantsFirst | Hybrid | SpamFirst

record mempool_policy_config =
  max_mempool_mb :: u64
  max_mempool_txs :: nat
  min_relay_fee_rate :: u64
  bytes_per_sigop :: u64
  count_sigops :: bool
  min_tx_fee :: u64
  incremental_relay_fee :: u64
  max_ancestor_count :: u32
  max_ancestor_size :: u64
  max_descendant_count :: u32
  max_descendant_size :: u64
  eviction_strategy :: eviction_strategy
  mempool_expiry_hours :: u64
  persist_mempool :: bool
  mempool_persistence_path :: string
  tx_rate_limit_burst :: u32
  tx_rate_limit_per_sec :: u32
  tx_byte_rate_limit :: u64
  tx_byte_rate_burst :: u64
  require_standard :: bool
  reject_spam_in_mempool :: bool
  spam_filter :: "spam_config option"

definition default_policy :: mempool_policy_config where
  "default_policy =
     \<lparr> max_mempool_mb = 300, max_mempool_txs = 100000, min_relay_fee_rate = 100,
       bytes_per_sigop = 20, count_sigops = True, min_tx_fee = 0, incremental_relay_fee = 100,
       max_ancestor_count = 25, max_ancestor_size = 101000, max_descendant_count = 25,
       max_descendant_size = 101000, eviction_strategy = LowestFeeRate,
       mempool_expiry_hours = 336, persist_mempool = False,
       mempool_persistence_path = ''data/mempool.dat'', tx_rate_limit_burst = 10,
       tx_rate_limit_per_sec = 1, tx_byte_rate_limit = 100000, tx_byte_rate_burst = 1000000,
       require_standard = True, reject_spam_in_mempool = False, spam_filter = None \<rparr>"

text \<open>\<^verbatim>\<open>blvm_protocol::consensus_config::MempoolConfig\<close>, the fields the overlay writes.\<close>

record consensus_mempool_config =
  c_max_mempool_mb :: u64
  c_max_mempool_txs :: nat
  c_mempool_expiry_hours :: u64
  c_min_relay_fee_rate :: u64
  c_min_tx_fee :: int
  c_rbf_fee_increment :: int

text \<open>\<^verbatim>\<open>i64::try_from(x).unwrap_or(i64::MAX)\<close> for an unsigned \<open>x\<close>\<close>

definition u64_to_i64_or_max :: "u64 \<Rightarrow> int" where
  "u64_to_i64_or_max x = (if uint x \<le> i64_max then uint x else i64_max)"

definition overlay_mempool_onto_consensus ::
  "consensus_mempool_config \<Rightarrow> mempool_policy_config option \<Rightarrow> rbf_config option
    \<Rightarrow> consensus_mempool_config" where
  "overlay_mempool_onto_consensus consensus mempool rbf =
     (let c1 = (case mempool of
           None \<Rightarrow> consensus
         | Some policy \<Rightarrow> consensus \<lparr>
             c_max_mempool_mb := max_mempool_mb policy,
             c_max_mempool_txs := max_mempool_txs policy,
             c_mempool_expiry_hours := mempool_expiry_hours policy,
             c_min_relay_fee_rate := min_relay_fee_rate policy,
             c_min_tx_fee := u64_to_i64_or_max (min_tx_fee policy) \<rparr>)
      in case rbf of
           None \<Rightarrow> c1
         | Some r \<Rightarrow> c1 \<lparr> c_rbf_fee_increment := u64_to_i64_or_max (min_fee_bump_satoshis r) \<rparr>)"

end
