(* ===== verification/Mempool_State.thy ===== *)
theory Mempool_State
  imports Mempool_Config Script_Policy
begin

text \<open>
  The state of \<^verbatim>\<open>MempoolManager\<close> (\<^verbatim>\<open>src/node/mempool.rs\<close>), its constructors, setters and
  accessors, and the operations that write the pool: the insertion of an admitted
  transaction, its removal, the dependency graph, the clearing of the pool and the priority
  deltas. The invariants of the pool are stated and proved over these operations.

  Every lock of the source is taken and released inside one method; a method is one step
  here. \<^verbatim>\<open>Storage\<close> appears as the reads the mempool makes of it. A published event is the
  value handed to the event publisher.
\<close>


section \<open>State\<close>

record rbf_tracking_info =
  replacement_count :: u32
  last_replacement_time :: u64
  original_tx_hash :: hash

text \<open>What the mempool reads from \<^verbatim>\<open>Storage\<close>; a failed read is \<open>None\<close> where the source drops the error.\<close>

record storage_reads =
  chain_height :: "u64 option"
  headers_before_height_for_mtp :: "u64 \<Rightarrow> block_header list option"
  consensus_network :: "(network, string) result"
  read_chain_prevout :: "outpoint \<Rightarrow> utxo option"
  tx_block_hash :: "hash \<Rightarrow> hash option"
  height_by_hash :: "hash \<Rightarrow> u64 option"

datatype mempool_event =
    TransactionAdded hash u64 nat
  | NewTransaction hash
  | TransactionRemoved hash string nat
  | MempoolCleared nat
  | MempoolThresholdExceeded nat nat
  | FeeRateChanged u64 u64 nat

record package_preview =
  preview_txs :: "(hash, u64 \<times> hash list) hmap"
  preview_descendants :: "(hash, hash hset) hmap"

definition empty_preview :: package_preview where
  "empty_preview = \<lparr> preview_txs = [], preview_descendants = [] \<rparr>"

record mempool_pool =
  transactions :: "(hash, transaction) hmap"
  wtxids :: "(hash, hash) hmap"
  tx_witnesses :: "(hash, witness list) hmap"
  adjusted_vsize :: "(hash, u64) hmap"
  spent_outputs :: "outpoint hset"
  spenders :: "(outpoint, hash) hmap"

record mempool_manager = mempool_pool +
  legacy_mempool :: "hash hset"
  utxo_set_arc :: "(bool \<times> utxo_set) option"
  fee_index :: "(u64, hash list) hmap"
  fee_cache :: "(hash, u64) hmap"
  fee_basis :: "(hash, u64 \<times> u64) hmap"
  fee_deltas :: "(hash, int) hmap"
  mgr_rbf_config :: "rbf_config option"
  policy_config :: "mempool_policy_config option"
  rbf_tracking :: "(hash, rbf_tracking_info) hmap"
  tx_timestamps :: "(hash, u64) hmap"
  tx_heights :: "(hash, u64) hmap"
  tx_dependencies :: "(hash, hash hset) hmap"
  tx_descendants :: "(hash, hash hset) hmap"
  utxo_set_hash :: "u64 option"
  event_publisher :: bool
  published :: "mempool_event list"
  storage :: "storage_reads option"
  snapshot_lookup :: "(outpoint \<Rightarrow> utxo option) option"
  chain_tip :: "(u64 \<times> u64) option"
  relay_floor_waivers :: "hash hset"
  ephemeral_dust_waivers :: "hash hset"
  mgr_package_preview :: package_preview

definition with_rbf_config :: "rbf_config option \<Rightarrow> mempool_manager" where
  "with_rbf_config rbf =
     \<lparr> transactions = [], wtxids = [], tx_witnesses = [], adjusted_vsize = [],
       spent_outputs = [], spenders = [], legacy_mempool = [], utxo_set_arc = None,
       fee_index = [], fee_cache = [], fee_basis = [], fee_deltas = [],
       mgr_rbf_config = rbf, policy_config = None, rbf_tracking = [], tx_timestamps = [],
       tx_heights = [], tx_dependencies = [], tx_descendants = [], utxo_set_hash = None,
       event_publisher = False, published = [], storage = None, snapshot_lookup = None,
       chain_tip = None, relay_floor_waivers = [], ephemeral_dust_waivers = [],
       mgr_package_preview = empty_preview \<rparr>"

definition new_mempool :: mempool_manager where
  "new_mempool = with_rbf_config None"

definition policy :: "mempool_manager \<Rightarrow> mempool_policy_config" where
  "policy m = unwrap_or (policy_config m) default_policy"


section \<open>Setters and chain context\<close>

definition set_utxo_set_arc :: "bool \<times> utxo_set \<Rightarrow> mempool_manager \<Rightarrow> mempool_manager" where
  "set_utxo_set_arc us m = m \<lparr> utxo_set_arc := Some us \<rparr>"

definition set_snapshot_prevout_lookup ::
  "(outpoint \<Rightarrow> utxo option) \<Rightarrow> mempool_manager \<Rightarrow> mempool_manager" where
  "set_snapshot_prevout_lookup lookup m = m \<lparr> snapshot_lookup := Some lookup \<rparr>"

definition set_storage :: "storage_reads \<Rightarrow> mempool_manager \<Rightarrow> mempool_manager" where
  "set_storage s m = set_snapshot_prevout_lookup (read_chain_prevout s) (m \<lparr> storage := Some s \<rparr>)"

definition set_chain_tip :: "u64 \<Rightarrow> u64 \<Rightarrow> mempool_manager \<Rightarrow> mempool_manager" where
  "set_chain_tip next_height median_time_past m = m \<lparr> chain_tip := Some (next_height, median_time_past) \<rparr>"

definition set_event_publisher :: "bool \<Rightarrow> mempool_manager \<Rightarrow> mempool_manager" where
  "set_event_publisher e m = m \<lparr> event_publisher := e \<rparr>"

definition set_rbf_config :: "rbf_config option \<Rightarrow> mempool_manager \<Rightarrow> mempool_manager" where
  "set_rbf_config c m = m \<lparr> mgr_rbf_config := c \<rparr>"

definition set_policy_config :: "mempool_policy_config option \<Rightarrow> mempool_manager \<Rightarrow> mempool_manager" where
  "set_policy_config c m = m \<lparr> policy_config := c \<rparr>"

definition set_entry_time :: "hash \<Rightarrow> u64 \<Rightarrow> mempool_manager \<Rightarrow> mempool_manager" where
  "set_entry_time h t m = m \<lparr> tx_timestamps := hm_insert h t (tx_timestamps m) \<rparr>"

definition next_block_finality :: "'a tx_api_scheme \<Rightarrow> storage_reads \<Rightarrow> (u64 \<times> u64) option" where
  "next_block_finality P s =
     (case chain_height s of
        None \<Rightarrow> None
      | Some tip \<Rightarrow>
          let next_height = saturating_add tip 1;
              median_time_past = (case headers_before_height_for_mtp s next_height of
                  None \<Rightarrow> 0
                | Some headers \<Rightarrow> if headers = [] then 0 else get_median_time_past P headers)
          in Some (next_height, median_time_past))"

definition finality_context :: "'a tx_api_scheme \<Rightarrow> mempool_manager \<Rightarrow> (u64 \<times> u64) option" where
  "finality_context P m =
     (case storage m of
        Some s \<Rightarrow> Some (unwrap_or (next_block_finality P s) (0, 0))
      | None \<Rightarrow> chain_tip m)"

definition unconfirmed_coin_height :: "'a tx_api_scheme \<Rightarrow> mempool_manager \<Rightarrow> u64" where
  "unconfirmed_coin_height P m = (case finality_context P m of None \<Rightarrow> 0 | Some (h, _) \<Rightarrow> h)"

definition chain_network :: "mempool_manager \<Rightarrow> (network, string) result" where
  "chain_network m = (case storage m of Some s \<Rightarrow> consensus_network s | None \<Rightarrow> Ok Mainnet)"

text \<open>\<^verbatim>\<open>i64::try_from(x).ok()\<close> for an unsigned \<open>x\<close>\<close>

definition try_i64 :: "u64 \<Rightarrow> int option" where
  "try_i64 x = (if uint x \<le> i64_max then Some (uint x) else None)"

definition prior_median_time :: "'a tx_api_scheme \<Rightarrow> mempool_manager \<Rightarrow> u64 \<Rightarrow> int option" where
  "prior_median_time P m coin_height =
     (case storage m of
        None \<Rightarrow> None
      | Some s \<Rightarrow>
          (case headers_before_height_for_mtp s coin_height of
             None \<Rightarrow> None
           | Some headers \<Rightarrow>
               if headers = [] then None else try_i64 (get_median_time_past P headers)))"



section \<open>Accessors\<close>

definition mempool_size :: "mempool_manager \<Rightarrow> nat" where
  "mempool_size m = length (transactions m)"

definition transaction_hashes :: "mempool_manager \<Rightarrow> hash list" where
  "transaction_hashes m = hm_keys (transactions m)"

definition get_transaction :: "mempool_manager \<Rightarrow> hash \<Rightarrow> transaction option" where
  "get_transaction m h = hm_get (transactions m) h"

definition get_transactions :: "mempool_manager \<Rightarrow> transaction list" where
  "get_transactions m = map snd (transactions m)"

definition get_transaction_witnesses :: "mempool_manager \<Rightarrow> hash \<Rightarrow> witness list option" where
  "get_transaction_witnesses m h = hm_get (tx_witnesses m) h"

definition cached_fee_rate :: "mempool_manager \<Rightarrow> hash \<Rightarrow> u64 option" where
  "cached_fee_rate m h = hm_get (fee_cache m) h"

definition cached_fee_basis :: "mempool_manager \<Rightarrow> hash \<Rightarrow> (u64 \<times> u64) option" where
  "cached_fee_basis m h = hm_get (fee_basis m) h"

definition accepted_at :: "mempool_manager \<Rightarrow> hash \<Rightarrow> u64" where
  "accepted_at m h = hm_get_or (tx_timestamps m) h 0"

definition admission_height :: "mempool_manager \<Rightarrow> hash \<Rightarrow> u64" where
  "admission_height m h = hm_get_or (tx_heights m) h 0"

definition dependency_hashes :: "mempool_manager \<Rightarrow> hash \<Rightarrow> hash list" where
  "dependency_hashes m h = hm_get_or (tx_dependencies m) h []"

definition descendant_hashes :: "mempool_manager \<Rightarrow> hash \<Rightarrow> hash list" where
  "descendant_hashes m h = hm_get_or (tx_descendants m) h []"

definition spends_outpoint :: "mempool_manager \<Rightarrow> outpoint \<Rightarrow> bool" where
  "spends_outpoint m op \<longleftrightarrow> op \<in> set (spent_outputs m)"

definition spender_of :: "mempool_manager \<Rightarrow> outpoint \<Rightarrow> hash option" where
  "spender_of m op = hm_get (spenders m) op"

definition get_fee_delta :: "mempool_manager \<Rightarrow> hash \<Rightarrow> int" where
  "get_fee_delta m h = hm_get_or (fee_deltas m) h 0"

definition pooled_fee_basis :: "mempool_manager \<Rightarrow> (hash \<times> (u64 \<times> u64) option) list" where
  "pooled_fee_basis m = map (\<lambda>h. (h, hm_get (fee_basis m) h)) (transaction_hashes m)"


section \<open>Operations on the pool\<close>

definition invalidate_fee_ranking :: "mempool_manager \<Rightarrow> mempool_manager" where
  "invalidate_fee_ranking m = m \<lparr> utxo_set_hash := None \<rparr>"

definition publish :: "mempool_event list \<Rightarrow> mempool_manager \<Rightarrow> mempool_manager" where
  "publish es m = (if event_publisher m then m \<lparr> published := published m @ es \<rparr> else m)"

definition prioritise_transaction :: "hash \<Rightarrow> int \<Rightarrow> mempool_manager \<Rightarrow> bool \<times> mempool_manager" where
  "prioritise_transaction h fee_delta m =
     (if \<not> hm_contains (transactions m) h then (False, m)
      else (True, invalidate_fee_ranking
        (m \<lparr> fee_deltas := hm_insert h (i64_saturating_add (hm_get_or (fee_deltas m) h 0) fee_delta)
                (fee_deltas m) \<rparr>)))"

text \<open>One input of \<^verbatim>\<open>update_dependency_graph\<close>.\<close>

definition link_parent :: "hash \<Rightarrow> hash \<Rightarrow> mempool_manager \<Rightarrow> mempool_manager" where
  "link_parent tx_hash parent_hash m =
     (if hm_contains (transactions m) parent_hash
      then m \<lparr> tx_dependencies := hm_entry_insert tx_hash parent_hash (tx_dependencies m),
               tx_descendants := hm_entry_insert parent_hash tx_hash (tx_descendants m) \<rparr>
      else m)"

definition update_dependency_graph :: "transaction \<Rightarrow> hash \<Rightarrow> mempool_manager \<Rightarrow> mempool_manager" where
  "update_dependency_graph tx tx_hash m =
     foldl (\<lambda>m op. link_parent tx_hash (op_hash op) m)
       (m \<lparr> tx_dependencies := hm_entry_default tx_hash (tx_dependencies m),
            tx_descendants := hm_entry_default tx_hash (tx_descendants m) \<rparr>)
       (prevouts tx)"

text \<open>The part of the pool guard in the insertion: the transaction, its sizes and its spends.\<close>

definition pool_insert ::
  "hash \<Rightarrow> hash \<Rightarrow> transaction \<Rightarrow> witness list option \<Rightarrow> u64 \<Rightarrow> mempool_manager \<Rightarrow> mempool_manager" where
  "pool_insert tx_hash wtxid tx wits vsize m =
     m \<lparr> transactions := hm_insert tx_hash tx (transactions m),
         wtxids := hm_insert tx_hash wtxid (wtxids m),
         adjusted_vsize := hm_insert tx_hash vsize (adjusted_vsize m),
         tx_witnesses := (case wits of None \<Rightarrow> tx_witnesses m
                          | Some w \<Rightarrow> hm_insert tx_hash w (tx_witnesses m)),
         spent_outputs := foldl (\<lambda>s op. hs_insert op s) (spent_outputs m) (prevouts tx),
         spenders := foldl (\<lambda>s op. hm_insert op tx_hash s) (spenders m) (prevouts tx) \<rparr>"

definition push_fee_index :: "u64 \<Rightarrow> hash \<Rightarrow> (u64, hash list) hmap \<Rightarrow> (u64, hash list) hmap" where
  "push_fee_index rate h ix = hm_insert rate (hm_get_or ix rate [] @ [h]) ix"

text \<open>
  The tail of \<^verbatim>\<open>add_transaction_with_witness\<close>, once every check has passed:
  \<open>fee\<close> and \<open>vsize\<close> are the values the checks used, \<open>now\<close> is the clock.
\<close>

definition insert_admitted ::
  "'a tx_api_scheme \<Rightarrow> u64 \<Rightarrow> hash \<Rightarrow> hash \<Rightarrow> transaction \<Rightarrow> witness list option
    \<Rightarrow> u64 \<Rightarrow> u64 \<Rightarrow> u64 \<Rightarrow> mempool_manager \<Rightarrow> mempool_manager" where
  "insert_admitted P now tx_hash wtxid tx wits fee vsize fee_rate m =
     (let m1 = pool_insert tx_hash wtxid tx wits vsize m;
          m2 = m1 \<lparr> legacy_mempool := hs_insert tx_hash (legacy_mempool m1) \<rparr>;
          m3 = update_dependency_graph tx tx_hash m2;
          admission = (case finality_context P m3 of
              None \<Rightarrow> 0 | Some (next_height, _) \<Rightarrow> saturating_sub next_height 1);
          m4 = m3 \<lparr> tx_timestamps := hm_insert tx_hash now (tx_timestamps m3),
                    tx_heights := hm_insert tx_hash admission (tx_heights m3),
                    fee_cache := hm_insert tx_hash fee_rate (fee_cache m3),
                    fee_basis := hm_insert tx_hash (fee, vsize) (fee_basis m3),
                    fee_index := push_fee_index fee_rate tx_hash (fee_index m3) \<rparr>;
          m5 = invalidate_fee_ranking m4
      in publish [TransactionAdded tx_hash fee_rate (mempool_size m5), NewTransaction tx_hash] m5)"

definition remove_from_fee_index :: "hash \<Rightarrow> mempool_manager \<Rightarrow> mempool_manager" where
  "remove_from_fee_index h m =
     (case hm_get (fee_cache m) h of
        None \<Rightarrow> m
      | Some rate \<Rightarrow>
          let m1 = m \<lparr> fee_cache := hm_remove h (fee_cache m), fee_basis := hm_remove h (fee_basis m) \<rparr>
          in case hm_get (fee_index m1) rate of
               None \<Rightarrow> m1
             | Some hs \<Rightarrow>
                 let hs' = filter (\<lambda>x. x \<noteq> h) hs
                 in m1 \<lparr> fee_index := (if hs' = [] then hm_remove rate (fee_index m1)
                                       else hm_insert rate hs' (fee_index m1)) \<rparr>)"

definition remove_from_graph :: "hash \<Rightarrow> mempool_manager \<Rightarrow> mempool_manager" where
  "remove_from_graph h m =
     (let (deps1, desc1) =
            (case hm_get (tx_descendants m) h of
               None \<Rightarrow> (tx_dependencies m, tx_descendants m)
             | Some children \<Rightarrow>
                 (foldl (\<lambda>d c. hm_set_remove c h d) (tx_dependencies m) children,
                  hm_remove h (tx_descendants m)));
          (deps2, desc2) =
            (case hm_get deps1 h of
               None \<Rightarrow> (deps1, desc1)
             | Some parents \<Rightarrow>
                 (hm_remove h deps1, foldl (\<lambda>d p. hm_set_remove p h d) desc1 parents))
      in m \<lparr> tx_dependencies := deps2, tx_descendants := desc2 \<rparr>)"

definition pool_remove :: "hash \<Rightarrow> transaction \<Rightarrow> mempool_manager \<Rightarrow> mempool_manager" where
  "pool_remove h tx m =
     m \<lparr> transactions := hm_remove h (transactions m),
         wtxids := hm_remove h (wtxids m),
         tx_witnesses := hm_remove h (tx_witnesses m),
         adjusted_vsize := hm_remove h (adjusted_vsize m),
         spent_outputs := foldl (\<lambda>s op. hs_remove op s) (spent_outputs m) (prevouts tx),
         spenders := foldl (\<lambda>s op. hm_remove op s) (spenders m) (prevouts tx) \<rparr>"

definition remove_transaction :: "hash \<Rightarrow> mempool_manager \<Rightarrow> bool \<times> mempool_manager" where
  "remove_transaction h m =
     (case hm_get (transactions m) h of
        None \<Rightarrow> (False, m)
      | Some tx \<Rightarrow>
          let m1 = pool_remove h tx m;
              m2 = m1 \<lparr> legacy_mempool := hs_remove h (legacy_mempool m1) \<rparr>;
              m3 = remove_from_fee_index h m2;
              m4 = m3 \<lparr> rbf_tracking := hm_remove h (rbf_tracking m3),
                        tx_timestamps := hm_remove h (tx_timestamps m3),
                        tx_heights := hm_remove h (tx_heights m3),
                        fee_deltas := hm_remove h (fee_deltas m3) \<rparr>;
              m5 = remove_from_graph h m4;
              m6 = publish [TransactionRemoved h ''removed'' (mempool_size m5)] m5
          in (True, invalidate_fee_ranking m6))"

definition remove_tx :: "hash \<Rightarrow> mempool_manager \<Rightarrow> mempool_manager" where
  "remove_tx h m = snd (remove_transaction h m)"

definition clear_mempool :: "mempool_manager \<Rightarrow> mempool_manager" where
  "clear_mempool m =
     (let cleared_count = mempool_size m;
          m1 = m \<lparr> transactions := [], spent_outputs := [], spenders := [],
                   legacy_mempool := [], fee_index := [], fee_cache := [], fee_basis := [],
                   fee_deltas := [], rbf_tracking := [], tx_timestamps := [], tx_heights := [] \<rparr>
      in publish [MempoolCleared cleared_count] (invalidate_fee_ranking m1))"

end
