(* ===== verification/Mempool_Invariant.thy ===== *)
theory Mempool_Invariant
  imports Mempool_State
begin

text \<open>
  The invariants of the pool and their preservation by the two operations that every
  admission, eviction, replacement and block connection is built from: the insertion of an
  admitted transaction and the removal of a pooled one.

  \<^item> \<open>spend_inv\<close>: the spender table is exactly the relation ``this pooled transaction spends
    this outpoint'', so no outpoint has two spenders;
  \<^item> \<open>table_inv\<close>: every per-transaction table has exactly the pooled transactions as keys, or
    only pooled transactions where an entry is optional;
  \<^item> \<open>graph_inv\<close>: the two halves of the dependency graph are inverse to each other and hold
    only real spends between pooled transactions;
  \<^item> \<open>fee_inv\<close>: the ordered fee index is the inverse of the fee cache.
\<close>

named_theorems mp_fields \<open>fields after an operation of the pool\<close>

definition pooled :: "mempool_manager \<Rightarrow> hash set" where
  "pooled m = mm_dom (transactions m)"

definition spend_inv :: "'a tx_api_scheme \<Rightarrow> mempool_manager \<Rightarrow> bool" where
  "spend_inv P m \<longleftrightarrow>
     hm_wf (transactions m) \<and> hm_wf (spenders m)
   \<and> (\<forall>h tx. hm_get (transactions m) h = Some tx \<longrightarrow> calculate_tx_id P tx = h)
   \<and> (\<forall>op h. hm_get (spenders m) op = Some h \<longleftrightarrow>
        (\<exists>tx. hm_get (transactions m) h = Some tx \<and> op \<in> set (prevouts tx)))
   \<and> set (spent_outputs m) = mm_dom (spenders m)"

definition table_inv :: "mempool_manager \<Rightarrow> bool" where
  "table_inv m \<longleftrightarrow>
     mm_dom (wtxids m) = pooled m \<and> mm_dom (adjusted_vsize m) = pooled m
   \<and> mm_dom (tx_timestamps m) = pooled m \<and> mm_dom (tx_heights m) = pooled m
   \<and> set (legacy_mempool m) = pooled m
   \<and> mm_dom (tx_witnesses m) \<subseteq> pooled m \<and> mm_dom (fee_deltas m) \<subseteq> pooled m"

definition graph_inv :: "mempool_manager \<Rightarrow> bool" where
  "graph_inv m \<longleftrightarrow>
     mm_dom (tx_dependencies m) = pooled m \<and> mm_dom (tx_descendants m) = pooled m
   \<and> (\<forall>p c. p \<in> mm_set (tx_dependencies m) c \<longleftrightarrow> c \<in> mm_set (tx_descendants m) p)
   \<and> (\<forall>p c. p \<in> mm_set (tx_dependencies m) c \<longrightarrow>
        p \<in> pooled m \<and> (\<exists>tx. hm_get (transactions m) c = Some tx \<and> p \<in> op_hash ` set (prevouts tx)))"

definition fee_inv :: "mempool_manager \<Rightarrow> bool" where
  "fee_inv m \<longleftrightarrow>
     (\<forall>h r. hm_get (fee_cache m) h = Some r \<longleftrightarrow> h \<in> mm_set (fee_index m) r)
   \<and> (\<forall>r. hm_get (fee_index m) r \<noteq> Some [])
   \<and> (\<forall>r. distinct (hm_get_or (fee_index m) r []))
   \<and> hm_wf (fee_index m)
   \<and> mm_dom (fee_basis m) = mm_dom (fee_cache m) \<and> mm_dom (fee_cache m) \<subseteq> pooled m"

definition pool_inv :: "'a tx_api_scheme \<Rightarrow> mempool_manager \<Rightarrow> bool" where
  "pool_inv P m \<longleftrightarrow> spend_inv P m \<and> table_inv m \<and> graph_inv m \<and> fee_inv m"


section \<open>Fields after each operation\<close>

lemma publish_fields [simp]:
  "transactions (publish es m) = transactions m" "wtxids (publish es m) = wtxids m"
  "tx_witnesses (publish es m) = tx_witnesses m" "adjusted_vsize (publish es m) = adjusted_vsize m"
  "spent_outputs (publish es m) = spent_outputs m" "spenders (publish es m) = spenders m"
  "legacy_mempool (publish es m) = legacy_mempool m" "utxo_set_arc (publish es m) = utxo_set_arc m"
  "fee_index (publish es m) = fee_index m" "fee_cache (publish es m) = fee_cache m"
  "fee_basis (publish es m) = fee_basis m" "fee_deltas (publish es m) = fee_deltas m"
  "mgr_rbf_config (publish es m) = mgr_rbf_config m" "policy_config (publish es m) = policy_config m"
  "rbf_tracking (publish es m) = rbf_tracking m" "tx_timestamps (publish es m) = tx_timestamps m"
  "tx_heights (publish es m) = tx_heights m" "tx_dependencies (publish es m) = tx_dependencies m"
  "tx_descendants (publish es m) = tx_descendants m" "utxo_set_hash (publish es m) = utxo_set_hash m"
  "event_publisher (publish es m) = event_publisher m" "storage (publish es m) = storage m"
  "snapshot_lookup (publish es m) = snapshot_lookup m" "chain_tip (publish es m) = chain_tip m"
  "relay_floor_waivers (publish es m) = relay_floor_waivers m"
  "ephemeral_dust_waivers (publish es m) = ephemeral_dust_waivers m"
  "mgr_package_preview (publish es m) = mgr_package_preview m"
  by (simp_all add: publish_def)

text \<open>The parents of a transaction that are pooled when its edges are recorded.\<close>

definition pool_parents :: "transaction \<Rightarrow> mempool_manager \<Rightarrow> hash list" where
  "pool_parents tx m = filter (\<lambda>p. p \<in> pooled m) (map op_hash (prevouts tx))"

lemma foldl_link_parent:
  "foldl (\<lambda>m op. link_parent h (op_hash op) m) m ops =
     m \<lparr> tx_dependencies := foldl (\<lambda>d p. hm_entry_insert h p d) (tx_dependencies m)
            (filter (\<lambda>p. p \<in> pooled m) (map op_hash ops)),
         tx_descendants := foldl (\<lambda>d p. hm_entry_insert p h d) (tx_descendants m)
            (filter (\<lambda>p. p \<in> pooled m) (map op_hash ops)) \<rparr>"
  by (induction ops arbitrary: m) (simp_all add: link_parent_def pooled_def mm_dom_fst)

lemma update_dependency_graph_eq:
  "update_dependency_graph tx h m =
     m \<lparr> tx_dependencies := foldl (\<lambda>d p. hm_entry_insert h p d)
            (hm_entry_default h (tx_dependencies m)) (pool_parents tx m),
         tx_descendants := foldl (\<lambda>d p. hm_entry_insert p h d)
            (hm_entry_default h (tx_descendants m)) (pool_parents tx m) \<rparr>"
  unfolding update_dependency_graph_def foldl_link_parent
  by (simp add: pool_parents_def pooled_def)

lemma insert_admitted_fields [mp_fields]:
  fixes P now h w tx wits fee vsize rate m
  defines "m' \<equiv> insert_admitted P now h w tx wits fee vsize rate m"
  defines "ps \<equiv> filter (\<lambda>p. p \<in> insert h (pooled m)) (map op_hash (prevouts tx))"
  shows "transactions m' = hm_insert h tx (transactions m)"
    "wtxids m' = hm_insert h w (wtxids m)"
    "adjusted_vsize m' = hm_insert h vsize (adjusted_vsize m)"
    "tx_witnesses m' = (case wits of None \<Rightarrow> tx_witnesses m | Some ws \<Rightarrow> hm_insert h ws (tx_witnesses m))"
    "spent_outputs m' = foldl (\<lambda>s op. hs_insert op s) (spent_outputs m) (prevouts tx)"
    "spenders m' = foldl (\<lambda>s op. hm_insert op h s) (spenders m) (prevouts tx)"
    "legacy_mempool m' = hs_insert h (legacy_mempool m)"
    "fee_index m' = push_fee_index rate h (fee_index m)"
    "fee_cache m' = hm_insert h rate (fee_cache m)"
    "fee_basis m' = hm_insert h (fee, vsize) (fee_basis m)"
    "fee_deltas m' = fee_deltas m" "rbf_tracking m' = rbf_tracking m"
    "tx_timestamps m' = hm_insert h now (tx_timestamps m)"
    "mm_dom (tx_heights m') = insert h (mm_dom (tx_heights m))"
    "tx_dependencies m' = foldl (\<lambda>d p. hm_entry_insert h p d) (hm_entry_default h (tx_dependencies m)) ps"
    "tx_descendants m' = foldl (\<lambda>d p. hm_entry_insert p h d) (hm_entry_default h (tx_descendants m)) ps"
    "pooled m' = insert h (pooled m)"
    "policy_config m' = policy_config m" "mgr_rbf_config m' = mgr_rbf_config m" "storage m' = storage m"
    "chain_tip m' = chain_tip m" "utxo_set_arc m' = utxo_set_arc m" "snapshot_lookup m' = snapshot_lookup m"
  unfolding m'_def ps_def
  by (simp_all add: insert_admitted_def Let_def update_dependency_graph_eq pool_insert_def
      invalidate_fee_ranking_def pooled_def pool_parents_def)

lemma remove_from_fee_index_fields [simp]:
  "transactions (remove_from_fee_index h m) = transactions m"
  "wtxids (remove_from_fee_index h m) = wtxids m"
  "tx_witnesses (remove_from_fee_index h m) = tx_witnesses m"
  "adjusted_vsize (remove_from_fee_index h m) = adjusted_vsize m"
  "spent_outputs (remove_from_fee_index h m) = spent_outputs m"
  "spenders (remove_from_fee_index h m) = spenders m"
  "legacy_mempool (remove_from_fee_index h m) = legacy_mempool m"
  "fee_deltas (remove_from_fee_index h m) = fee_deltas m"
  "rbf_tracking (remove_from_fee_index h m) = rbf_tracking m"
  "tx_timestamps (remove_from_fee_index h m) = tx_timestamps m"
  "tx_heights (remove_from_fee_index h m) = tx_heights m"
  "tx_dependencies (remove_from_fee_index h m) = tx_dependencies m"
  "tx_descendants (remove_from_fee_index h m) = tx_descendants m"
  "policy_config (remove_from_fee_index h m) = policy_config m"
  "mgr_rbf_config (remove_from_fee_index h m) = mgr_rbf_config m"
  "storage (remove_from_fee_index h m) = storage m"
  "chain_tip (remove_from_fee_index h m) = chain_tip m"
  "utxo_set_arc (remove_from_fee_index h m) = utxo_set_arc m"
  "snapshot_lookup (remove_from_fee_index h m) = snapshot_lookup m"
  "event_publisher (remove_from_fee_index h m) = event_publisher m"
  "published (remove_from_fee_index h m) = published m"
  "relay_floor_waivers (remove_from_fee_index h m) = relay_floor_waivers m"
  "ephemeral_dust_waivers (remove_from_fee_index h m) = ephemeral_dust_waivers m"
  "mgr_package_preview (remove_from_fee_index h m) = mgr_package_preview m"
  by (simp_all add: remove_from_fee_index_def Let_def split: option.split)

lemma remove_from_graph_fields [simp]:
  "transactions (remove_from_graph h m) = transactions m"
  "wtxids (remove_from_graph h m) = wtxids m"
  "tx_witnesses (remove_from_graph h m) = tx_witnesses m"
  "adjusted_vsize (remove_from_graph h m) = adjusted_vsize m"
  "spent_outputs (remove_from_graph h m) = spent_outputs m"
  "spenders (remove_from_graph h m) = spenders m"
  "legacy_mempool (remove_from_graph h m) = legacy_mempool m"
  "fee_index (remove_from_graph h m) = fee_index m"
  "fee_cache (remove_from_graph h m) = fee_cache m"
  "fee_basis (remove_from_graph h m) = fee_basis m"
  "fee_deltas (remove_from_graph h m) = fee_deltas m"
  "rbf_tracking (remove_from_graph h m) = rbf_tracking m"
  "tx_timestamps (remove_from_graph h m) = tx_timestamps m"
  "tx_heights (remove_from_graph h m) = tx_heights m"
  "policy_config (remove_from_graph h m) = policy_config m"
  "mgr_rbf_config (remove_from_graph h m) = mgr_rbf_config m"
  "storage (remove_from_graph h m) = storage m"
  "chain_tip (remove_from_graph h m) = chain_tip m"
  "utxo_set_arc (remove_from_graph h m) = utxo_set_arc m"
  "snapshot_lookup (remove_from_graph h m) = snapshot_lookup m"
  "event_publisher (remove_from_graph h m) = event_publisher m"
  "published (remove_from_graph h m) = published m"
  "relay_floor_waivers (remove_from_graph h m) = relay_floor_waivers m"
  "ephemeral_dust_waivers (remove_from_graph h m) = ephemeral_dust_waivers m"
  "mgr_package_preview (remove_from_graph h m) = mgr_package_preview m"
  by (simp_all add: remove_from_graph_def Let_def split: option.split prod.split)

lemma remove_from_fee_index_cong:
  assumes "fee_cache m = fee_cache m0" "fee_index m = fee_index m0" "fee_basis m = fee_basis m0"
  shows "fee_cache (remove_from_fee_index h m) = fee_cache (remove_from_fee_index h m0)"
    "fee_index (remove_from_fee_index h m) = fee_index (remove_from_fee_index h m0)"
    "fee_basis (remove_from_fee_index h m) = fee_basis (remove_from_fee_index h m0)"
  using assms by (simp_all add: remove_from_fee_index_def Let_def split: option.split)

lemma remove_from_graph_cong:
  assumes "tx_dependencies m = tx_dependencies m0" "tx_descendants m = tx_descendants m0"
  shows "tx_dependencies (remove_from_graph h m) = tx_dependencies (remove_from_graph h m0)"
    "tx_descendants (remove_from_graph h m) = tx_descendants (remove_from_graph h m0)"
  unfolding remove_from_graph_def Let_def assms by (simp_all split: prod.split)

lemma remove_tx_absent [simp]: "hm_get (transactions m) h = None \<Longrightarrow> remove_tx h m = m"
  by (simp add: remove_tx_def remove_transaction_def)

lemma remove_tx_fields [mp_fields]:
  assumes "hm_get (transactions m) h = Some tx"
  defines "m' \<equiv> remove_tx h m"
  shows "transactions m' = hm_remove h (transactions m)"
    "wtxids m' = hm_remove h (wtxids m)"
    "adjusted_vsize m' = hm_remove h (adjusted_vsize m)"
    "tx_witnesses m' = hm_remove h (tx_witnesses m)"
    "spent_outputs m' = foldl (\<lambda>s op. hs_remove op s) (spent_outputs m) (prevouts tx)"
    "spenders m' = foldl (\<lambda>s op. hm_remove op s) (spenders m) (prevouts tx)"
    "legacy_mempool m' = hs_remove h (legacy_mempool m)"
    "fee_index m' = fee_index (remove_from_fee_index h m)"
    "fee_cache m' = fee_cache (remove_from_fee_index h m)"
    "fee_basis m' = fee_basis (remove_from_fee_index h m)"
    "fee_deltas m' = hm_remove h (fee_deltas m)"
    "rbf_tracking m' = hm_remove h (rbf_tracking m)"
    "tx_timestamps m' = hm_remove h (tx_timestamps m)"
    "tx_heights m' = hm_remove h (tx_heights m)"
    "tx_dependencies m' = tx_dependencies (remove_from_graph h m)"
    "tx_descendants m' = tx_descendants (remove_from_graph h m)"
    "pooled m' = pooled m - {h}"
  unfolding m'_def
  by (simp_all add: assms(1) remove_tx_def remove_transaction_def Let_def pool_remove_def
      invalidate_fee_ranking_def pooled_def)
    (rule remove_from_fee_index_cong remove_from_graph_cong; simp)+

lemma remove_tx_config [simp]:
  "policy_config (remove_tx h m) = policy_config m"
  "mgr_rbf_config (remove_tx h m) = mgr_rbf_config m"
  "storage (remove_tx h m) = storage m"
  "chain_tip (remove_tx h m) = chain_tip m"
  "utxo_set_arc (remove_tx h m) = utxo_set_arc m"
  "snapshot_lookup (remove_tx h m) = snapshot_lookup m"
  "event_publisher (remove_tx h m) = event_publisher m"
  "relay_floor_waivers (remove_tx h m) = relay_floor_waivers m"
  "ephemeral_dust_waivers (remove_tx h m) = ephemeral_dust_waivers m"
  "mgr_package_preview (remove_tx h m) = mgr_package_preview m"
  by (simp_all add: remove_tx_def remove_transaction_def Let_def pool_remove_def
      invalidate_fee_ranking_def split: option.split)


section \<open>Preservation\<close>

lemma new_pool_inv: "pool_inv P (with_rbf_config c)"
  by (simp add: pool_inv_def spend_inv_def table_inv_def graph_inv_def fee_inv_def
      with_rbf_config_def pooled_def mm_set_Nil hm_get_or_def)

lemma spend_inv_insert:
  assumes "spend_inv P m" "calculate_tx_id P tx = h" "h \<notin> pooled m"
    and "\<forall>op \<in> set (prevouts tx). hm_get (spenders m) op = None"
  shows "spend_inv P (insert_admitted P now h w tx wits fee vsize rate m)"
proof -
  note I = assms(1) [unfolded spend_inv_def]
  have new: "hm_get (transactions m) h = None" using assms(3) by (simp add: pooled_def mm_dom_iff)
  have dom: "mm_dom (foldl (\<lambda>s op. hm_insert op h s) (spenders m) (prevouts tx))
      = mm_dom (spenders m) \<union> set (prevouts tx)"
    by (auto simp: mm_dom_iff get_foldl_insert)
  have free: "hm_get (spenders m) op \<noteq> Some g" if "op \<in> set (prevouts tx)" for op g
    using assms(4) that by simp
  show ?thesis
    unfolding spend_inv_def mp_fields
  proof (intro conjI allI)
    fix op g
    show "hm_get (foldl (\<lambda>s op. hm_insert op h s) (spenders m) (prevouts tx)) op = Some g
        \<longleftrightarrow> (\<exists>tx'. hm_get (hm_insert h tx (transactions m)) g = Some tx' \<and> op \<in> set (prevouts tx'))"
      using I new free by (auto simp: get_foldl_insert update_conv')
  qed (use I assms(2) dom in \<open>auto simp: update_conv'\<close>)
qed

lemma spend_inv_remove:
  assumes "spend_inv P m"
  shows "spend_inv P (remove_tx h m)"
proof (cases "hm_get (transactions m) h")
  case None
  then show ?thesis using assms by simp
next
  case (Some tx)
  note I = assms [unfolded spend_inv_def]
  have own: "hm_get (spenders m) op = Some h" if "op \<in> set (prevouts tx)" for op
    using I Some that by blast
  have dom: "mm_dom (foldl (\<lambda>s op. hm_remove op s) (spenders m) (prevouts tx))
      = mm_dom (spenders m) - set (prevouts tx)"
    by (auto simp: mm_dom_iff get_foldl_remove split: if_splits)
  show ?thesis
    unfolding spend_inv_def remove_tx_fields [OF Some]
  proof (intro conjI allI)
    fix op g
    show "hm_get (foldl (\<lambda>s op. hm_remove op s) (spenders m) (prevouts tx)) op = Some g
        \<longleftrightarrow> (\<exists>tx'. hm_get (hm_remove h (transactions m)) g = Some tx' \<and> op \<in> set (prevouts tx'))"
    proof (cases "op \<in> set (prevouts tx)")
      case True
      then have "hm_get (transactions m) g = Some tx' \<Longrightarrow> op \<in> set (prevouts tx') \<Longrightarrow> g = h" for tx'
        using I own [OF True] by (metis option.inject)
      with True show ?thesis by (auto simp: get_foldl_remove delete_conv')
    next
      case False
      then show ?thesis using I Some by (auto simp: get_foldl_remove delete_conv')
    qed
  qed (use I dom in \<open>auto simp: delete_conv'\<close>)
qed

lemma table_inv_insert:
  "table_inv m \<Longrightarrow> table_inv (insert_admitted P now h w tx wits fee vsize rate m)"
  by (auto simp: table_inv_def mp_fields split: option.split)

lemma table_inv_remove: "table_inv m \<Longrightarrow> table_inv (remove_tx h m)"
  by (cases "hm_get (transactions m) h") (auto simp: table_inv_def remove_tx_fields)

lemma graph_invD:
  assumes "graph_inv m"
  shows "mm_dom (tx_dependencies m) = pooled m" "mm_dom (tx_descendants m) = pooled m"
    and "p \<in> mm_set (tx_dependencies m) c \<longleftrightarrow> c \<in> mm_set (tx_descendants m) p"
    and "p \<in> mm_set (tx_dependencies m) c \<Longrightarrow> p \<in> pooled m"
    and "p \<in> mm_set (tx_dependencies m) c \<Longrightarrow>
      \<exists>tx. hm_get (transactions m) c = Some tx \<and> p \<in> op_hash ` set (prevouts tx)"
  using assms by (simp_all add: graph_inv_def)

lemma graph_inv_insert:
  assumes "graph_inv m" "h \<notin> pooled m"
  shows "graph_inv (insert_admitted P now h w tx wits fee vsize rate m)"
proof -
  note I = graph_invD [OF assms(1)]
  define ps where "ps = filter (\<lambda>p. p \<in> insert h (pooled m)) (map op_hash (prevouts tx))"
  have ps: "set ps = insert h (pooled m) \<inter> op_hash ` set (prevouts tx)" by (auto simp: ps_def)
  have no: "mm_set (tx_dependencies m) h = {}" "mm_set (tx_descendants m) h = {}"
    using I(1,2) assms(2) by (simp_all add: mm_set_empty)
  have tx: "\<exists>tx'. hm_get (hm_insert h tx (transactions m)) c = Some tx' \<and> p \<in> op_hash ` set (prevouts tx')"
    if "p \<in> mm_set (tx_dependencies m) c" for p c
    using I(5) [OF that] no that by (cases "c = h") (auto simp: update_conv')
  show ?thesis
    unfolding graph_inv_def mp_fields ps_def [symmetric]
  proof (intro conjI allI impI)
    fix p c
    assume "p \<in> mm_set (foldl (\<lambda>d p. hm_entry_insert h p d) (hm_entry_default h (tx_dependencies m)) ps) c"
    then have or: "p \<in> mm_set (tx_dependencies m) c \<or> (c = h \<and> p \<in> set ps)"
      by (auto split: if_splits)
    then show "p \<in> insert h (pooled m)" using I(4) ps by blast
    from or show "\<exists>tx'. hm_get (hm_insert h tx (transactions m)) c = Some tx' \<and> p \<in> op_hash ` set (prevouts tx')"
    proof
      assume "p \<in> mm_set (tx_dependencies m) c"
      then show ?thesis by (rule tx)
    next
      assume "c = h \<and> p \<in> set ps"
      then show ?thesis using ps by (simp add: update_conv')
    qed
  next
    fix p c
    show "p \<in> mm_set (foldl (\<lambda>d p. hm_entry_insert h p d) (hm_entry_default h (tx_dependencies m)) ps) c
      \<longleftrightarrow> c \<in> mm_set (foldl (\<lambda>d p. hm_entry_insert p h d) (hm_entry_default h (tx_descendants m)) ps) p"
      using I(3) [of p c] by auto
  qed (use I(1,2) ps in auto)
qed

lemma remove_tx_edges:
  assumes "graph_inv m" "h \<in> pooled m"
  shows "mm_set (tx_dependencies (remove_tx h m)) c =
      (if c = h then {} else mm_set (tx_dependencies m) c - {h})"
    and "mm_set (tx_descendants (remove_tx h m)) c =
      (if c = h then {} else mm_set (tx_descendants m) c - {h})"
    and "mm_dom (tx_dependencies (remove_tx h m)) = pooled m - {h}"
    and "mm_dom (tx_descendants (remove_tx h m)) = pooled m - {h}"
proof -
  note I = graph_invD [OF assms(1)]
  obtain tx where Some: "hm_get (transactions m) h = Some tx"
    using assms(2) by (auto simp: pooled_def mm_dom_iff)
  obtain cs where cs: "hm_get (tx_descendants m) h = Some cs"
    using assms(2) I(2) by (metis mm_dom_iff option.exhaust)
  obtain qs where qs: "hm_get (foldl (\<lambda>d c. hm_set_remove c h d) (tx_dependencies m) cs) h = Some qs"
    using assms(2) I(1) by (metis mm_dom_iff mm_dom_foldl_remove option.exhaust)
  have eq: "tx_dependencies (remove_tx h m) =
        hm_remove h (foldl (\<lambda>d c. hm_set_remove c h d) (tx_dependencies m) cs)"
      "tx_descendants (remove_tx h m) =
        foldl (\<lambda>d p. hm_set_remove p h d) (hm_remove h (tx_descendants m)) qs"
    unfolding remove_tx_fields [OF Some] by (simp_all add: remove_from_graph_def cs qs)
  have scs: "set cs = mm_set (tx_descendants m) h" using mm_get_set [OF cs] by simp
  have sqs: "set qs = mm_set (tx_dependencies m) h - {h}"
    using mm_get_set [OF qs] I(3) [of h h] scs by (auto split: if_splits)
  show "mm_set (tx_dependencies (remove_tx h m)) c =
      (if c = h then {} else mm_set (tx_dependencies m) c - {h})"
    using I(3) [of h c] by (auto simp: eq scs)
  show "mm_set (tx_descendants (remove_tx h m)) c =
      (if c = h then {} else mm_set (tx_descendants m) c - {h})"
    using I(3) [of c h] by (auto simp: eq sqs)
  show "mm_dom (tx_dependencies (remove_tx h m)) = pooled m - {h}"
    and "mm_dom (tx_descendants (remove_tx h m)) = pooled m - {h}"
    using I(1,2) by (simp_all add: eq)
qed

lemma graph_inv_remove:
  assumes "graph_inv m"
  shows "graph_inv (remove_tx h m)"
proof (cases "hm_get (transactions m) h")
  case None
  then show ?thesis using assms by simp
next
  case (Some tx)
  note I = graph_invD [OF assms]
  have h: "h \<in> pooled m" using Some by (simp add: pooled_def mm_dom_iff)
  note E = remove_tx_edges [OF assms h] and F = remove_tx_fields(1,17) [OF Some]
  show ?thesis
    unfolding graph_inv_def E(3,4) F
  proof (intro conjI allI impI)
    fix p c
    assume "p \<in> mm_set (tx_dependencies (remove_tx h m)) c"
    then have "p \<in> mm_set (tx_dependencies m) c" "p \<noteq> h" "c \<noteq> h" by (auto simp: E split: if_splits)
    with I(4,5) show "p \<in> pooled m - {h}"
      and "\<exists>tx. hm_get (hm_remove h (transactions m)) c = Some tx \<and> p \<in> op_hash ` set (prevouts tx)"
      by (auto simp: delete_conv')
  next
    fix p c
    show "p \<in> mm_set (tx_dependencies (remove_tx h m)) c
      \<longleftrightarrow> c \<in> mm_set (tx_descendants (remove_tx h m)) p"
      using I(3) [of p c] by (auto simp: E)
  qed auto
qed

lemma fee_invD:
  assumes "fee_inv m"
  shows "hm_get (fee_cache m) h = Some r \<longleftrightarrow> h \<in> mm_set (fee_index m) r"
    and "hm_get (fee_index m) r \<noteq> Some []" and "distinct (hm_get_or (fee_index m) r [])"
    and "hm_wf (fee_index m)"
    and "mm_dom (fee_basis m) = mm_dom (fee_cache m)" and "mm_dom (fee_cache m) \<subseteq> pooled m"
  using assms by (simp_all add: fee_inv_def)

lemma push_fee_index_laws [simp]:
  "mm_set (push_fee_index r h ix) r' = (if r' = r then insert h (mm_set ix r) else mm_set ix r')"
  "hm_get_or (push_fee_index r h ix) r' [] = (if r' = r then hm_get_or ix r [] @ [h] else hm_get_or ix r' [])"
  "hm_get (push_fee_index r h ix) r' = (if r' = r then Some (hm_get_or ix r [] @ [h]) else hm_get ix r')"
  "hm_wf ix \<Longrightarrow> hm_wf (push_fee_index r h ix)"
  by (cases "r' = r"; simp add: push_fee_index_def mm_set_def hm_get_or_def update_conv')+

lemma fee_inv_insert:
  assumes "fee_inv m" "h \<notin> pooled m"
  shows "fee_inv (insert_admitted P now h w tx wits fee vsize rate m)"
proof -
  note I = fee_invD [OF assms(1)]
  have new: "hm_get (fee_cache m) h = None" using I(6) assms(2) by (auto simp: mm_dom_iff)
  then have no: "h \<notin> mm_set (fee_index m) r" for r using I(1) [of h r] by simp
  show ?thesis
    unfolding fee_inv_def mp_fields
  proof (intro conjI allI)
    fix g r
    show "hm_get (hm_insert h rate (fee_cache m)) g = Some r
        \<longleftrightarrow> g \<in> mm_set (push_fee_index rate h (fee_index m)) r"
      using I(1) [of g r] no by (cases "g = h") (auto simp: update_conv')
  next
    fix r
    show "distinct (hm_get_or (push_fee_index rate h (fee_index m)) r [])"
      using I(3) [of r] I(3) [of rate] no [of rate] by (simp add: mm_set_def)
  qed (use I(2,4,5,6) in auto)
qed

lemma fee_inv_remove_index:
  fixes h
  assumes "fee_inv m"
  defines "m' \<equiv> remove_from_fee_index h m"
  shows "hm_get (fee_cache m') g = (if g = h then None else hm_get (fee_cache m) g)"
    and "mm_set (fee_index m') r = mm_set (fee_index m) r - {h}"
    and "hm_get (fee_index m') r \<noteq> Some []" and "distinct (hm_get_or (fee_index m') r [])"
    and "hm_wf (fee_index m')" and "mm_dom (fee_basis m') = mm_dom (fee_basis m) - {h}"
proof -
  note I = fee_invD [OF assms(1)]
  consider (absent) "hm_get (fee_cache m) h = None"
    | (found) rate hs where "hm_get (fee_cache m) h = Some rate" "hm_get (fee_index m) rate = Some hs"
  proof (cases "hm_get (fee_cache m) h")
    case (Some rate)
    then have "h \<in> mm_set (fee_index m) rate" using I(1) by blast
    then obtain hs where "hm_get (fee_index m) rate = Some hs"
      by (metis mm_set_empty mm_dom_iff empty_iff not_None_eq)
    with Some that show thesis by blast
  qed (use that in blast)
  then have "hm_get (fee_cache m') g = (if g = h then None else hm_get (fee_cache m) g)
    \<and> mm_set (fee_index m') r = mm_set (fee_index m) r - {h}
    \<and> hm_get (fee_index m') r \<noteq> Some [] \<and> distinct (hm_get_or (fee_index m') r [])
    \<and> hm_wf (fee_index m') \<and> mm_dom (fee_basis m') = mm_dom (fee_basis m) - {h}"
  proof cases
    case absent
    then have "m' = m" by (simp add: m'_def remove_from_fee_index_def)
    moreover have "h \<notin> mm_set (fee_index m) r" using absent I(1) [of h r] by simp
    moreover have "h \<notin> mm_dom (fee_basis m)" using absent I(5) by (simp add: mm_dom_iff)
    ultimately show ?thesis using absent I by auto
  next
    case found
    let ?hs = "filter (\<lambda>x. x \<noteq> h) hs"
    have fields: "fee_cache m' = hm_remove h (fee_cache m)" "fee_basis m' = hm_remove h (fee_basis m)"
      "fee_index m' = (if ?hs = [] then hm_remove rate (fee_index m) else hm_insert rate ?hs (fee_index m))"
      using found by (simp_all add: m'_def remove_from_fee_index_def Let_def)
    have get: "hm_get (fee_index m') r =
        (if r = rate then if ?hs = [] then None else Some ?hs else hm_get (fee_index m) r)"
      by (simp add: fields update_conv' delete_conv')
    have only: "h \<notin> mm_set (fee_index m) r" if "r \<noteq> rate"
      using I(1) [of h r] found(1) that by simp
    have dist: "distinct hs" using I(3) [of rate] found(2) by (simp add: hm_get_or_def)
    have "mm_set (fee_index m') r = mm_set (fee_index m) r - {h}"
      using only found(2) by (auto simp: mm_set_def hm_get_or_def get filter_empty_conv)
    moreover have "distinct (hm_get_or (fee_index m') r [])"
      using I(3) [of r] dist by (simp add: hm_get_or_def get)
    moreover have "hm_wf (fee_index m')" using I(4) by (simp add: fields)
    moreover have "hm_get (fee_index m') r \<noteq> Some []" using I(2) [of r] by (simp add: get)
    ultimately show ?thesis by (simp add: fields delete_conv')
  qed
  then show "hm_get (fee_cache m') g = (if g = h then None else hm_get (fee_cache m) g)"
    and "mm_set (fee_index m') r = mm_set (fee_index m) r - {h}"
    and "hm_get (fee_index m') r \<noteq> Some []" and "distinct (hm_get_or (fee_index m') r [])"
    and "hm_wf (fee_index m')" and "mm_dom (fee_basis m') = mm_dom (fee_basis m) - {h}"
    by blast+
qed

lemma fee_inv_remove:
  assumes "fee_inv m"
  shows "fee_inv (remove_tx h m)"
proof (cases "hm_get (transactions m) h")
  case None
  then show ?thesis using assms by simp
next
  case (Some tx)
  note I = fee_invD [OF assms] and J = fee_inv_remove_index [OF assms, where h = h]
  have "mm_dom (fee_cache (remove_from_fee_index h m)) = mm_dom (fee_cache m) - {h}"
    by (auto simp: mm_dom_iff J(1) split: if_splits)
  then show ?thesis
    unfolding fee_inv_def remove_tx_fields [OF Some]
    using I J by auto
qed

lemmas pool_inv_parts = spend_inv_remove table_inv_remove graph_inv_remove fee_inv_remove

lemma pool_inv_insert:
  assumes "pool_inv P m" "calculate_tx_id P tx = h" "h \<notin> pooled m"
    and "\<forall>op \<in> set (prevouts tx). hm_get (spenders m) op = None"
  shows "pool_inv P (insert_admitted P now h w tx wits fee vsize rate m)"
  using assms unfolding pool_inv_def
  by (simp add: spend_inv_insert table_inv_insert graph_inv_insert fee_inv_insert)

lemma pool_inv_remove: "pool_inv P m \<Longrightarrow> pool_inv P (remove_tx h m)"
  unfolding pool_inv_def by (simp add: pool_inv_parts)

end
