(* ===== verification/Demo_Pool.thy ===== *)
theory Demo_Pool
  imports Mempool_Invariant Demo_Protocol
begin

text \<open>
  A small concrete pool used to apply the theorems about the mempool: a parent that spends a
  confirmed coin, a child that spends the parent's output, and a rival of the parent that is
  not pooled. Identifiers are the lock times 1, 2 and 3.
\<close>

definition demo_coin :: outpoint where
  "demo_coin = \<lparr> op_hash = 100, op_index = 0 \<rparr>"

definition demo_utxos :: utxo_set where
  "demo_utxos = [(demo_coin, \<lparr> utxo_value = 100000, utxo_script = [], utxo_height = 5,
                               utxo_is_coinbase = False \<rparr>)]"

definition demo_input :: "outpoint \<Rightarrow> tx_input" where
  "demo_input op = \<lparr> prevout = op, script_sig = [], sequence = 0 \<rparr>"

definition demo_spend :: "outpoint \<Rightarrow> int \<Rightarrow> u64 \<Rightarrow> transaction" where
  "demo_spend op v lt =
     \<lparr> version = 2, inputs = [demo_input op],
       outputs = [\<lparr> out_value = v, script_pubkey = [0, 1] \<rparr>], lock_time = lt \<rparr>"

definition demo_parent :: transaction where "demo_parent = demo_spend demo_coin 90000 1"
definition demo_child :: transaction where
  "demo_child = demo_spend \<lparr> op_hash = 1, op_index = 0 \<rparr> 80000 2"
definition demo_rival :: transaction where "demo_rival = demo_spend demo_coin 50000 3"

definition demo_pool1 :: mempool_manager where
  "demo_pool1 = insert_admitted demo 10 1 11 demo_parent (Some [[]]) 10000 100 100 new_mempool"

definition demo_pool :: mempool_manager where
  "demo_pool = insert_admitted demo 20 2 12 demo_child None 10000 100 100 demo_pool1"

lemma demo_prevouts [simp]:
  "prevouts demo_parent = [demo_coin]" "prevouts demo_rival = [demo_coin]"
  "prevouts demo_child = [\<lparr> op_hash = 1, op_index = 0 \<rparr>]"
  by (simp_all add: prevouts_def demo_parent_def demo_rival_def demo_child_def demo_spend_def demo_input_def)

lemma demo_ids [simp]:
  "lock_time demo_parent = 1" "lock_time demo_child = 2" "lock_time demo_rival = 3"
  by (simp_all add: demo_parent_def demo_rival_def demo_child_def demo_spend_def)

lemma new_mempool_fields [simp]:
  "transactions new_mempool = []" "spenders new_mempool = []" "pooled new_mempool = {}"
  "tx_descendants new_mempool = []" "tx_dependencies new_mempool = []"
  "adjusted_vsize new_mempool = []" "tx_witnesses new_mempool = []" "fee_cache new_mempool = []"
  "fee_index new_mempool = []" "fee_basis new_mempool = []" "fee_deltas new_mempool = []"
  "tx_timestamps new_mempool = []" "policy_config new_mempool = None" "rbf_tracking new_mempool = []"
  "mgr_rbf_config new_mempool = None" "utxo_set_arc new_mempool = None" "storage new_mempool = None"
  "chain_tip new_mempool = None" "snapshot_lookup new_mempool = None" "legacy_mempool new_mempool = []"
  "spent_outputs new_mempool = []" "wtxids new_mempool = []"
  by (simp_all add: new_mempool_def with_rbf_config_def pooled_def)

lemma demo_pool_fields [simp]:
  "transactions demo_pool = [(1, demo_parent), (2, demo_child)]"
  "spenders demo_pool = [(demo_coin, 1), (\<lparr> op_hash = 1, op_index = 0 \<rparr>, 2)]"
  "pooled demo_pool = {1, 2}"
  "tx_descendants demo_pool = [(1, [2]), (2, [])]" "tx_dependencies demo_pool = [(1, []), (2, [1])]"
  "adjusted_vsize demo_pool = [(1, 100), (2, 100)]" "tx_witnesses demo_pool = [(1, [[]])]"
  "fee_cache demo_pool = [(1, 100), (2, 100)]" "policy_config demo_pool = None"
  "rbf_tracking demo_pool = []" "mgr_rbf_config demo_pool = None" "storage demo_pool = None"
  "tx_timestamps demo_pool = [(1, 10), (2, 20)]" "chain_tip demo_pool = None"
  by (simp_all add: demo_pool_def demo_pool1_def mp_fields demo_coin_def hm_entry_default_def
      hm_entry_insert_def hm_get_or_def hs_insert_def insert_commute)

lemma demo_pool_inv: "pool_inv demo demo_pool"
  unfolding demo_pool_def
proof (rule pool_inv_insert)
  show "pool_inv demo demo_pool1"
    unfolding demo_pool1_def
    by (rule pool_inv_insert) (simp_all add: new_pool_inv new_mempool_def [symmetric]
      new_pool_inv [of demo None, folded new_mempool_def])
qed (simp_all add: demo_pool1_def mp_fields demo_coin_def)

end
