(* ===== verification/Worklist.thy ===== *)
theory Worklist
  imports Prelude
begin

text \<open>
  The three stack loops the graph walks of the node are instances of, over a successor
  function on a finite type (a block or transaction hash is 32 bytes, so every such walk
  ends). A Rust \<^verbatim>\<open>Vec\<close> used as a stack is a list whose head is the top.

  \<^item> \<open>walk_pop\<close> tests for membership when an element is popped;
  \<^item> \<open>walk_push\<close> tests when an element is pushed, so the start itself is not recorded;
  \<^item> \<open>walk_mark\<close> does both, with a separate set of processed elements.

  Each computes the set of elements reachable from its start.
\<close>

function walk_pop :: "('a::finite \<Rightarrow> 'a list) \<Rightarrow> 'a list \<Rightarrow> 'a list \<Rightarrow> 'a list" where
  "walk_pop succ [] seen = seen"
| "walk_pop succ (c # stack) seen =
     (if c \<in> set seen then walk_pop succ stack seen
      else walk_pop succ (rev (succ c) @ stack) (c # seen))"
  by pat_completeness auto

lemma card_compl_insert_less:
  "c \<notin> S \<Longrightarrow> card (UNIV - insert (c :: 'a::finite) S) < card (UNIV - S)"
  by (rule psubset_card_mono) auto

termination walk_pop
  by (relation "measures [\<lambda>(succ, stack, seen). card (UNIV - set seen),
                          \<lambda>(succ, stack, seen). length stack]")
    (auto simp: card_compl_insert_less simp del: card_Diff_insert)

fun push_new :: "'a list \<Rightarrow> 'a list \<Rightarrow> 'a list \<Rightarrow> 'a list \<times> 'a list" where
  "push_new [] out stack = (out, stack)"
| "push_new (c # cs) out stack =
     (if c \<in> set out then push_new cs out stack else push_new cs (c # out) (c # stack))"

lemma push_new_sets:
  "push_new cs out stack = (out', stack') \<Longrightarrow>
    set out' = set out \<union> set cs \<and> set stack' = set stack \<union> (set cs - set out)
    \<and> (distinct out \<longrightarrow> distinct out')
    \<and> (set out' = set out \<longrightarrow> stack' = stack)"
proof (induction cs out stack rule: push_new.induct)
  case (2 c cs out stack)
  show ?case
  proof (cases "c \<in> set out")
    case True
    with "2.IH"(1) "2.prems" show ?thesis by auto
  next
    case False
    with "2.prems" have "push_new cs (c # out) (c # stack) = (out', stack')" by simp
    from "2.IH"(2) [OF False this] False show ?thesis by auto
  qed
qed auto

function walk_push :: "('a::finite \<Rightarrow> 'a list) \<Rightarrow> 'a list \<Rightarrow> 'a list \<Rightarrow> 'a list" where
  "walk_push succ [] out = out"
| "walk_push succ (c # stack) out =
     walk_push succ (snd (push_new (succ c) out stack)) (fst (push_new (succ c) out stack))"
  by pat_completeness auto

termination walk_push
proof (relation "measures [\<lambda>(succ, stack, out). card (UNIV - set out),
                           \<lambda>(succ, stack, out). length stack]", simp)
  fix succ :: "'a \<Rightarrow> 'a list" and c :: 'a and stack out :: "'a list"
  obtain out' stack' where p: "push_new (succ c) out stack = (out', stack')" by fastforce
  note s = push_new_sets [OF p]
  have "set out' = set out \<longrightarrow> stack' = stack" using s by simp
  moreover have "card (UNIV - set out') < card (UNIV - set out)" if "set out' \<noteq> set out"
    using s that by (intro psubset_card_mono) auto
  ultimately show "((succ, snd (push_new (succ c) out stack), fst (push_new (succ c) out stack)),
      succ, c # stack, out) \<in> measures [\<lambda>(succ, stack, out). card (UNIV - set out),
                           \<lambda>(succ, stack, out). length stack]"
    using p by (cases "set out' = set out") auto
qed

function walk_mark ::
  "('a::finite \<Rightarrow> 'a list) \<Rightarrow> 'a list \<Rightarrow> 'a list \<Rightarrow> 'a list \<Rightarrow> 'a list" where
  "walk_mark succ [] out processed = out"
| "walk_mark succ (c # stack) out processed =
     (if c \<in> set processed then walk_mark succ stack out processed
      else walk_mark succ (snd (push_new (succ c) out stack))
             (fst (push_new (succ c) out stack)) (c # processed))"
  by pat_completeness auto

termination walk_mark
  by (relation "measures [\<lambda>(succ, stack, out, processed). card (UNIV - set processed),
                          \<lambda>(succ, stack, out, processed). length stack]")
    (auto simp: card_compl_insert_less simp del: card_Diff_insert)


section \<open>What the walks compute\<close>

definition edges :: "('a \<Rightarrow> 'a list) \<Rightarrow> ('a \<times> 'a) set" where
  "edges succ = {(x, y). y \<in> set (succ x)}"

lemma in_edges [simp]: "(x, y) \<in> edges succ \<longleftrightarrow> y \<in> set (succ x)"
  by (simp add: edges_def)

lemma Image_rtrancl_closed:
  assumes "\<And>x. x \<in> S \<Longrightarrow> set (succ x) \<subseteq> S"
  shows "(edges succ)\<^sup>* `` S = S"
proof -
  have "y \<in> S" if "(x, y) \<in> (edges succ)\<^sup>*" "x \<in> S" for x y
    using that by (induction rule: rtrancl_induct) (use assms in auto)
  then show ?thesis by auto
qed

lemma Image_rtrancl_absorb:
  assumes "c \<in> S"
  shows "(edges succ)\<^sup>* `` (S \<union> set (succ c)) = (edges succ)\<^sup>* `` S"
proof -
  have "(edges succ)\<^sup>* `` set (succ c) \<subseteq> (edges succ)\<^sup>* `` S"
  proof
    fix y
    assume "y \<in> (edges succ)\<^sup>* `` set (succ c)"
    then obtain x where "(c, x) \<in> edges succ" and "(x, y) \<in> (edges succ)\<^sup>*" by auto
    then have "(c, y) \<in> (edges succ)\<^sup>*" by (rule converse_rtrancl_into_rtrancl)
    with assms show "y \<in> (edges succ)\<^sup>* `` S" by blast
  qed
  then show ?thesis by (simp add: Image_Un sup_absorb1)
qed

lemma walk_pop_set_gen:
  "(\<And>x. x \<in> set seen \<Longrightarrow> set (succ x) \<subseteq> set seen \<union> set stack) \<Longrightarrow>
    set (walk_pop succ stack seen) = (edges succ)\<^sup>* `` (set seen \<union> set stack)"
proof (induction succ stack seen rule: walk_pop.induct)
  case (1 succ seen)
  then show ?case using Image_rtrancl_closed [of "set seen" succ] by simp
next
  case (2 succ c stack seen)
  show ?case
  proof (cases "c \<in> set seen")
    case True
    then have "set (walk_pop succ stack seen) = (edges succ)\<^sup>* `` (set seen \<union> set stack)"
      using "2.IH"(1) "2.prems" by auto
    with True show ?thesis by (simp add: insert_absorb)
  next
    case False
    then have "set (walk_pop succ (rev (succ c) @ stack) (c # seen))
        = (edges succ)\<^sup>* `` (set (c # seen) \<union> set (rev (succ c) @ stack))"
      using "2.IH"(2) "2.prems" by auto
    also have "\<dots> = (edges succ)\<^sup>* `` (set seen \<union> set (c # stack) \<union> set (succ c))"
      by (rule arg_cong [where f = "\<lambda>S. (edges succ)\<^sup>* `` S"]) auto
    also have "\<dots> = (edges succ)\<^sup>* `` (set seen \<union> set (c # stack))"
      by (rule Image_rtrancl_absorb) simp
    finally show ?thesis using False by simp
  qed
qed

theorem set_walk_pop: "set (walk_pop succ [r] []) = (edges succ)\<^sup>* `` {r}"
  using walk_pop_set_gen [of "[]" succ "[r]"] by simp

lemma distinct_walk_pop: "distinct seen \<Longrightarrow> distinct (walk_pop succ stack seen)"
  by (induction succ stack seen rule: walk_pop.induct) auto

lemma walk_push_set_gen:
  assumes "\<And>x. x \<in> S \<union> set out \<Longrightarrow> x \<in> set stack \<or> set (succ x) \<subseteq> set out"
    and "set stack \<subseteq> S \<union> set out" and "set out \<subseteq> (edges succ)\<^sup>+ `` S"
  shows "set (walk_push succ stack out) = (edges succ)\<^sup>+ `` S"
  using assms
proof (induction succ stack out rule: walk_push.induct)
  case (1 succ out)
  have "y \<in> set out" if "(x, y) \<in> (edges succ)\<^sup>+" "x \<in> S" for x y
    using that by (induction rule: trancl_induct) (use "1.prems"(1) in auto)
  with "1.prems"(3) show ?case by auto
next
  case (2 succ c stack out)
  obtain out' stack' where p: "push_new (succ c) out stack = (out', stack')" by fastforce
  note s = push_new_sets [OF p]
  have c: "c \<in> S \<union> set out" using "2.prems"(2) by simp
  have "set (succ c) \<subseteq> (edges succ)\<^sup>+ `` S"
  proof
    fix y
    assume "y \<in> set (succ c)"
    then have cy: "(c, y) \<in> edges succ" by simp
    from c show "y \<in> (edges succ)\<^sup>+ `` S"
    proof
      assume "c \<in> S"
      with cy show ?thesis by blast
    next
      assume "c \<in> set out"
      with "2.prems"(3) obtain x where "x \<in> S" and "(x, c) \<in> (edges succ)\<^sup>+" by blast
      with cy show ?thesis by (blast intro: trancl_into_trancl)
    qed
  qed
  then have sub: "set out' \<subseteq> (edges succ)\<^sup>+ `` S" using s "2.prems"(3) by simp
  have "set (walk_push succ stack' out') = (edges succ)\<^sup>+ `` S"
  proof (rule "2.IH" [unfolded p fst_conv snd_conv])
    fix x
    assume "x \<in> S \<union> set out'"
    then consider "x = c" | "x \<noteq> c" "x \<in> S \<union> set out" | "x \<in> set (succ c) - set out"
      using s by blast
    then show "x \<in> set stack' \<or> set (succ x) \<subseteq> set out'"
    proof cases
      case 1
      then show ?thesis using s by simp
    next
      case 2
      then show ?thesis using "2.prems"(1) [of x] s by auto
    next
      case 3
      then show ?thesis using s by simp
    qed
  next
    show "set stack' \<subseteq> S \<union> set out'" using "2.prems"(2) s by auto
  qed (fact sub)
  then show ?case by (simp add: p)
qed

theorem set_walk_push: "set (walk_push succ [r] []) = (edges succ)\<^sup>+ `` {r}"
  by (rule walk_push_set_gen) auto

lemma distinct_walk_push: "distinct out \<Longrightarrow> distinct (walk_push succ stack out)"
proof (induction succ stack out rule: walk_push.induct)
  case (2 succ c stack out)
  obtain out' stack' where "push_new (succ c) out stack = (out', stack')" by fastforce
  with "2" push_new_sets [OF this] show ?case by simp
qed simp

lemma walk_mark_set_gen:
  assumes "\<And>x. x \<in> set processed \<Longrightarrow> set (succ x) \<subseteq> set out"
    and "set out \<subseteq> set processed \<union> set stack" and "set stack \<subseteq> set out"
  shows "set (walk_mark succ stack out processed) = (edges succ)\<^sup>* `` set out"
  using assms
proof (induction succ stack out processed rule: walk_mark.induct)
  case (1 succ out processed)
  then show ?case using Image_rtrancl_closed [of "set out" succ] by auto
next
  case (2 succ c stack out processed)
  show ?case
  proof (cases "c \<in> set processed")
    case True
    then show ?thesis using "2.IH"(1) "2.prems" by auto
  next
    case False
    obtain out' stack' where p: "push_new (succ c) out stack = (out', stack')" by fastforce
    note s = push_new_sets [OF p]
    have "set (walk_mark succ stack' out' (c # processed)) = (edges succ)\<^sup>* `` set out'"
      using "2.IH"(2) [OF False] "2.prems" s by (simp add: p) blast
    also have "\<dots> = (edges succ)\<^sup>* `` set out"
      using Image_rtrancl_absorb [of c "set out" succ] s "2.prems"(3) by simp
    finally show ?thesis using False by (simp add: p)
  qed
qed

theorem set_walk_mark:
  "set stack = set out \<Longrightarrow> set (walk_mark succ stack out []) = (edges succ)\<^sup>* `` set out"
  by (rule walk_mark_set_gen) auto

lemma distinct_walk_mark: "distinct out \<Longrightarrow> distinct (walk_mark succ stack out processed)"
proof (induction succ stack out processed rule: walk_mark.induct)
  case (2 succ c stack out processed)
  obtain out' stack' where "push_new (succ c) out stack = (out', stack')" by fastforce
  with "2" push_new_sets [OF this] show ?case by simp
qed simp

declare walk_pop.simps [simp del] and walk_push.simps [simp del] and walk_mark.simps [simp del]

end
