(* ===== verification/Mempool_Graph.thy ===== *)
theory Mempool_Graph
  imports Demo_Pool Worklist
begin

text \<open>
  The walks over the dependency graph of the pool: descendants, replacement packages, the set a
  replacement removes, the clusters it conflicts with, and the ancestor and descendant limits.
  Each walk of the source is an instance of a loop of theory \<^verbatim>\<open>Worklist\<close>, and is shown to
  compute a reachability set.
\<close>


section \<open>Definitions\<close>

definition descendant_closure :: "(hash, hash hset) hmap \<Rightarrow> hash \<Rightarrow> hash list" where
  "descendant_closure d root = walk_push (\<lambda>h. hm_get_or d h []) [root] []"

definition pool_children :: "mempool_manager \<Rightarrow> hash \<Rightarrow> hash list" where
  "pool_children m h = filter (hm_contains (transactions m)) (hm_get_or (tx_descendants m) h [])"

definition replacement_package :: "mempool_manager \<Rightarrow> hash \<Rightarrow> hash list" where
  "replacement_package m root = walk_pop (pool_children m) [root] []"

definition direct_conflicts :: "mempool_manager \<Rightarrow> transaction \<Rightarrow> hash list" where
  "direct_conflicts m tx =
     foldl (\<lambda>direct op. case hm_get (spenders m) op of
         None \<Rightarrow> direct
       | Some h \<Rightarrow> if h \<in> set direct then direct else direct @ [h]) [] (prevouts tx)"

definition packages_of :: "mempool_manager \<Rightarrow> hash list \<Rightarrow> hash list" where
  "packages_of m direct = foldl (\<lambda>removed h. hs_extend removed (replacement_package m h)) [] direct"

definition txs_this_replacement_removes :: "mempool_manager \<Rightarrow> transaction \<Rightarrow> hash list" where
  "txs_this_replacement_removes m tx = packages_of m (direct_conflicts m tx)"

definition cluster_neighbours :: "mempool_manager \<Rightarrow> hash \<Rightarrow> hash list" where
  "cluster_neighbours m h =
     pool_children m h @
     (case hm_get (transactions m) h of
        None \<Rightarrow> []
      | Some tx \<Rightarrow> filter (hm_contains (transactions m)) (map op_hash (prevouts tx)))"

definition conflicting_cluster_count :: "mempool_manager \<Rightarrow> hash list \<Rightarrow> nat" where
  "conflicting_cluster_count m direct =
     snd (foldl (\<lambda>(seen, clusters) start.
       if \<not> hm_contains (transactions m) start \<or> start \<in> set seen then (seen, clusters)
       else (walk_pop (cluster_neighbours m) [start] seen, clusters + 1)) ([], 0) direct)"

text \<open>
  Ancestor and descendant limits. \<open>removed\<close> is the set admission deletes before the same count,
  \<open>pv\<close> the package preview.
\<close>

definition limit_known :: "mempool_manager \<Rightarrow> hash \<Rightarrow> bool" where
  "limit_known m h \<longleftrightarrow>
     hm_contains (transactions m) h \<or> hm_contains (preview_txs (mgr_package_preview m)) h"

definition limit_parents :: "mempool_manager \<Rightarrow> hash list \<Rightarrow> hash \<Rightarrow> hash list" where
  "limit_parents m removed h =
     filter (\<lambda>p. p \<notin> set removed)
       (case hm_get (transactions m) h of
          Some tx \<Rightarrow> filter (\<lambda>p. p \<notin> set removed \<and> limit_known m p) (map op_hash (prevouts tx))
        | None \<Rightarrow>
            (case hm_get (preview_txs (mgr_package_preview m)) h of
               Some (_, parents) \<Rightarrow> parents
             | None \<Rightarrow> []))"

definition limit_seeds :: "mempool_manager \<Rightarrow> hash list \<Rightarrow> transaction \<Rightarrow> hash list" where
  "limit_seeds m removed tx =
     filter (\<lambda>p. p \<notin> set removed \<and> limit_known m p) (map op_hash (prevouts tx))"

definition limit_ancestors :: "mempool_manager \<Rightarrow> hash list \<Rightarrow> transaction \<Rightarrow> hash list" where
  "limit_ancestors m removed tx =
     (let seeds = limit_seeds m removed tx
      in walk_mark (limit_parents m removed) (rev seeds) (hs_extend [] seeds) [])"

definition limit_vsize :: "mempool_manager \<Rightarrow> hash \<Rightarrow> u64" where
  "limit_vsize m h =
     (case hm_get (adjusted_vsize m) h of
        Some v \<Rightarrow> v
      | None \<Rightarrow>
          (case hm_get (preview_txs (mgr_package_preview m)) h of
             Some (v, _) \<Rightarrow> v
           | None \<Rightarrow> 0))"

definition limit_descendants :: "mempool_manager \<Rightarrow> hash list \<Rightarrow> hash \<Rightarrow> hash list" where
  "limit_descendants m removed a =
     filter (\<lambda>h. h \<notin> set removed)
       (hs_extend (descendant_closure (tx_descendants m) a)
                  (descendant_closure (preview_descendants (mgr_package_preview m)) a))"

definition check_ancestor_descendant_limits ::
  "mempool_manager \<Rightarrow> transaction \<Rightarrow> mempool_policy_config \<Rightarrow> u64 \<Rightarrow> bool" where
  "check_ancestor_descendant_limits m tx pol candidate_vsize =
     (let removed = txs_this_replacement_removes m tx;
          ancestors = limit_ancestors m removed tx;
          ancestor_count = of_nat (length ancestors) :: u32;
          ancestor_size = sum_list (map (limit_vsize m) ancestors)
      in if ancestor_count + 1 > max_ancestor_count pol then False
         else if ancestor_size + candidate_vsize > max_ancestor_size pol then False
         else list_all (\<lambda>ancestor.
           let existing = limit_descendants m removed ancestor;
               descendant_count = of_nat (length existing) + 1 :: u32
           in if descendant_count + 1 > max_descendant_count pol then False
              else
                let descendant_size = sum_list (map (limit_vsize m) existing)
                in \<not> (limit_vsize m ancestor + descendant_size + candidate_vsize
                       > max_descendant_size pol)) ancestors)"


section \<open>Reachability\<close>

text \<open>Parent and child as the graph of the pool records them.\<close>

definition child_rel :: "(hash, hash hset) hmap \<Rightarrow> (hash \<times> hash) set" where
  "child_rel d = {(p, c). c \<in> mm_set d p}"

lemma edges_child_rel: "edges (\<lambda>h. hm_get_or d h []) = child_rel d"
  by (auto simp: edges_def child_rel_def mm_set_def)

lemma set_descendant_closure: "set (descendant_closure d root) = (child_rel d)\<^sup>+ `` {root}"
  unfolding descendant_closure_def set_walk_push edges_child_rel ..

lemma distinct_descendant_closure: "distinct (descendant_closure d root)"
  by (simp add: descendant_closure_def distinct_walk_push)

lemma set_pool_children:
  "set (pool_children m h) = mm_set (tx_descendants m) h \<inter> pooled m"
  by (auto simp: pool_children_def mm_set_def pooled_def mm_dom_fst)

lemma child_pooled:
  assumes "graph_inv m" "c \<in> mm_set (tx_descendants m) p"
  shows "c \<in> pooled m"
proof -
  have "p \<in> mm_set (tx_dependencies m) c" using graph_invD(3) [OF assms(1)] assms(2) by blast
  from graph_invD(5) [OF assms(1) this] show ?thesis by (auto simp: pooled_def mm_dom_iff)
qed

lemma pool_children_graph:
  assumes "graph_inv m"
  shows "edges (pool_children m) = child_rel (tx_descendants m)"
  using child_pooled [OF assms] by (auto simp: edges_def child_rel_def set_pool_children)

lemma set_replacement_package_gen:
  "set (replacement_package m root) = (edges (pool_children m))\<^sup>* `` {root}"
  by (simp add: replacement_package_def set_walk_pop)

lemma distinct_replacement_package: "distinct (replacement_package m root)"
  by (simp add: replacement_package_def distinct_walk_pop)

lemma root_in_package: "root \<in> set (replacement_package m root)"
  by (simp add: set_replacement_package_gen)

lemma package_pooled:
  assumes "root \<in> pooled m"
  shows "set (replacement_package m root) \<subseteq> pooled m"
proof -
  have "y \<in> pooled m" if "(root, y) \<in> (edges (pool_children m))\<^sup>*" for y
    using that assms by (induction rule: rtrancl_induct) (auto simp: set_pool_children)
  then show ?thesis by (auto simp: set_replacement_package_gen)
qed

lemma set_direct_conflicts:
  "set (direct_conflicts m tx) = {h. \<exists>op \<in> set (prevouts tx). hm_get (spenders m) op = Some h}"
proof -
  have "set (foldl (\<lambda>direct op. case hm_get (spenders m) op of None \<Rightarrow> direct
       | Some h \<Rightarrow> if h \<in> set direct then direct else direct @ [h]) d ops)
     = set d \<union> {h. \<exists>op \<in> set ops. hm_get (spenders m) op = Some h}" for d ops
    by (induction ops arbitrary: d) (auto split: option.split)
  then show ?thesis by (simp add: direct_conflicts_def)
qed

lemma set_packages_of: "set (packages_of m direct) = (\<Union>h \<in> set direct. set (replacement_package m h))"
proof -
  have "set (foldl (\<lambda>removed h. hs_extend removed (replacement_package m h)) r ds)
      = set r \<union> (\<Union>h \<in> set ds. set (replacement_package m h))" for r ds
    by (induction ds arbitrary: r) auto
  then show ?thesis by (simp add: packages_of_def)
qed

lemma removed_eq:
  assumes "graph_inv m"
  shows "set (txs_this_replacement_removes m tx) =
    (child_rel (tx_descendants m))\<^sup>* `` {h. \<exists>op \<in> set (prevouts tx). hm_get (spenders m) op = Some h}"
  by (auto simp: txs_this_replacement_removes_def set_packages_of set_replacement_package_gen
      pool_children_graph [OF assms] set_direct_conflicts)


section \<open>Packages and clusters\<close>

text \<open>
  C25. The replacement package of a pooled transaction is exactly the transaction and everything
  reachable from it along the recorded child edges, each once; all of it is pooled. A
  package is therefore closed: it never leaves behind a recorded child of a member.
\<close>

theorem replacement_package_reachable:
  assumes "graph_inv m" and "root \<in> pooled m"
  shows "set (replacement_package m root) = (child_rel (tx_descendants m))\<^sup>* `` {root}
    \<and> distinct (replacement_package m root)
    \<and> set (replacement_package m root) \<subseteq> pooled m
    \<and> (\<forall>p \<in> set (replacement_package m root).
         mm_set (tx_descendants m) p \<subseteq> set (replacement_package m root))"
proof (intro conjI)
  show eq: "set (replacement_package m root) = (child_rel (tx_descendants m))\<^sup>* `` {root}"
    by (simp add: set_replacement_package_gen pool_children_graph [OF assms(1)])
  show "distinct (replacement_package m root)" by (rule distinct_replacement_package)
  show "set (replacement_package m root) \<subseteq> pooled m" by (rule package_pooled [OF assms(2)])
  show "\<forall>p \<in> set (replacement_package m root).
      mm_set (tx_descendants m) p \<subseteq> set (replacement_package m root)"
    unfolding eq by (auto simp: child_rel_def intro: rtrancl_into_rtrancl)
qed

theorem replacement_package_reachable_witness:
  "set (replacement_package demo_pool 1) = {1, 2} \<and> distinct (replacement_package demo_pool 1)"
proof -
  have "graph_inv demo_pool" using demo_pool_inv by (simp add: pool_inv_def)
  from replacement_package_reachable [OF this, of 1]
  have "distinct (replacement_package demo_pool 1)" by simp
  then show ?thesis
    by (simp add: replacement_package_def walk_pop.simps pool_children_def hm_get_or_def insert_commute)
qed

text \<open>Every spend of a pooled output by a pooled transaction is recorded.\<close>

definition graph_complete :: "mempool_manager \<Rightarrow> bool" where
  "graph_complete m \<longleftrightarrow>
     (\<forall>c tx p. hm_get (transactions m) c = Some tx \<longrightarrow> p \<in> op_hash ` set (prevouts tx)
        \<longrightarrow> p \<in> pooled m \<longrightarrow> c \<in> mm_set (tx_descendants m) p)"

text \<open>The spends between pooled transactions, in either direction.\<close>

definition spend_neighbours :: "mempool_manager \<Rightarrow> (hash \<times> hash) set" where
  "spend_neighbours m =
     {(a, b). a \<in> pooled m \<and> b \<in> pooled m
        \<and> ((\<exists>tx. hm_get (transactions m) a = Some tx \<and> b \<in> op_hash ` set (prevouts tx))
         \<or> (\<exists>tx. hm_get (transactions m) b = Some tx \<and> a \<in> op_hash ` set (prevouts tx)))}"

lemma sym_spend_neighbours: "sym (spend_neighbours m)"
  by (auto simp: sym_def spend_neighbours_def)

lemma cluster_edges:
  assumes "graph_inv m" "graph_complete m" "a \<in> pooled m"
  shows "(a, b) \<in> edges (cluster_neighbours m) \<longleftrightarrow> (a, b) \<in> spend_neighbours m"
proof -
  obtain tx where tx: "hm_get (transactions m) a = Some tx"
    using assms(3) by (auto simp: pooled_def mm_dom_iff)
  have child: "b \<in> mm_set (tx_descendants m) a \<and> b \<in> pooled m \<longleftrightarrow>
      b \<in> pooled m \<and> (\<exists>tx. hm_get (transactions m) b = Some tx \<and> a \<in> op_hash ` set (prevouts tx))"
    using graph_invD(3,5) [OF assms(1)] assms(2,3) unfolding graph_complete_def by blast
  show ?thesis
    using child assms(3) tx
    by (auto simp: cluster_neighbours_def set_pool_children spend_neighbours_def pooled_def mm_dom_fst)
qed

lemma cluster_component:
  assumes "graph_inv m" "graph_complete m" "a \<in> pooled m"
  shows "(edges (cluster_neighbours m))\<^sup>* `` {a} = (spend_neighbours m)\<^sup>* `` {a}"
proof -
  have "(a, b) \<in> (edges (cluster_neighbours m))\<^sup>* \<Longrightarrow> b \<in> pooled m \<and> (a, b) \<in> (spend_neighbours m)\<^sup>*" for b
  proof (induction rule: rtrancl_induct)
    case (step y z)
    then have "(y, z) \<in> spend_neighbours m" using cluster_edges [OF assms(1,2)] by blast
    with step.IH show ?case by (auto simp: spend_neighbours_def intro: rtrancl_into_rtrancl)
  qed (use assms(3) in auto)
  moreover have "(a, b) \<in> (spend_neighbours m)\<^sup>* \<Longrightarrow> (a, b) \<in> (edges (cluster_neighbours m))\<^sup>*" for b
  proof (induction rule: rtrancl_induct)
    case (step y z)
    then have "y \<in> pooled m" by (simp add: spend_neighbours_def)
    with step cluster_edges [OF assms(1,2)] show ?case by (meson rtrancl_into_rtrancl)
  qed auto
  ultimately show ?thesis by blast
qed

definition component :: "mempool_manager \<Rightarrow> hash \<Rightarrow> hash set" where
  "component m a = (spend_neighbours m)\<^sup>* `` {a}"

lemma component_self: "a \<in> component m a"
  by (simp add: component_def)

lemma component_eq: "b \<in> component m a \<Longrightarrow> component m b = component m a"
proof -
  assume b: "b \<in> component m a"
  have "sym ((spend_neighbours m)\<^sup>*)" by (rule sym_rtrancl [OF sym_spend_neighbours])
  with b show ?thesis unfolding component_def sym_def by (auto intro: rtrancl_trans)
qed

lemma component_pooled: "a \<in> pooled m \<Longrightarrow> component m a \<subseteq> pooled m"
proof -
  assume a: "a \<in> pooled m"
  have "b \<in> pooled m" if "(a, b) \<in> (spend_neighbours m)\<^sup>*" for b
    using that a by (induction rule: rtrancl_induct) (auto simp: spend_neighbours_def)
  then show ?thesis by (auto simp: component_def)
qed

lemma cluster_walk:
  assumes "graph_inv m" "graph_complete m" "start \<in> pooled m" "S \<subseteq> pooled m"
    and "set seen = \<Union> (component m ` S)"
  shows "set (walk_pop (cluster_neighbours m) [start] seen) = \<Union> (component m ` insert start S)"
proof -
  have sub: "set seen \<subseteq> pooled m" using assms(4,5) component_pooled by blast
  have closed: "set (cluster_neighbours m x) \<subseteq> set seen" if x: "x \<in> set seen" for x
  proof
    fix y
    assume y: "y \<in> set (cluster_neighbours m x)"
    obtain a where a: "a \<in> S" "x \<in> component m a" using x assms(5) by blast
    have "(x, y) \<in> spend_neighbours m"
      using y x sub cluster_edges [OF assms(1,2), of x y] by auto
    then have "y \<in> component m a" using a(2) by (auto simp: component_def intro: rtrancl_into_rtrancl)
    with a(1) assms(5) show "y \<in> set seen" by blast
  qed
  have "set (walk_pop (cluster_neighbours m) [start] seen)
      = (edges (cluster_neighbours m))\<^sup>* `` (set seen \<union> {start})"
    using walk_pop_set_gen [of seen "cluster_neighbours m" "[start]"] closed by auto
  also have "\<dots> = set seen \<union> component m start"
    unfolding Image_Un component_def
    using Image_rtrancl_closed [of "set seen" "cluster_neighbours m"] closed
      cluster_component [OF assms(1,2,3)] by simp
  finally show ?thesis using assms(5) by auto
qed

lemma cluster_fold:
  assumes "graph_inv m" "graph_complete m"
  shows "S \<subseteq> pooled m \<Longrightarrow> finite S \<Longrightarrow> set seen = \<Union> (component m ` S) \<Longrightarrow>
    snd (foldl (\<lambda>(seen, clusters) start.
       if \<not> hm_contains (transactions m) start \<or> start \<in> set seen then (seen, clusters)
       else (walk_pop (cluster_neighbours m) [start] seen, clusters + 1))
       (seen, card (component m ` S)) direct)
     = card (component m ` (S \<union> (set direct \<inter> pooled m)))"
proof (induction direct arbitrary: S seen)
  case Nil
  then show ?case by simp
next
  case (Cons start direct)
  have pooled_iff: "hm_contains (transactions m) h \<longleftrightarrow> h \<in> pooled m" for h
    by (simp add: pooled_def mm_dom_fst)
  consider "start \<notin> pooled m" | "start \<in> set seen" "start \<in> pooled m"
    | "start \<in> pooled m" "start \<notin> set seen" by blast
  then show ?case
  proof cases
    case 1
    then have "set (start # direct) \<inter> pooled m = set direct \<inter> pooled m" by auto
    with 1 Cons show ?thesis by (simp add: pooled_iff del: hm_contains_iff)
  next
    case 2
    then obtain a where "a \<in> S" "start \<in> component m a" using Cons.prems(3) by blast
    then have "component m start \<in> component m ` S" using component_eq [of start m a] by blast
    then have "component m ` (S \<union> (set (start # direct) \<inter> pooled m)) =
        component m ` (S \<union> (set direct \<inter> pooled m))" by auto
    with 2 Cons show ?thesis by (simp add: pooled_iff del: hm_contains_iff)
  next
    case 3
    have "component m start \<notin> component m ` S"
      using 3(2) Cons.prems(3) component_self [of start m] by blast
    then have card: "card (component m ` S) + 1 = card (component m ` insert start S)"
      using Cons.prems(2) by simp
    have "S \<union> (set (start # direct) \<inter> pooled m) = insert start S \<union> (set direct \<inter> pooled m)"
      using 3 by auto
    then show ?thesis
      using 3 Cons.IH [of "insert start S" "walk_pop (cluster_neighbours m) [start] seen"] Cons.prems
        cluster_walk [OF assms 3(1) Cons.prems(1,3)] card
      by (simp add: pooled_iff del: hm_contains_iff)
  qed
qed

text \<open>
  While the recorded graph is complete, the number of conflicting clusters is the number of
  connected components, under spends between pooled transactions, that the direct conflicts
  fall into.
\<close>

lemma conflicting_cluster_count_spec:
  assumes "graph_inv m" "graph_complete m"
  shows "conflicting_cluster_count m direct = card (component m ` (set direct \<inter> pooled m))"
  using cluster_fold [OF assms, of "{}" "[]" direct] by (simp add: conflicting_cluster_count_def)

lemma conflicting_cluster_count_spec_witness: "conflicting_cluster_count demo_pool [1, 2, 7] = 1"
proof -
  have g: "graph_inv demo_pool" using demo_pool_inv by (simp add: pool_inv_def)
  have c: "graph_complete demo_pool"
    by (auto simp: graph_complete_def demo_coin_def mm_set_def hm_get_or_def split: if_splits)
  have "(1, 2) \<in> spend_neighbours demo_pool"
    by (simp add: spend_neighbours_def)
  then have "component demo_pool 2 = component demo_pool 1"
    by (intro component_eq) (auto simp: component_def)
  then show ?thesis
    unfolding conflicting_cluster_count_spec [OF g c] by (simp add: Int_insert_left)
qed


section \<open>Ancestor and descendant limits\<close>

text \<open>The reachability sets behind the limits.\<close>

definition ancestor_set :: "mempool_manager \<Rightarrow> transaction \<Rightarrow> hash set" where
  "ancestor_set m tx =
     (let removed = txs_this_replacement_removes m tx
      in (edges (limit_parents m removed))\<^sup>* `` set (limit_seeds m removed tx))"

definition descendant_set :: "mempool_manager \<Rightarrow> transaction \<Rightarrow> hash \<Rightarrow> hash set" where
  "descendant_set m tx a =
     ((child_rel (tx_descendants m))\<^sup>+ `` {a}
      \<union> (child_rel (preview_descendants (mgr_package_preview m)))\<^sup>+ `` {a})
     - set (txs_this_replacement_removes m tx)"

definition vsize_sum :: "mempool_manager \<Rightarrow> hash set \<Rightarrow> nat" where
  "vsize_sum m S = (\<Sum>h \<in> S. unat (limit_vsize m h))"

lemma set_limit_ancestors:
  "set (limit_ancestors m (txs_this_replacement_removes m tx) tx) = ancestor_set m tx"
  by (simp add: limit_ancestors_def ancestor_set_def Let_def set_walk_mark)

lemma distinct_limit_ancestors: "distinct (limit_ancestors m removed tx)"
  by (simp add: limit_ancestors_def Let_def distinct_walk_mark)

lemma set_limit_descendants:
  "set (limit_descendants m (txs_this_replacement_removes m tx) a) = descendant_set m tx a"
  by (auto simp: limit_descendants_def descendant_set_def set_descendant_closure)

lemma distinct_limit_descendants: "distinct (limit_descendants m removed a)"
  by (simp add: limit_descendants_def distinct_descendant_closure)

lemma unat_sum_list:
  "(\<Sum>x\<leftarrow>xs. unat (f x)) < 2 ^ LENGTH('b) \<Longrightarrow> unat (\<Sum>x\<leftarrow>xs. f x :: 'b::len word) = (\<Sum>x\<leftarrow>xs. unat (f x))"
  by (induction xs) (simp_all add: unat_word_ariths)

lemma unat_vsize_list:
  assumes "distinct xs" "vsize_sum m (set xs) < 2 ^ 64"
  shows "unat (\<Sum>h\<leftarrow>xs. limit_vsize m h) = vsize_sum m (set xs)"
proof -
  have "vsize_sum m (set xs) = (\<Sum>h\<leftarrow>xs. unat (limit_vsize m h))"
    using assms(1) by (simp add: vsize_sum_def sum_list_distinct_conv_sum_set)
  with assms(2) show ?thesis using unat_sum_list [of "limit_vsize m" xs] by simp
qed

text \<open>No count or size of the check reaches the width of its type.\<close>

definition limits_fit :: "mempool_manager \<Rightarrow> transaction \<Rightarrow> u64 \<Rightarrow> bool" where
  "limits_fit m tx candidate_vsize \<longleftrightarrow>
     card (ancestor_set m tx) + 1 < 2 ^ 32
   \<and> vsize_sum m (ancestor_set m tx) + unat candidate_vsize < 2 ^ 64
   \<and> (\<forall>a \<in> ancestor_set m tx. card (descendant_set m tx a) + 2 < 2 ^ 32
       \<and> unat (limit_vsize m a) + vsize_sum m (descendant_set m tx a) + unat candidate_vsize < 2 ^ 64)"

text \<open>
  C20. The limit check accepts a candidate exactly when, after the transactions it would replace are
  left out, it and its unconfirmed ancestors stay within the ancestor count and size, and
  every ancestor together with its descendants and the candidate stays within the descendant
  count and size, provided no sum exceeds its machine type.
\<close>

theorem check_limits_spec:
  assumes "limits_fit m tx candidate_vsize"
  shows "check_ancestor_descendant_limits m tx pol candidate_vsize \<longleftrightarrow>
    card (ancestor_set m tx) + 1 \<le> unat (max_ancestor_count pol)
    \<and> vsize_sum m (ancestor_set m tx) + unat candidate_vsize \<le> unat (max_ancestor_size pol)
    \<and> (\<forall>a \<in> ancestor_set m tx.
         card (descendant_set m tx a) + 2 \<le> unat (max_descendant_count pol)
         \<and> unat (limit_vsize m a) + vsize_sum m (descendant_set m tx a) + unat candidate_vsize
             \<le> unat (max_descendant_size pol))"
proof -
  let ?r = "txs_this_replacement_removes m tx"
  let ?A = "limit_ancestors m ?r tx"
  have lenA: "length ?A = card (ancestor_set m tx)"
    using distinct_card [OF distinct_limit_ancestors] set_limit_ancestors by metis
  have lenD: "length (limit_descendants m ?r a) = card (descendant_set m tx a)" for a
    using distinct_card [OF distinct_limit_descendants] set_limit_descendants by metis
  note fit = assms [unfolded limits_fit_def]
  have cntA: "unat (of_nat (length ?A) + 1 :: u32) = card (ancestor_set m tx) + 1"
    using fit by (simp add: lenA unat_word_ariths unat_of_nat)
  have szA: "unat ((\<Sum>h\<leftarrow>?A. limit_vsize m h) + candidate_vsize)
      = vsize_sum m (ancestor_set m tx) + unat candidate_vsize"
    using fit unat_vsize_list [OF distinct_limit_ancestors, of m m ?r tx]
    by (simp add: set_limit_ancestors unat_word_ariths)
  have cntD: "unat (of_nat (length (limit_descendants m ?r a)) + 1 + 1 :: u32)
      = card (descendant_set m tx a) + 2" if "a \<in> ancestor_set m tx" for a
  proof -
    have "card (descendant_set m tx a) + 2 < 2 ^ 32" using fit that by blast
    then show ?thesis by (simp add: lenD unat_word_ariths unat_of_nat)
  qed
  have szD: "unat (limit_vsize m a + (\<Sum>h\<leftarrow>limit_descendants m ?r a. limit_vsize m h) + candidate_vsize)
      = unat (limit_vsize m a) + vsize_sum m (descendant_set m tx a) + unat candidate_vsize"
    if "a \<in> ancestor_set m tx" for a
  proof -
    have le: "unat (limit_vsize m a) + vsize_sum m (descendant_set m tx a) + unat candidate_vsize < 2 ^ 64"
      using fit that by blast
    then have "unat (\<Sum>h\<leftarrow>limit_descendants m ?r a. limit_vsize m h) = vsize_sum m (descendant_set m tx a)"
      using unat_vsize_list [OF distinct_limit_descendants, of m m ?r a]
      by (simp add: set_limit_descendants)
    with le show ?thesis by (simp add: unat_word_ariths)
  qed
  show ?thesis
    unfolding check_ancestor_descendant_limits_def Let_def list_all_iff set_limit_ancestors
      word_less_nat_alt cntA szA
    using cntD szD by (auto simp: not_less)
qed

theorem check_limits_spec_witness:
  "check_ancestor_descendant_limits demo_pool (demo_spend \<lparr> op_hash = 2, op_index = 0 \<rparr> 70000 4)
     default_policy 100"
proof -
  let ?tx = "demo_spend \<lparr> op_hash = 2, op_index = 0 \<rparr> 70000 4"
  have pv: "prevouts ?tx = [\<lparr> op_hash = 2, op_index = 0 \<rparr>]"
    by (simp add: prevouts_def demo_spend_def demo_input_def)
  have pre: "mgr_package_preview demo_pool = empty_preview"
    by (simp add: demo_pool_def demo_pool1_def insert_admitted_def Let_def update_dependency_graph_eq
      pool_insert_def invalidate_fee_ranking_def new_mempool_def with_rbf_config_def)
  have r: "txs_this_replacement_removes demo_pool ?tx = []"
    by (simp add: txs_this_replacement_removes_def packages_of_def direct_conflicts_def pv demo_coin_def)
  have "limit_ancestors demo_pool [] ?tx = [1, 2]"
    by (simp add: limit_ancestors_def limit_seeds_def pv limit_known_def hs_extend_def hs_insert_def
      walk_mark.simps limit_parents_def demo_coin_def pre empty_preview_def)
  then have A: "ancestor_set demo_pool ?tx = {1, 2}"
    using set_limit_ancestors [of demo_pool ?tx] r by simp
  have "limit_descendants demo_pool [] 1 = [2]" "limit_descendants demo_pool [] 2 = []"
    by (simp_all add: limit_descendants_def descendant_closure_def walk_push.simps hm_get_or_def pre
      empty_preview_def hs_extend_def)
  then have D: "descendant_set demo_pool ?tx 1 = {2}" "descendant_set demo_pool ?tx 2 = {}"
    using set_limit_descendants [of demo_pool ?tx 1] set_limit_descendants [of demo_pool ?tx 2] r by simp_all
  have "limits_fit demo_pool ?tx 100"
    unfolding limits_fit_def A using D by (simp add: vsize_sum_def limit_vsize_def)
  from check_limits_spec [OF this, of default_policy] show ?thesis
    unfolding A using D by (simp add: vsize_sum_def limit_vsize_def default_policy_def)
qed

end
