(* ===== verification/Mempool_View.thy ===== *)
theory Mempool_View
  imports Mempool_State Demo_Protocol
begin

text \<open>
  What the mempool reads of a candidate transaction: the coins it spends (from the UTXO set it
  is given, or created by a pooled parent), the money and lock-time checks over them, the fee
  and the sizes. The fee is shown to be the difference of the sums of its inputs and outputs.
\<close>


section \<open>Coins\<close>

definition pooled_output :: "mempool_manager \<Rightarrow> outpoint \<Rightarrow> tx_output option" where
  "pooled_output m op =
     Option.bind (hm_get (transactions m) (op_hash op))
       (\<lambda>parent. list_get (outputs parent) (unat (op_index op)))"

definition script_prevouts ::
  "mempool_manager \<Rightarrow> transaction \<Rightarrow> utxo_set \<Rightarrow> input_prevout option list" where
  "script_prevouts m tx us =
     map (\<lambda>inp. case hm_get us (prevout inp) of
            Some u \<Rightarrow> Some \<lparr> ip_value = utxo_value u, ip_script = utxo_script u \<rparr>
          | None \<Rightarrow> map_option (\<lambda>out. \<lparr> ip_value = out_value out, ip_script = script_pubkey out \<rparr>)
                      (pooled_output m (prevout inp)))
       (inputs tx)"

definition mempool_creates :: "mempool_manager \<Rightarrow> outpoint \<Rightarrow> bool" where
  "mempool_creates m op = (pooled_output m op \<noteq> None)"

definition mempool_input_value :: "'a tx_api_scheme \<Rightarrow> mempool_manager \<Rightarrow> outpoint \<Rightarrow> u64 option" where
  "mempool_input_value P m op = Option.bind (pooled_output m op) (\<lambda>out. money_sats P (out_value out))"

definition snapshot_prevout :: "mempool_manager \<Rightarrow> outpoint \<Rightarrow> utxo option" where
  "snapshot_prevout m op = Option.bind (snapshot_lookup m) (\<lambda>lookup. lookup op)"

definition fill_snapshot_misses :: "mempool_manager \<Rightarrow> transaction \<Rightarrow> utxo_set \<Rightarrow> utxo_set" where
  "fill_snapshot_misses m tx us =
     foldl (\<lambda>us op.
       if hm_contains us op \<or> mempool_creates m op then us
       else case snapshot_prevout m op of
         None \<Rightarrow> us
       | Some u \<Rightarrow> hm_insert op u us) us (prevouts tx)"

definition unknown_prevout :: "mempool_manager \<Rightarrow> transaction \<Rightarrow> utxo_set \<Rightarrow> bool \<Rightarrow> bool" where
  "unknown_prevout m tx us utxo_wired =
     (if \<not> utxo_wired then False
      else list_ex (\<lambda>op. hm_get us op = None \<and> \<not> mempool_creates m op) (prevouts tx))"

definition immature_coinbase_spend ::
  "'a tx_api_scheme \<Rightarrow> mempool_manager \<Rightarrow> transaction \<Rightarrow> utxo_set \<Rightarrow> bool" where
  "immature_coinbase_spend P m tx us =
     (let height = unconfirmed_coin_height P m in
      list_ex (\<lambda>op. case hm_get us op of
          None \<Rightarrow> False
        | Some u \<Rightarrow> \<not> check_coinbase_maturity P height (utxo_height u) (utxo_is_coinbase u))
        (prevouts tx))"


section \<open>Money\<close>

definition prevout_value_out_of_range :: "'a tx_api_scheme \<Rightarrow> transaction \<Rightarrow> utxo_set \<Rightarrow> bool" where
  "prevout_value_out_of_range P tx us =
     list_ex (\<lambda>op. case hm_get us op of
         None \<Rightarrow> False | Some u \<Rightarrow> money_sats P (utxo_value u) = None) (prevouts tx)"

text \<open>\<^verbatim>\<open>prevout_sum_exceeds_money\<close>, with the running sum as the second argument.\<close>

fun prevout_sum_loop ::
  "'a tx_api_scheme \<Rightarrow> mempool_manager \<Rightarrow> utxo_set \<Rightarrow> u64 \<Rightarrow> outpoint list \<Rightarrow> bool" where
  "prevout_sum_loop P m us acc [] = False"
| "prevout_sum_loop P m us acc (op # ops) =
     (case hm_get us op of
        Some u \<Rightarrow>
          (case money_sats P (utxo_value u) of
             None \<Rightarrow> True
           | Some sats \<Rightarrow>
               (case add_money P acc sats of None \<Rightarrow> True | Some s \<Rightarrow> prevout_sum_loop P m us s ops))
      | None \<Rightarrow>
          (case mempool_input_value P m op of
             None \<Rightarrow> prevout_sum_loop P m us acc ops
           | Some sats \<Rightarrow>
               (case add_money P acc sats of None \<Rightarrow> True | Some s \<Rightarrow> prevout_sum_loop P m us s ops)))"

definition prevout_sum_exceeds_money ::
  "'a tx_api_scheme \<Rightarrow> mempool_manager \<Rightarrow> transaction \<Rightarrow> utxo_set \<Rightarrow> bool" where
  "prevout_sum_exceeds_money P m tx us = prevout_sum_loop P m us 0 (prevouts tx)"

definition input_sats ::
  "'a tx_api_scheme \<Rightarrow> mempool_manager \<Rightarrow> utxo_set \<Rightarrow> outpoint \<Rightarrow> u64 option" where
  "input_sats P m us op =
     (case hm_get us op of
        Some u \<Rightarrow> money_sats P (utxo_value u)
      | None \<Rightarrow> mempool_input_value P m op)"

text \<open>Sum of every input; \<open>None\<close> when one is unknown or the sum leaves the money range.\<close>

fun strict_input_sum ::
  "'a tx_api_scheme \<Rightarrow> mempool_manager \<Rightarrow> utxo_set \<Rightarrow> u64 \<Rightarrow> outpoint list \<Rightarrow> u64 option" where
  "strict_input_sum P m us acc [] = Some acc"
| "strict_input_sum P m us acc (op # ops) =
     (case input_sats P m us op of
        None \<Rightarrow> None
      | Some sats \<Rightarrow>
          (case add_money P acc sats of
             None \<Rightarrow> None
           | Some s \<Rightarrow> strict_input_sum P m us s ops))"

definition outputs_exceed_inputs ::
  "'a tx_api_scheme \<Rightarrow> mempool_manager \<Rightarrow> transaction \<Rightarrow> utxo_set \<Rightarrow> bool" where
  "outputs_exceed_inputs P m tx us =
     (case output_sum_sats P tx of
        None \<Rightarrow> False
      | Some output_total \<Rightarrow>
          (case strict_input_sum P m us 0 (prevouts tx) of
             None \<Rightarrow> False
           | Some input_total \<Rightarrow> output_total > input_total))"

text \<open>The sum of \<^verbatim>\<open>calculate_transaction_fee\<close>: an unknown input is skipped.\<close>

fun fee_input_sum ::
  "'a tx_api_scheme \<Rightarrow> mempool_manager \<Rightarrow> utxo_set \<Rightarrow> u64 \<Rightarrow> outpoint list \<Rightarrow> u64 option" where
  "fee_input_sum P m us acc [] = Some acc"
| "fee_input_sum P m us acc (op # ops) =
     (case input_sats P m us op of
        None \<Rightarrow> fee_input_sum P m us acc ops
      | Some sats \<Rightarrow>
          (case add_money P acc sats of
             None \<Rightarrow> None
           | Some s \<Rightarrow> fee_input_sum P m us s ops))"

definition calculate_transaction_fee ::
  "'a tx_api_scheme \<Rightarrow> mempool_manager \<Rightarrow> transaction \<Rightarrow> utxo_set \<Rightarrow> u64" where
  "calculate_transaction_fee P m tx us =
     (case fee_input_sum P m us 0 (prevouts tx) of
        None \<Rightarrow> 0
      | Some input_total \<Rightarrow>
          (case output_sum_sats P tx of
             None \<Rightarrow> 0
           | Some output_total \<Rightarrow> saturating_sub input_total output_total))"



section \<open>Relative lock times\<close>

text \<open>
  The loop of \<^verbatim>\<open>relative_lock_rejects\<close> that collects the median time before each spent coin;
  \<open>None\<close> where the loop returns \<^verbatim>\<open>true\<close>.
\<close>

fun prev_mtps_loop ::
  "'a tx_api_scheme \<Rightarrow> mempool_manager \<Rightarrow> utxo_set \<Rightarrow> int \<Rightarrow> tx_input list \<Rightarrow> int list option" where
  "prev_mtps_loop P m us block_mtp_i [] = Some []"
| "prev_mtps_loop P m us block_mtp_i (inp # inps) =
     (let seq = ucast (sequence inp) :: u32;
          here =
            (if is_sequence_disabled P seq \<or> \<not> extract_sequence_type_flag P seq then Some (- 1)
             else case hm_get us (prevout inp) of
               Some u \<Rightarrow>
                 (case prior_median_time P m (utxo_height u) of
                    Some mtp \<Rightarrow> Some mtp
                  | None \<Rightarrow>
                      if extract_sequence_locktime_value P seq = 0 \<and> block_mtp_i \<ge> 0
                      then Some block_mtp_i else None)
             | None \<Rightarrow>
                 if mempool_creates m (prevout inp) \<and> block_mtp_i \<ge> 0 then Some block_mtp_i else None)
      in case here of
           None \<Rightarrow> None
         | Some mtp \<Rightarrow> map_option (\<lambda>rest. mtp # rest) (prev_mtps_loop P m us block_mtp_i inps))"

definition relative_lock_rejects ::
  "'a protocol_scheme \<Rightarrow> mempool_manager \<Rightarrow> transaction \<Rightarrow> utxo_set \<Rightarrow> bool" where
  "relative_lock_rejects P m tx us =
     (case finality_context P m of
        None \<Rightarrow>
          version_enforces_relative_lock P (version tx)
          \<and> list_ex (\<lambda>inp. let seq = ucast (sequence inp) :: u32 in
               \<not> is_sequence_disabled P seq \<and> extract_sequence_locktime_value P seq \<noteq> 0) (inputs tx)
      | Some (block_height, block_mtp) \<Rightarrow>
          let block_mtp_i = (case try_i64 block_mtp of None \<Rightarrow> - 1 | Some i \<Rightarrow> i) in
          case prev_mtps_loop P m us block_mtp_i (inputs tx) of
            None \<Rightarrow> True
          | Some prev_mtps \<Rightarrow>
              (case chain_network m of
                 Err _ \<Rightarrow> True
               | Ok net \<Rightarrow>
                   (case relative_lock_unsatisfied P tx us block_height block_mtp (Some prev_mtps) net of
                      Ok b \<Rightarrow> b
                    | Err _ \<Rightarrow> True)))"


section \<open>Sizes\<close>

definition estimate_base_size :: "transaction \<Rightarrow> nat" where
  "estimate_base_size tx =
     10 + sum_list (map (\<lambda>inp. 41 + length (script_sig inp)) (inputs tx))
        + sum_list (map (\<lambda>out. 9 + length (script_pubkey out)) (outputs tx))"

definition segwit_inputs :: "transaction \<Rightarrow> nat" where
  "segwit_inputs tx = length (filter (\<lambda>inp. script_sig inp = []) (inputs tx))"

definition estimate_transaction_weight :: "transaction \<Rightarrow> u64" where
  "estimate_transaction_weight tx =
     (let base_size = estimate_base_size tx; n = segwit_inputs tx
      in if n > 0 then of_nat (base_size * 4 + (107 * n + 2))
         else saturating_mul (of_nat base_size) 4)"

definition estimate_transaction_size :: "transaction \<Rightarrow> nat" where
  "estimate_transaction_size tx =
     (let base_size = estimate_base_size tx; n = segwit_inputs tx
      in if n > 0 then (base_size * 4 + (107 * n + 2) + 3) div 4 else base_size)"

definition transaction_weight :: "'a protocol_scheme \<Rightarrow> transaction \<Rightarrow> witness list option \<Rightarrow> u64" where
  "transaction_weight P tx wits =
     (case wits of
        None \<Rightarrow> estimate_transaction_weight tx
      | Some ws \<Rightarrow>
          (case transaction_weight_from_stacks P tx ws of
             Ok weight \<Rightarrow> weight
           | Err _ \<Rightarrow> estimate_transaction_weight tx))"

text \<open>The coin behind an input as the sigop count sees it; a pooled parent's output has height 0.\<close>

definition sigop_coin :: "mempool_manager \<Rightarrow> utxo_set \<Rightarrow> outpoint \<Rightarrow> utxo option" where
  "sigop_coin m us op =
     (case hm_get us op of
        Some u \<Rightarrow> Some u
      | None \<Rightarrow>
          map_option (\<lambda>out. \<lparr> utxo_value = out_value out, utxo_script = script_pubkey out,
                              utxo_height = 0, utxo_is_coinbase = False \<rparr>) (pooled_output m op))"

definition admit_vsize ::
  "'a protocol_scheme \<Rightarrow> mempool_manager \<Rightarrow> transaction \<Rightarrow> witness list option \<Rightarrow> utxo_set
    \<Rightarrow> u64 \<times> u64" where
  "admit_vsize P m tx wits us =
     (let (bps, counts) = (case policy_config m of
            Some p \<Rightarrow> (bytes_per_sigop p, count_sigops p)
          | None \<Rightarrow> (DEFAULT_BYTES_PER_SIGOP P, True));
          refs = map (sigop_coin m us) (prevouts tx);
          sigop_cost =
            (if counts
             then case get_transaction_sigop_cost_with_utxos P tx refs wits (SEGWIT_STANDARD_FLAGS P) of
                    Ok c \<Rightarrow> c
                  | Err _ \<Rightarrow> ucast (get_legacy_sigop_count P tx) * 4
             else 0)
      in (sigop_adjusted_vsize P (transaction_weight P tx wits) sigop_cost bps, sigop_cost))"

definition pooled_vsize ::
  "'a protocol_scheme \<Rightarrow> mempool_manager \<Rightarrow> hash \<Rightarrow> transaction \<Rightarrow> utxo_set \<Rightarrow> u64" where
  "pooled_vsize P m h tx us =
     (case hm_get (adjusted_vsize m) h of
        Some vsize \<Rightarrow> vsize
      | None \<Rightarrow> fst (admit_vsize P m tx (hm_get (tx_witnesses m) h) us))"


section \<open>The fee is the difference of the sums\<close>

text \<open>The money constant is a positive \<^verbatim>\<open>i64\<close>.\<close>

definition money_range :: "'a tx_api_scheme \<Rightarrow> bool" where
  "money_range P \<longleftrightarrow> 0 < MAX_MONEY P \<and> MAX_MONEY P \<le> i64_max"

lemma unat_as_u64: "0 \<le> v \<Longrightarrow> v \<le> i64_max \<Longrightarrow> unat (as_u64 v) = nat v"
  by (simp add: as_u64_def i64_max_def unat_eq_nat_uint uint_word_of_int)

lemma money_sats_Some_iff:
  assumes "money_range P"
  shows "money_sats P v = Some s \<longleftrightarrow> 0 \<le> v \<and> v \<le> MAX_MONEY P \<and> unat s = nat v"
proof -
  have "as_u64 v = s \<longleftrightarrow> unat s = nat v" if "0 \<le> v" "v \<le> MAX_MONEY P"
    using that assms unat_as_u64 [of v] by (auto simp: money_range_def word_unat_eq_iff)
  then show ?thesis by (auto simp: money_sats_def)
qed

lemma add_money_Some_iff:
  assumes "money_range P"
  shows "add_money P a b = Some s \<longleftrightarrow> unat a + unat b \<le> nat (MAX_MONEY P) \<and> unat s = unat a + unat b"
proof -
  have M: "unat (as_u64 (MAX_MONEY P)) = nat (MAX_MONEY P)" "nat (MAX_MONEY P) < 2 ^ 64"
    using assms by (simp_all add: money_range_def unat_as_u64 i64_max_def nat_less_iff)
  show ?thesis
    using M by (auto simp: add_money_def checked_add_Some_iff word_le_nat_alt checked_add_def
      word_unat_eq_iff unat_word_ariths split: option.splits if_splits)
qed

lemma add_money_None_iff:
  assumes "money_range P"
  shows "add_money P a b = None \<longleftrightarrow> nat (MAX_MONEY P) < unat a + unat b"
proof -
  have "nat (MAX_MONEY P) < 2 ^ 64"
    using assms by (simp add: money_range_def i64_max_def nat_less_iff)
  then have "unat a + unat b \<le> nat (MAX_MONEY P) \<Longrightarrow> unat (a + b) = unat a + unat b"
    by (simp add: unat_word_ariths)
  then have "unat a + unat b \<le> nat (MAX_MONEY P) \<Longrightarrow> add_money P a b = Some (a + b)"
    using add_money_Some_iff [OF assms] by blast
  moreover have "add_money P a b = Some s \<Longrightarrow> unat a + unat b \<le> nat (MAX_MONEY P)" for s
    using add_money_Some_iff [OF assms] by blast
  ultimately show ?thesis by (metis linorder_not_le option.exhaust option.distinct(1))
qed

text \<open>The value of an input the fee counts, 0 when the coin is not known.\<close>

definition known_value :: "'a tx_api_scheme \<Rightarrow> mempool_manager \<Rightarrow> utxo_set \<Rightarrow> outpoint \<Rightarrow> nat" where
  "known_value P m us op = (case input_sats P m us op of None \<Rightarrow> 0 | Some s \<Rightarrow> unat s)"

lemma fee_input_sum_Some_iff:
  assumes "money_range P"
  shows "unat acc \<le> nat (MAX_MONEY P) \<Longrightarrow>
    fee_input_sum P m us acc ops = Some s \<longleftrightarrow>
      unat acc + sum_list (map (known_value P m us) ops) \<le> nat (MAX_MONEY P)
      \<and> unat s = unat acc + sum_list (map (known_value P m us) ops)"
proof (induction ops arbitrary: acc)
  case Nil
  then show ?case by (auto simp: word_unat_eq_iff)
next
  case (Cons op ops)
  show ?case
  proof (cases "input_sats P m us op")
    case None
    then show ?thesis using Cons by (simp add: known_value_def)
  next
    case (Some sats)
    show ?thesis
    proof (cases "add_money P acc sats")
      case None
      then have "nat (MAX_MONEY P) < unat acc + unat sats"
        using add_money_None_iff [OF assms] by blast
      with Some None show ?thesis by (simp add: known_value_def)
    next
      case (Some t)
      then have "unat t = unat acc + unat sats" "unat t \<le> nat (MAX_MONEY P)"
        using add_money_Some_iff [OF assms] by auto
      with Cons.IH [of t] Some \<open>input_sats P m us op = Some sats\<close> show ?thesis
        by (simp add: known_value_def add.assoc)
    qed
  qed
qed

lemma output_sum_from_Some_iff:
  assumes "money_range P"
  shows "unat acc \<le> nat (MAX_MONEY P) \<Longrightarrow>
    output_sum_from P acc outs = Some s \<longleftrightarrow>
      (\<forall>out \<in> set outs. 0 \<le> out_value out)
      \<and> int (unat acc) + sum_list (map out_value outs) \<le> MAX_MONEY P
      \<and> int (unat s) = int (unat acc) + sum_list (map out_value outs)"
proof (induction outs arbitrary: acc)
  case Nil
  then have "uint acc \<le> MAX_MONEY P"
    using assms le_nat_iff [of "MAX_MONEY P" "unat acc"] by (simp add: money_range_def)
  then show ?case by (auto simp: word_uint_eq_iff)
next
  case (Cons out outs)
  have big: "\<not> ((\<forall>out' \<in> set (out # outs). 0 \<le> out_value out')
      \<and> int (unat acc) + sum_list (map out_value (out # outs)) \<le> MAX_MONEY P)"
    if "\<not> (0 \<le> out_value out \<and> int (unat acc) + out_value out \<le> MAX_MONEY P)"
  proof
    assume R: "(\<forall>out' \<in> set (out # outs). 0 \<le> out_value out')
      \<and> int (unat acc) + sum_list (map out_value (out # outs)) \<le> MAX_MONEY P"
    then have "0 \<le> sum_list (map out_value outs)" by (intro sum_list_nonneg) auto
    with R that show False by simp
  qed
  show ?case
  proof (cases "money_sats P (out_value out)")
    case None
    then have "\<not> (0 \<le> out_value out \<and> out_value out \<le> MAX_MONEY P)"
      by (auto simp: money_sats_def split: if_splits)
    then have "\<not> (0 \<le> out_value out \<and> int (unat acc) + out_value out \<le> MAX_MONEY P)"
      by linarith
    from big [OF this] None show ?thesis by auto
  next
    case (Some sats)
    then have v: "0 \<le> out_value out" "int (unat sats) = out_value out"
      using money_sats_Some_iff [OF assms] by auto
    show ?thesis
    proof (cases "add_money P acc sats")
      case None
      then have "nat (MAX_MONEY P) < unat acc + unat sats"
        using add_money_None_iff [OF assms] by blast
      then have "\<not> (0 \<le> out_value out \<and> int (unat acc) + out_value out \<le> MAX_MONEY P)"
        using v(2) by linarith
      from big [OF this] Some None show ?thesis by auto
    next
      case (Some t)
      then have t: "unat t = unat acc + unat sats" "unat t \<le> nat (MAX_MONEY P)"
        using add_money_Some_iff [OF assms] by auto
      have "int (unat t) = int (unat acc) + out_value out" using t(1) v(2) by simp
      with Cons.IH [OF t(2)] Some v(1) \<open>money_sats P (out_value out) = Some sats\<close> show ?thesis
        by (simp add: add.assoc)
    qed
  qed
qed

lemma fee_input_sum_total:
  assumes "money_range P"
  shows "sum_list (map (known_value P m us) ops) \<le> nat (MAX_MONEY P) \<Longrightarrow>
    fee_input_sum P m us 0 ops \<noteq> None"
proof -
  assume le: "sum_list (map (known_value P m us) ops) \<le> nat (MAX_MONEY P)"
  have "nat (MAX_MONEY P) < 2 ^ 64"
    using assms by (simp add: money_range_def i64_max_def nat_less_iff)
  with le have "unat (of_nat (sum_list (map (known_value P m us) ops)) :: u64)
      = sum_list (map (known_value P m us) ops)"
    by (simp add: unat_of_nat)
  with le show ?thesis
    using fee_input_sum_Some_iff [OF assms, of 0 m us ops
        "of_nat (sum_list (map (known_value P m us) ops))"] by simp
qed

lemma output_sum_total:
  assumes "money_range P" "\<forall>out \<in> set (outputs tx). 0 \<le> out_value out"
    and "sum_list (map out_value (outputs tx)) \<le> MAX_MONEY P"
  shows "output_sum_sats P tx \<noteq> None"
proof -
  let ?S = "sum_list (map out_value (outputs tx))"
  have "0 \<le> ?S" using assms(2) by (intro sum_list_nonneg) auto
  then have "unat (as_u64 ?S) = nat ?S"
    using assms(1,3) by (intro unat_as_u64) (auto simp: money_range_def)
  with \<open>0 \<le> ?S\<close> assms show ?thesis
    using output_sum_from_Some_iff [OF assms(1), of 0 "outputs tx" "as_u64 ?S"]
    by (simp add: output_sum_sats_def)
qed

lemma calculate_transaction_fee_eq:
  assumes "money_range P"
  shows "int (unat (calculate_transaction_fee P m tx us)) =
    (let ins = (\<Sum>op\<leftarrow>prevouts tx. int (known_value P m us op));
         outs = (\<Sum>out\<leftarrow>outputs tx. out_value out)
     in if (\<forall>out \<in> set (outputs tx). 0 \<le> out_value out) \<and> outs \<le> MAX_MONEY P \<and> ins \<le> MAX_MONEY P
        then max 0 (ins - outs) else 0)"
proof -
  let ?I = "\<Sum>op\<leftarrow>prevouts tx. known_value P m us op"
  have I: "(\<Sum>op\<leftarrow>prevouts tx. int (known_value P m us op)) = int ?I"
  proof -
    have "(\<Sum>x\<leftarrow>xs. int (f x)) = int (sum_list (map f xs))" for f and xs :: "outpoint list"
      by (induction xs) simp_all
    then show ?thesis .
  qed
  note ins = fee_input_sum_Some_iff [OF assms, of 0 m us "prevouts tx", simplified]
  note outs = output_sum_from_Some_iff [OF assms, of 0 "outputs tx", simplified, folded output_sum_sats_def]
  have N: "?I \<le> nat (MAX_MONEY P) \<longleftrightarrow> int ?I \<le> MAX_MONEY P"
    using assms by (auto simp: money_range_def le_nat_iff)
  show ?thesis
  proof (cases "fee_input_sum P m us 0 (prevouts tx)")
    case None
    then have "\<not> int ?I \<le> MAX_MONEY P"
      using fee_input_sum_total [OF assms, of m us "prevouts tx"] N by blast
    with None I show ?thesis by (simp add: calculate_transaction_fee_def Let_def)
  next
    case (Some a)
    then have a: "unat a = ?I" "int ?I \<le> MAX_MONEY P" using ins N by auto
    show ?thesis
    proof (cases "output_sum_sats P tx")
      case None
      then have "\<not> ((\<forall>out \<in> set (outputs tx). 0 \<le> out_value out)
          \<and> sum_list (map out_value (outputs tx)) \<le> MAX_MONEY P)"
        using output_sum_total [OF assms, of tx] by blast
      with None Some show ?thesis by (auto simp: calculate_transaction_fee_def Let_def)
    next
      case (Some b)
      let ?O = "sum_list (map out_value (outputs tx))"
      have O: "\<forall>out \<in> set (outputs tx). 0 \<le> out_value out" "?O \<le> MAX_MONEY P" "int (unat b) = ?O"
        using outs Some by auto
      have "int (unat (calculate_transaction_fee P m tx us)) = int (unat a - unat b)"
        using Some \<open>fee_input_sum P m us 0 (prevouts tx) = Some a\<close>
        by (simp add: calculate_transaction_fee_def unat_saturating_sub)
      also have "\<dots> = max 0 (int ?I - ?O)"
        unfolding a(1) using O(3) by linarith
      finally show ?thesis unfolding I Let_def using O a(2) by simp
    qed
  qed
qed

lemma fee_le_money:
  assumes "money_range P"
  shows "int (unat (calculate_transaction_fee P m tx us)) \<le> MAX_MONEY P"
proof -
  have "0 \<le> (\<Sum>out\<leftarrow>outputs tx. out_value out)" if "\<forall>out \<in> set (outputs tx). 0 \<le> out_value out"
    using that by (intro sum_list_nonneg) auto
  moreover have "0 < MAX_MONEY P" using assms by (simp add: money_range_def)
  ultimately show ?thesis
    unfolding calculate_transaction_fee_eq [OF assms] Let_def by auto
qed

text \<open>
  C19. The fee of a transaction is the sum of the inputs whose coins are known minus the sum of its
  outputs. It is 0, and never a wrapped value, when the outputs exceed the inputs, when an
  output is negative, or when either sum leaves the money range.
\<close>

theorem calculate_transaction_fee_spec:
  assumes "money_range P"
  shows "int (unat (calculate_transaction_fee P m tx us)) =
    (let ins = (\<Sum>op\<leftarrow>prevouts tx. int (known_value P m us op));
         outs = (\<Sum>out\<leftarrow>outputs tx. out_value out)
     in if (\<forall>out \<in> set (outputs tx). 0 \<le> out_value out) \<and> outs \<le> MAX_MONEY P \<and> ins \<le> MAX_MONEY P
        then max 0 (ins - outs) else 0)"
  by (rule calculate_transaction_fee_eq [OF assms])

theorem calculate_transaction_fee_spec_witness:
  "int (unat (calculate_transaction_fee demo new_mempool
      \<lparr> version = 2, inputs = [\<lparr> prevout = \<lparr> op_hash = 1, op_index = 0 \<rparr>, script_sig = [], sequence = 0 \<rparr>],
        outputs = [\<lparr> out_value = 40, script_pubkey = [] \<rparr>, \<lparr> out_value = 5, script_pubkey = [] \<rparr>],
        lock_time = 0 \<rparr>
      [(\<lparr> op_hash = 1, op_index = 0 \<rparr>,
        \<lparr> utxo_value = 100, utxo_script = [], utxo_height = 1, utxo_is_coinbase = False \<rparr>)])) = 55"
proof -
  have "money_range demo" by (simp add: money_range_def i64_max_def)
  then show ?thesis
    by (subst calculate_transaction_fee_spec)
      (simp_all add: Let_def prevouts_def known_value_def input_sats_def money_sats_def as_u64_def)
qed

end
