(* ===== verification/Mempool_Rbf.thy ===== *)
theory Mempool_Rbf
  imports Mempool_Graph Mempool_View
begin

text \<open>
  Replacement by fee: the fee-rate comparison with a floating-point multiplier, the price of
  the transactions a replacement removes, the coins its checks may see, and the decision
  whether a candidate may replace one pooled conflict.
\<close>


section \<open>Definitions\<close>

definition next_replacement_count :: "u32 list \<Rightarrow> u32" where
  "next_replacement_count counts =
     saturating_add (case counts of [] \<Rightarrow> 0 | c # cs \<Rightarrow> foldl max c cs) 1"

definition replacement_clears_fee_rate :: "u128 \<Rightarrow> u128 \<Rightarrow> f64 \<Rightarrow> (bool, string) result" where
  "replacement_clears_fee_rate new_fee_scaled existing_fee_scaled multiplier =
     (if \<not> f64_is_finite multiplier then Ok False
      else
        let millis = f64_mul multiplier f64_million in
        if \<not> f64_is_finite millis \<or> f64_less_zero millis then Ok False
        else case checked_mul existing_fee_scaled (f64_round_as_u128 millis) of
          None \<Rightarrow> Err ''Fee rate calculation overflow''
        | Some x \<Rightarrow> Ok (new_fee_scaled > x div 1000000))"

text \<open>An \<^verbatim>\<open>i64\<close> result that leaves its range wraps.\<close>

definition i64_wrap :: "int \<Rightarrow> int" where
  "i64_wrap x = sint (word_of_int x :: u64)"

definition package_fee_and_vsize ::
  "'a protocol_scheme \<Rightarrow> mempool_manager \<Rightarrow> hash list \<Rightarrow> utxo_set \<Rightarrow> int \<times> u64" where
  "package_fee_and_vsize P m package us =
     foldl (\<lambda>(total_fee, total_vsize) h.
       case hm_get (transactions m) h of
         None \<Rightarrow> (total_fee, total_vsize)
       | Some tx \<Rightarrow>
           (i64_wrap (total_fee + as_i64 (calculate_transaction_fee P m tx us)),
            total_vsize + pooled_vsize P m h tx us)) (0, 0) package"

definition replacement_input_view ::
  "'a tx_api_scheme \<Rightarrow> mempool_manager \<Rightarrow> transaction \<Rightarrow> transaction \<Rightarrow> utxo_set \<Rightarrow> utxo_set" where
  "replacement_input_view P m new_tx existing_tx us =
     (let displaced = replacement_package m (calculate_tx_id P existing_tx);
          (view, missing) =
            foldl (\<lambda>(view, missing) op.
              case hm_get us op of
                Some u \<Rightarrow> (hm_insert op u view, missing)
              | None \<Rightarrow> if op_hash op \<notin> set displaced then (view, missing @ [op]) else (view, missing))
              ([], []) (prevouts new_tx @ prevouts existing_tx)
      in if missing = [] then view
         else foldl (\<lambda>view op.
             case pooled_output m op of
               None \<Rightarrow> view
             | Some out \<Rightarrow>
                 hm_insert op \<lparr> utxo_value = out_value out, utxo_script = script_pubkey out,
                                utxo_height = 0, utxo_is_coinbase = False \<rparr> view) view missing)"

text \<open>The count and cooldown limits of a conflict that is itself a replacement.\<close>

definition rbf_tracking_rejects :: "u64 \<Rightarrow> rbf_config \<Rightarrow> mempool_manager \<Rightarrow> hash \<Rightarrow> bool" where
  "rbf_tracking_rejects now cfg m h =
     (case hm_get (rbf_tracking m) h of
        None \<Rightarrow> False
      | Some tr \<Rightarrow>
          if replacement_count tr \<ge> max_replacements_per_tx cfg then True
          else saturating_sub now (last_replacement_time tr) < cooldown_seconds cfg)"

text \<open>Fee and size of what the replacement removes; \<open>None\<close> where package replacement is not allowed.\<close>

definition rbf_existing_price ::
  "'a protocol_scheme \<Rightarrow> mempool_manager \<Rightarrow> rbf_config \<Rightarrow> transaction \<Rightarrow> hash \<Rightarrow> utxo_set
    \<Rightarrow> (int \<times> u64) option" where
  "rbf_existing_price P m cfg existing_tx h us =
     (let alone = (as_i64 (calculate_transaction_fee P m existing_tx us), pooled_vsize P m h existing_tx us)
      in if hm_contains (transactions m) h then
           let package = replacement_package m h in
           if \<not> allow_package_replacements cfg \<and> length package > 1 then None
           else if \<not> allow_package_replacements cfg then Some alone
           else Some (package_fee_and_vsize P m package us)
         else Some alone)"

text \<open>The price of relaying \<open>vsize\<close> virtual bytes at \<open>rate\<close> satoshis per thousand, rounded up.\<close>

definition relay_price :: "u64 \<Rightarrow> u64 \<Rightarrow> u128" where
  "relay_price rate vsize = div_ceil (saturating_mul (ucast rate) (ucast vsize)) 1000"

definition relay_bandwidth :: "mempool_manager \<Rightarrow> u64 \<Rightarrow> u128" where
  "relay_bandwidth m vsize =
     relay_price (case policy_config m of None \<Rightarrow> 100 | Some p \<Rightarrow> incremental_relay_fee p) vsize"

definition conservative_confirmations_reject ::
  "rbf_config \<Rightarrow> storage_reads option \<Rightarrow> hash \<Rightarrow> bool" where
  "conservative_confirmations_reject cfg st h =
     (if mode cfg = Conservative \<and> min_confirmations cfg > 0 then
        (case st of
           None \<Rightarrow> False
         | Some s \<Rightarrow>
             (case tx_block_hash s h of
                None \<Rightarrow> False
              | Some bh \<Rightarrow>
                  (case height_by_hash s bh of
                     None \<Rightarrow> False
                   | Some block_height \<Rightarrow>
                       (case chain_height s of
                          None \<Rightarrow> False
                        | Some tip \<Rightarrow> saturating_sub tip block_height + 1 < ucast (min_confirmations cfg)))))
      else False)"

definition check_rbf_replacement_with_witness ::
  "'a protocol_scheme \<Rightarrow> u64 \<Rightarrow> mempool_manager \<Rightarrow> transaction \<Rightarrow> transaction \<Rightarrow> utxo_set
    \<Rightarrow> storage_reads option \<Rightarrow> witness list option \<Rightarrow> (bool, string) result" where
  "check_rbf_replacement_with_witness P now m new_tx existing_tx us st new_witnesses =
     (let cfg = unwrap_or (mgr_rbf_config m) default_rbf_config in
      if mode cfg = RbfDisabled then Ok False
      else if mode cfg = Conservative \<and> \<not> signals_rbf P existing_tx then Ok False
      else
        let existing_hash = calculate_tx_id P existing_tx in
        if rbf_tracking_rejects now cfg m existing_hash then Ok False
        else case rbf_existing_price P m cfg existing_tx existing_hash us of
          None \<Rightarrow> Ok False
        | Some (existing_fee, existing_size) \<Rightarrow>
            let new_fee = as_i64 (calculate_transaction_fee P m new_tx us);
                new_size = fst (admit_vsize P m new_tx new_witnesses us)
            in if new_size = 0 \<or> existing_size = 0 then Ok False
               else case checked_mul (word_of_int new_fee :: u128) (ucast existing_size) of
                 None \<Rightarrow> Err ''Fee rate calculation overflow''
               | Some new_fee_scaled \<Rightarrow>
                   (case checked_mul (word_of_int existing_fee :: u128) (ucast new_size) of
                      None \<Rightarrow> Err ''Fee rate calculation overflow''
                    | Some existing_fee_scaled \<Rightarrow>
                        (case replacement_clears_fee_rate new_fee_scaled existing_fee_scaled
                                (min_fee_rate_multiplier cfg) of
                           Err e \<Rightarrow> Err e
                         | Ok False \<Rightarrow> Ok False
                         | Ok True \<Rightarrow>
                             if new_fee < existing_fee + sint (relay_bandwidth m new_size) then Ok False
                             else if conservative_confirmations_reject cfg st existing_hash then Ok False
                             else if \<not> has_conflict_with_tx P new_tx existing_tx then Ok False
                             else replacement_checks_with_witness P new_tx existing_tx
                                    (replacement_input_view P m new_tx existing_tx us)
                                    (legacy_mempool m) new_witnesses)))"

definition check_rbf_replacement ::
  "'a protocol_scheme \<Rightarrow> u64 \<Rightarrow> mempool_manager \<Rightarrow> transaction \<Rightarrow> transaction \<Rightarrow> utxo_set
    \<Rightarrow> storage_reads option \<Rightarrow> (bool, string) result" where
  "check_rbf_replacement P now m new_tx existing_tx us st =
     check_rbf_replacement_with_witness P now m new_tx existing_tx us st None"



section \<open>The configured multipliers are exact\<close>

lemma bit_len_eqI: "2 ^ k \<le> n \<Longrightarrow> n < 2 ^ Suc k \<Longrightarrow> bit_len n = Suc k"
proof (induction k arbitrary: n)
  case 0
  then show ?case by (simp add: bit_len.simps)
next
  case (Suc k)
  then have "2 ^ k \<le> n div 2" "n div 2 < 2 ^ Suc k" by auto
  with Suc show ?case by (simp add: bit_len.simps [of n])
qed

lemma bit_len_products:
  "bit_len 1000000 = 20" "bit_len 2000000 = 21" "bit_len 4728779608739021000000 = 73"
  "bit_len 4509715660800000 = 53"
  using bit_len_eqI [of 19 1000000] bit_len_eqI [of 20 2000000]
    bit_len_eqI [of 72 4728779608739021000000] bit_len_eqI [of 52 4509715660800000] by simp_all

lemma millis_products:
  "f64_mul f64_one f64_million = Finite 1000000 0"
  "f64_mul f64_two f64_million = Finite 2000000 0"
  "f64_mul f64_1_05 f64_million = Finite 4509715660800000 (- 32)"
  by (simp_all add: f64_one_def f64_two_def f64_1_05_def f64_million_def round_f64_def Let_def
      bit_len_products round_half_even_def)

lemma millis_values:
  "f64_round_as_u128 (f64_mul f64_one f64_million) = 1000000"
  "f64_round_as_u128 (f64_mul f64_two f64_million) = 2000000"
  "f64_round_as_u128 (f64_mul f64_1_05 f64_million) = 1050000"
  by (simp_all add: millis_products f64_round_int_def)

lemma clears_fee_rate_eq:
  assumes "f64_mul x f64_million = Finite a b" "0 \<le> a" "f64_is_finite x"
    and "f64_round_as_u128 (Finite a b) = k"
  shows "replacement_clears_fee_rate n e x =
    (if unat e * unat k < 2 ^ 128 then Ok (unat e * unat k div 1000000 < unat n)
     else Err ''Fee rate calculation overflow'')"
proof -
  have "unat (e * k div 1000000) = unat e * unat k div 1000000" if "unat e * unat k < 2 ^ 128"
    using that by (simp add: unat_div_distrib unat_word_ariths)
  with assms show ?thesis
    by (simp add: replacement_clears_fee_rate_def checked_mul_def word_less_nat_alt)
qed

text \<open>The multiplier of each mode in millionths.\<close>

fun mode_millionths :: "rbf_mode \<Rightarrow> nat" where
  "mode_millionths Standard = 1000000"
| "mode_millionths Conservative = 2000000"
| "mode_millionths Aggressive = 1050000"
| "mode_millionths RbfDisabled = 0"

text \<open>
  With the multiplier of a mode's own settings the floating-point comparison is exact: a
  replacement clears the rate when its scaled fee is strictly above the multiple of the
  existing one, rounded down, and the check fails with an error instead of wrapping when the
  product does not fit 128 bits. The disabled mode clears nothing.
\<close>

lemma clears_fee_rate_modes:
  "replacement_clears_fee_rate n e (min_fee_rate_multiplier (with_mode md)) =
    (if md = RbfDisabled then Ok False
     else if unat e * mode_millionths md < 2 ^ 128
     then Ok (unat e * mode_millionths md div 1000000 < unat n)
     else Err ''Fee rate calculation overflow'')"
proof -
  have "f64_is_finite f64_one" "f64_is_finite f64_two" "f64_is_finite f64_1_05"
    by (simp_all add: f64_one_def f64_two_def f64_1_05_def)
  note C = clears_fee_rate_eq [OF millis_products(1) _ this(1) millis_values(1) [unfolded millis_products]]
    clears_fee_rate_eq [OF millis_products(2) _ this(2) millis_values(2) [unfolded millis_products]]
    clears_fee_rate_eq [OF millis_products(3) _ this(3) millis_values(3) [unfolded millis_products]]
  show ?thesis
    by (cases md) (simp_all add: C default_rbf_config_def replacement_clears_fee_rate_def [of _ _ "Infinity False"])
qed


section \<open>A replacement pays for what it removes\<close>

definition package_fees :: "'a tx_api_scheme \<Rightarrow> mempool_manager \<Rightarrow> utxo_set \<Rightarrow> hash set \<Rightarrow> nat" where
  "package_fees P m us S =
     (\<Sum>h \<in> S. case hm_get (transactions m) h of
        None \<Rightarrow> 0 | Some tx \<Rightarrow> unat (calculate_transaction_fee P m tx us))"

lemma i64_wrap_id: "i64_min \<le> x \<Longrightarrow> x \<le> i64_max \<Longrightarrow> i64_wrap x = x"
  using signed_take_bit_int_eq_self [of 63 x]
  by (simp add: i64_wrap_def i64_min_def i64_max_def sint_sbintrunc')

lemma as_i64_id: "unat w < 2 ^ 63 \<Longrightarrow> as_i64 w = int (unat w)"
  by (simp add: as_i64_def sint_small)

lemma package_fee_fold:
  assumes "distinct package"
  shows "0 \<le> f \<Longrightarrow> f + int (package_fees P m us (set package)) \<le> i64_max \<Longrightarrow>
    fst (foldl (\<lambda>(total_fee, total_vsize) h.
       case hm_get (transactions m) h of
         None \<Rightarrow> (total_fee, total_vsize)
       | Some tx \<Rightarrow>
           (i64_wrap (total_fee + as_i64 (calculate_transaction_fee P m tx us)),
            total_vsize + pooled_vsize P m h tx us)) (f, v) package)
     = f + int (package_fees P m us (set package))"
  using assms
proof (induction package arbitrary: f v)
  case Nil
  then show ?case by (simp add: package_fees_def)
next
  case (Cons h package)
  show ?case
  proof (cases "hm_get (transactions m) h")
    case None
    then show ?thesis using Cons by (simp add: package_fees_def)
  next
    case (Some tx)
    let ?w = "calculate_transaction_fee P m tx us"
    have split: "package_fees P m us (set (h # package)) = unat ?w + package_fees P m us (set package)"
      using Cons.prems(3) Some by (simp add: package_fees_def)
    have "int (package_fees P m us (set (h # package)))
        = int (unat ?w) + int (package_fees P m us (set package))"
      unfolding split by (rule of_nat_add)
    then have le: "f + int (unat ?w) \<le> i64_max" and "int (unat ?w) < int (2 ^ 63)"
      using Cons.prems(1,2) by (simp_all add: i64_max_def del: of_nat_unat)
    then have w: "unat ?w < 2 ^ 63" by (simp only: of_nat_less_iff)
    have "i64_min \<le> f + int (unat ?w)" 
      using add_nonneg_nonneg [OF Cons.prems(1) of_nat_0_le_iff [of "unat ?w"]]
      unfolding i64_min_def by simp
    then have "i64_wrap (f + as_i64 ?w) = f + int (unat ?w)"
      unfolding as_i64_id [OF w] using le by (rule i64_wrap_id)
    with Cons split le Some show ?thesis by simp
  qed
qed

lemma package_fee_spec:
  assumes "int (package_fees P m us (set (replacement_package m h))) \<le> i64_max"
  shows "fst (package_fee_and_vsize P m (replacement_package m h) us)
    = int (package_fees P m us (set (replacement_package m h)))"
  using package_fee_fold [OF distinct_replacement_package, of 0 P m us m h 0] assms
  by (simp add: package_fee_and_vsize_def)

text \<open>The price of relay, as the policy states it.\<close>

definition incremental_rate :: "mempool_manager \<Rightarrow> nat" where
  "incremental_rate m =
     (case policy_config m of None \<Rightarrow> 100 | Some p \<Rightarrow> unat (incremental_relay_fee p))"

lemma relay_price_le_iff: "unat (relay_price rate vsize) \<le> n \<longleftrightarrow> unat rate * unat vsize \<le> n * 1000"
  and relay_price_sint: "sint (relay_price rate vsize) = int (unat (relay_price rate vsize))"
proof -
  let ?x = "saturating_mul (ucast rate :: u128) (ucast vsize)"
  have up: "unat (ucast w :: u128) = unat w" for w :: u64
    by (rule unat_ucast_up) simp
  have b: "unat rate * unat vsize < 2 ^ 64 * 2 ^ 64"
    using unat_bound [of rate] unat_bound [of vsize] by (intro mult_strict_mono) auto
  then have x: "unat ?x = unat rate * unat vsize" by (simp add: unat_saturating_mul up)
  show "unat (relay_price rate vsize) \<le> n \<longleftrightarrow> unat rate * unat vsize \<le> n * 1000"
    using div_ceil_le_iff [of "1000 :: u128" ?x n] x by (simp add: relay_price_def)
  have "unat (div_ceil ?x 1000) \<le> unat ?x div 1000 + 1" by (simp add: unat_div_ceil)
  also have "\<dots> < 2 ^ 127" using x b by simp
  finally show "sint (relay_price rate vsize) = int (unat (relay_price rate vsize))"
    unfolding relay_price_def by (intro sint_small) simp
qed

lemma relay_bandwidth_covers:
  shows "incremental_rate m * unat vsize \<le> nat (sint (relay_bandwidth m vsize)) * 1000"
    and "0 \<le> sint (relay_bandwidth m vsize)"
proof -
  let ?r = "case policy_config m of None \<Rightarrow> 100 | Some p \<Rightarrow> incremental_relay_fee p"
  have "unat ?r = incremental_rate m" by (simp add: incremental_rate_def split: option.split)
  then show "incremental_rate m * unat vsize \<le> nat (sint (relay_bandwidth m vsize)) * 1000"
    using relay_price_le_iff [of ?r vsize "unat (relay_bandwidth m vsize)"]
    unfolding relay_bandwidth_def relay_price_sint nat_int by simp
  show "0 \<le> sint (relay_bandwidth m vsize)" unfolding relay_bandwidth_def relay_price_sint by simp
qed

lemma replacement_accepted:
  assumes "check_rbf_replacement_with_witness P now m new_tx existing_tx us st wits = Ok True"
  shows "\<exists>f v. rbf_existing_price P m (unwrap_or (mgr_rbf_config m) default_rbf_config) existing_tx
        (calculate_tx_id P existing_tx) us = Some (f, v)
      \<and> \<not> as_i64 (calculate_transaction_fee P m new_tx us)
            < f + sint (relay_bandwidth m (fst (admit_vsize P m new_tx wits us)))"
    and "mode (unwrap_or (mgr_rbf_config m) default_rbf_config) \<noteq> RbfDisabled"
    and "has_conflict_with_tx P new_tx existing_tx"
  using assms unfolding check_rbf_replacement_with_witness_def Let_def
  by (auto split: if_splits option.splits sum.splits bool.splits)

lemma demo_money: "money_range demo"
  by (simp add: money_range_def i64_max_def)

lemma unat_eqI: "int (unat a) = int (unat b) \<Longrightarrow> a = b"
  by (simp only: of_nat_eq_iff word_unat_eq_iff)

lemma demo_conflict: "has_conflict_with_tx demo demo_rival demo_parent"
  "replacement_checks_with_witness demo tx tx' us pool ws = Ok True" 
  by (simp_all add: demo_def)

lemma f64_one_rate: "replacement_clears_fee_rate 10000000 2000000 f64_one = Ok True"
  using clears_fee_rate_eq [OF millis_products(1), of 1000000 10000000 2000000] millis_values(1)
  by (simp add: millis_products(1) f64_one_def f64_million_def f64_round_int_def)

lemma demo_values:
  "prevouts (demo_spend op v lt) = [op]" "outputs (demo_spend op v lt) = [\<lparr> out_value = v, script_pubkey = [0, 1] \<rparr>]"
  by (simp_all add: demo_spend_def prevouts_def demo_input_def)

text \<open>A manager with the transactions and the replacement state of \<open>demo_pool\<close> and any policy that prices relay alike.\<close>

definition demo_like :: "mempool_manager \<Rightarrow> bool" where
  "demo_like m \<longleftrightarrow>
     transactions m = [(1, demo_parent), (2, demo_child)] \<and> adjusted_vsize m = [(1, 100), (2, 100)]
   \<and> tx_descendants m = [(1, [2]), (2, [])] \<and> rbf_tracking m = [] \<and> mgr_rbf_config m = None
   \<and> (\<forall>pol. policy_config m = Some pol \<longrightarrow> incremental_relay_fee pol = 100 \<and> bytes_per_sigop pol = 20)"

lemma demo_pool_like: "demo_like demo_pool"
  by (simp add: demo_like_def)

lemma demo_fees:
  assumes "demo_like m"
  shows "calculate_transaction_fee demo m demo_parent demo_utxos = 10000"
    "calculate_transaction_fee demo m demo_child demo_utxos = 10000"
    "calculate_transaction_fee demo m demo_rival demo_utxos = 50000"
  using assms unfolding demo_like_def
  by - (rule unat_eqI, subst calculate_transaction_fee_eq [OF demo_money],
      simp add: Let_def known_value_def input_sats_def money_sats_def as_u64_def demo_utxos_def
        demo_coin_def mempool_input_value_def pooled_output_def list_get_def
        demo_parent_def demo_child_def demo_rival_def demo_values)+

lemma demo_vsizes:
  assumes "demo_like m"
  shows "fst (admit_vsize demo m demo_rival (Some [[]]) demo_utxos) = 100"
    "pooled_vsize demo m 1 tx demo_utxos = 100" "pooled_vsize demo m 2 tx demo_utxos = 100"
  using assms unfolding demo_like_def
  by (simp_all add: pooled_vsize_def admit_vsize_def Let_def transaction_weight_def demo_def div_ceil_def
      split: option.split)

lemma demo_package:
  assumes "demo_like m"
  shows "replacement_package m 1 = [2, 1]"
  using assms by (simp add: demo_like_def replacement_package_def walk_pop.simps pool_children_def hm_get_or_def)

lemma demo_bandwidth:
  assumes "demo_like m"
  shows "relay_bandwidth m 100 = 10"
  using assms by (simp add: demo_like_def relay_bandwidth_def relay_price_def div_ceil_def saturating_mul_def
      split: option.split)

lemma demo_package_price:
  assumes "demo_like m"
  shows "package_fee_and_vsize demo m [2, 1] demo_utxos = (20000, 200)"
proof -
  have "hm_get (transactions m) 1 = Some demo_parent" "hm_get (transactions m) 2 = Some demo_child"
    using assms by (simp_all add: demo_like_def)
  then show ?thesis
    by (simp add: package_fee_and_vsize_def demo_fees [OF assms] demo_vsizes [OF assms] i64_wrap_def as_i64_def)
qed

lemma demo_replaces:
  assumes "demo_like m"
  shows "check_rbf_replacement_with_witness demo now m demo_rival demo_parent demo_utxos None (Some [[]]) = Ok True"
proof -
  have "mgr_rbf_config m = None" "rbf_tracking m = []" "hm_contains (transactions m) 1"
    using assms by (simp_all add: demo_like_def)
  then show ?thesis
    by (simp add: check_rbf_replacement_with_witness_def Let_def demo_conflict f64_one_rate
      demo_fees [OF assms] demo_vsizes [OF assms] demo_package [OF assms] demo_package_price [OF assms]
      demo_bandwidth [OF assms] checked_mul_def as_i64_def conservative_confirmations_reject_def
      rbf_existing_price_def rbf_tracking_rejects_def default_rbf_config_def)
qed

text \<open>
  When a candidate is allowed to replace a pooled conflict and package replacement is on, its fee covers the fees
  of the conflict and all its recorded descendants, each priced with the coins of the view that was passed in, plus
  the incremental relay price of its own size.
\<close>

lemma replacement_pays_for_package:
  assumes "check_rbf_replacement_with_witness P now m new_tx existing_tx us st wits = Ok True"
    and "allow_package_replacements (unwrap_or (mgr_rbf_config m) default_rbf_config)"
    and "calculate_tx_id P existing_tx \<in> pooled m"
    and "money_range P"
    and "int (package_fees P m us (set (replacement_package m (calculate_tx_id P existing_tx)))) \<le> i64_max"
  shows "1000 * package_fees P m us (set (replacement_package m (calculate_tx_id P existing_tx)))
      + incremental_rate m * unat (fst (admit_vsize P m new_tx wits us))
    \<le> 1000 * unat (calculate_transaction_fee P m new_tx us)"
proof -
  let ?h = "calculate_tx_id P existing_tx" and ?w = "calculate_transaction_fee P m new_tx us"
  let ?v = "fst (admit_vsize P m new_tx wits us)"
  let ?F = "package_fees P m us (set (replacement_package m ?h))"
  have c: "hm_contains (transactions m) ?h" using assms(3) by (simp add: pooled_def mm_dom_fst)
  have price: "rbf_existing_price P m (unwrap_or (mgr_rbf_config m) default_rbf_config) existing_tx ?h us
      = Some (int ?F, snd (package_fee_and_vsize P m (replacement_package m ?h) us))"
    using c assms(2) package_fee_spec [OF assms(5)] unfolding rbf_existing_price_def Let_def
    by (simp del: hm_contains_iff) (metis prod.collapse)
  have "\<not> as_i64 ?w < int ?F + sint (relay_bandwidth m ?v)"
    using replacement_accepted(1) [OF assms(1)] unfolding price by auto
  moreover have "as_i64 ?w = int (unat ?w)"
  proof (rule as_i64_id)
    have "int (unat ?w) \<le> MAX_MONEY P" by (rule fee_le_money [OF assms(4)])
    then have "int (unat ?w) < int (2 ^ 63)" using assms(4) by (simp add: money_range_def i64_max_def)
    then show "unat ?w < 2 ^ 63" by (simp only: of_nat_less_iff)
  qed
  ultimately have "int ?F + sint (relay_bandwidth m ?v) \<le> int (unat ?w)" by linarith
  then have "?F + nat (sint (relay_bandwidth m ?v)) \<le> unat ?w"
    using relay_bandwidth_covers(2) [of m ?v] by linarith
  with relay_bandwidth_covers(1) [of m ?v] show ?thesis by linarith
qed


section \<open>The coins a replacement may see\<close>

text \<open>A pooled output as the coin it will be.\<close>

abbreviation pooled_coin :: "tx_output \<Rightarrow> utxo" where
  "pooled_coin out \<equiv> \<lparr> utxo_value = out_value out, utxo_script = script_pubkey out,
                      utxo_height = 0, utxo_is_coinbase = False \<rparr>"

lemma view_fold:
  "foldl (\<lambda>(view, missing) op.
       case hm_get us op of
         Some u \<Rightarrow> (hm_insert op u view, missing)
       | None \<Rightarrow> if op_hash op \<notin> D then (view, missing @ [op]) else (view, missing)) (v, ms) ops
   = (foldl (\<lambda>view op. case hm_get us op of Some u \<Rightarrow> hm_insert op u view | None \<Rightarrow> view) v ops,
      ms @ [op \<leftarrow> ops. hm_get us op = None \<and> op_hash op \<notin> D])"
  by (induction ops arbitrary: v ms) (simp_all split: option.split)

lemma get_insert_fold:
  "hm_get (foldl (\<lambda>view op. case f op of Some u \<Rightarrow> hm_insert op u view | None \<Rightarrow> view) v ops) op
   = (if op \<in> set ops \<and> f op \<noteq> None then f op else hm_get v op)"
  by (induction ops arbitrary: v) (auto simp: update_conv split: option.split)

text \<open>
  The checks of a replacement see exactly the coins its inputs and the conflict's inputs
  name: a confirmed coin as the UTXO set has it, otherwise the output of a pooled transaction
  that the replacement does not remove, and nothing else. In particular an unconfirmed output of the
  conflict or of one of its descendants is never a coin of its own replacement.
\<close>

lemma replacement_input_view_spec:
  "hm_get (replacement_input_view P m new_tx existing_tx us) op =
     (if op \<notin> set (prevouts new_tx) \<union> set (prevouts existing_tx) then None
      else case hm_get us op of
        Some u \<Rightarrow> Some u
      | None \<Rightarrow>
          if op_hash op \<in> set (replacement_package m (calculate_tx_id P existing_tx)) then None
          else map_option pooled_coin (pooled_output m op))"
proof -
  have coins: "foldl (\<lambda>view op. case pooled_output m op of None \<Rightarrow> view
      | Some out \<Rightarrow> hm_insert op (pooled_coin out) view) v ops
    = foldl (\<lambda>view op. case map_option pooled_coin (pooled_output m op) of
        Some u \<Rightarrow> hm_insert op u view | None \<Rightarrow> view) v ops" for v ops
    by (rule arg_cong [where f = "\<lambda>g. foldl g v ops"]) (auto simp: fun_eq_iff split: option.split)
  have step: "(if ms = [] then v else foldl f v ms) = foldl f v ms"
    for f :: "utxo_set \<Rightarrow> outpoint \<Rightarrow> utxo_set" and v ms
    by simp
  show ?thesis
    unfolding replacement_input_view_def Let_def view_fold prod.case step coins get_insert_fold
    by (auto split: option.split)
qed

end
