(* ===== verification/Mempool_Evict.thy ===== *)
theory Mempool_Evict
  imports Mempool_Graph Mempool_View
begin

text \<open>
  Eviction and expiry: the six orders in which transactions are dropped when the pool is over
  its caps, the loop that drops whole packages in that order, and the expiry of old entries.
  The loop keeps a running byte and count total instead of recomputing them; it is shown to
  end with both caps satisfied for every strategy.
\<close>


section \<open>Definitions\<close>

definition mempool_size_bytes :: "'a tx_api_scheme \<Rightarrow> mempool_manager \<Rightarrow> u64" where
  "mempool_size_bytes P m =
     sum_list (map (\<lambda>(h, tx). accounted_tx_bytes P tx (hm_get (tx_witnesses m) h)) (transactions m))"

text \<open>One iteration of the loop over the package in \<^verbatim>\<open>evict_with_descendants\<close>.\<close>

definition evict_one ::
  "'a tx_api_scheme \<Rightarrow> (u64 \<times> nat) \<times> mempool_manager \<Rightarrow> hash \<Rightarrow> (u64 \<times> nat) \<times> mempool_manager" where
  "evict_one P s h =
     (case s of ((bytes, count), m) \<Rightarrow>
        case hm_get (transactions m) h of
          None \<Rightarrow> s
        | Some tx \<Rightarrow>
            let (removed, m') = remove_transaction h m
            in ((bytes + accounted_tx_bytes P tx (hm_get (tx_witnesses m) h),
                 if removed then count + 1 else count), m'))"

definition evict_with_descendants ::
  "'a tx_api_scheme \<Rightarrow> hash \<Rightarrow> mempool_manager \<Rightarrow> (u64 \<times> nat) \<times> mempool_manager" where
  "evict_with_descendants P h m =
     (if \<not> hm_contains (transactions m) h then ((0, 0), m)
      else foldl (evict_one P) ((0, 0), m) (replacement_package m h))"

fun evict_loop ::
  "'a tx_api_scheme \<Rightarrow> u64 \<Rightarrow> nat \<Rightarrow> hash list \<Rightarrow> u64 \<Rightarrow> nat \<Rightarrow> mempool_manager \<Rightarrow> mempool_manager" where
  "evict_loop P target_bytes target_txs [] bytes count m = m"
| "evict_loop P target_bytes target_txs (h # order) bytes count m =
     (if bytes \<le> target_bytes \<and> count \<le> target_txs then m
      else case evict_with_descendants P h m of
        ((b, c), m') \<Rightarrow>
          evict_loop P target_bytes target_txs order (saturating_sub bytes b) (count - c) m')"

definition evict_ordered ::
  "'a tx_api_scheme \<Rightarrow> hash list \<Rightarrow> u64 \<Rightarrow> nat \<Rightarrow> mempool_manager \<Rightarrow> mempool_manager" where
  "evict_ordered P order target_bytes target_txs m =
     evict_loop P target_bytes target_txs order (mempool_size_bytes P m) (mempool_size m) m"

text \<open>\<^verbatim>\<open>rows.sort_by_key(key)\<close> (a stable sort) and the hashes of the rows\<close>

definition order_by :: "('b \<Rightarrow> 'k::linorder) \<Rightarrow> (hash \<times> 'b) list \<Rightarrow> hash list" where
  "order_by key rows = map fst (sort_key (\<lambda>(h, x). key x) rows)"

definition fee_rows :: "mempool_manager \<Rightarrow> hash list \<Rightarrow> (hash \<times> u64) list" where
  "fee_rows m hs = map (\<lambda>h. (h, hm_get_or (fee_cache m) h 0)) hs"

definition hashes_by_ascending_fee :: "mempool_manager \<Rightarrow> hash list" where
  "hashes_by_ascending_fee m = order_by (\<lambda>r. r) (fee_rows m (transaction_hashes m))"

definition evict_lowest_fee_rate ::
  "'a tx_api_scheme \<Rightarrow> u64 \<Rightarrow> nat \<Rightarrow> mempool_manager \<Rightarrow> mempool_manager" where
  "evict_lowest_fee_rate P tb tc m = evict_ordered P (hashes_by_ascending_fee m) tb tc m"

definition evict_oldest_first ::
  "'a tx_api_scheme \<Rightarrow> u64 \<Rightarrow> nat \<Rightarrow> mempool_manager \<Rightarrow> mempool_manager" where
  "evict_oldest_first P tb tc m =
     evict_ordered P
       (order_by (\<lambda>t. t) (List.map_filter
          (\<lambda>h. map_option (\<lambda>t. (h, t)) (hm_get (tx_timestamps m) h)) (transaction_hashes m))) tb tc m"

definition evict_largest_first ::
  "'a tx_api_scheme \<Rightarrow> u64 \<Rightarrow> nat \<Rightarrow> mempool_manager \<Rightarrow> mempool_manager" where
  "evict_largest_first P tb tc m =
     evict_ordered P
       (order_by (\<lambda>size. - int size)
         (map (\<lambda>(h, tx). (h, length (serialize_transaction P tx))) (transactions m))) tb tc m"

definition childless :: "mempool_manager \<Rightarrow> hash \<Rightarrow> bool" where
  "childless m h = (case hm_get (tx_descendants m) h of None \<Rightarrow> True | Some d \<Rightarrow> d = [])"

definition evict_no_descendants_first ::
  "'a tx_api_scheme \<Rightarrow> u64 \<Rightarrow> nat \<Rightarrow> mempool_manager \<Rightarrow> mempool_manager" where
  "evict_no_descendants_first P tb tc m =
     (let m1 = evict_ordered P
            (order_by (\<lambda>r. r) (fee_rows m (filter (childless m) (transaction_hashes m)))) tb tc m
      in if mempool_size_bytes P m1 > tb \<or> mempool_size m1 > tc
         then evict_ordered P (hashes_by_ascending_fee m1) tb tc m1
         else m1)"

definition hybrid_score :: "u64 \<Rightarrow> mempool_manager \<Rightarrow> hash \<Rightarrow> u64" where
  "hybrid_score now m h =
     (let fee_rate = hm_get_or (fee_cache m) h 0;
          age = (case hm_get (tx_timestamps m) h of None \<Rightarrow> 0 | Some t \<Rightarrow> saturating_sub now t);
          fee_score = (if fee_rate > 0 then 1000000 div (fee_rate + 1) else 1000000);
          age_score = age div 3600
      in fee_score + age_score)"

definition evict_hybrid ::
  "'a tx_api_scheme \<Rightarrow> u64 \<Rightarrow> u64 \<Rightarrow> nat \<Rightarrow> mempool_manager \<Rightarrow> mempool_manager" where
  "evict_hybrid P now tb tc m =
     evict_ordered P
       (order_by (\<lambda>score. - uint score) (map (\<lambda>h. (h, hybrid_score now m h)) (transaction_hashes m)))
       tb tc m"

definition pooled_is_spam :: "'a protocol_scheme \<Rightarrow> mempool_manager \<Rightarrow> hash \<times> transaction \<Rightarrow> bool" where
  "pooled_is_spam P m e = is_spam P None (snd e) (hm_get (tx_witnesses m) (fst e))"

definition evict_spam_first ::
  "'a protocol_scheme \<Rightarrow> u64 \<Rightarrow> nat \<Rightarrow> mempool_manager \<Rightarrow> mempool_manager" where
  "evict_spam_first P tb tc m =
     (let spam_txs = fee_rows m (map fst (filter (pooled_is_spam P m) (transactions m)));
          non_spam_txs = fee_rows m (map fst (filter (\<lambda>e. \<not> pooled_is_spam P m e) (transactions m)))
      in evict_ordered P (order_by (\<lambda>r. r) spam_txs @ order_by (\<lambda>r. r) non_spam_txs) tb tc m)"

fun evict_by ::
  "'a protocol_scheme \<Rightarrow> u64 \<Rightarrow> eviction_strategy \<Rightarrow> u64 \<Rightarrow> nat \<Rightarrow> mempool_manager \<Rightarrow> mempool_manager" where
  "evict_by P now LowestFeeRate tb tc m = evict_lowest_fee_rate P tb tc m"
| "evict_by P now OldestFirst tb tc m = evict_oldest_first P tb tc m"
| "evict_by P now LargestFirst tb tc m = evict_largest_first P tb tc m"
| "evict_by P now NoDescendantsFirst tb tc m = evict_no_descendants_first P tb tc m"
| "evict_by P now Hybrid tb tc m = evict_hybrid P now tb tc m"
| "evict_by P now SpamFirst tb tc m = evict_spam_first P tb tc m"

definition get_min_fee_rate_sat_per_vb :: "mempool_manager \<Rightarrow> u64" where
  "get_min_fee_rate_sat_per_vb m =
     (case hm_keys (fee_index m) of [] \<Rightarrow> 0 | r # rs \<Rightarrow> foldl min r rs)"

definition cap_bytes :: "mempool_policy_config \<Rightarrow> u64" where
  "cap_bytes pol = saturating_mul (max_mempool_mb pol) 1048576"

definition enforce_mempool_limits :: "'a protocol_scheme \<Rightarrow> u64 \<Rightarrow> mempool_manager \<Rightarrow> mempool_manager" where
  "enforce_mempool_limits P now m =
     (let pol = policy m;
          current_bytes = mempool_size_bytes P m;
          current_txs = mempool_size m
      in if \<not> (current_bytes > cap_bytes pol \<or> current_txs > max_mempool_txs pol) then m
         else
           let m1 = publish [MempoolThresholdExceeded current_txs (max_mempool_txs pol)] m;
               old_min = get_min_fee_rate_sat_per_vb m1;
               m2 = evict_by P now (eviction_strategy pol) (cap_bytes pol) (max_mempool_txs pol) m1;
               new_min = get_min_fee_rate_sat_per_vb m2
           in if new_min \<noteq> old_min then publish [FeeRateChanged old_min new_min (mempool_size m2)] m2
              else m2)"

definition expired_hashes :: "u64 \<Rightarrow> u64 \<Rightarrow> mempool_manager \<Rightarrow> hash list" where
  "expired_hashes now expiry_time m =
     map fst (filter (\<lambda>(h, t). saturating_sub now t > expiry_time) (tx_timestamps m))"

definition cleanup_old_transactions :: "'a protocol_scheme \<Rightarrow> u64 \<Rightarrow> mempool_manager \<Rightarrow> mempool_manager" where
  "cleanup_old_transactions P now m =
     (let m1 = (case checked_mul (mempool_expiry_hours (policy m)) 3600 of
          None \<Rightarrow> m
        | Some expiry_time \<Rightarrow>
            foldl (\<lambda>m h. snd (evict_with_descendants P h m)) m (expired_hashes now expiry_time m))
      in enforce_mempool_limits P now m1)"



section \<open>Removing a package\<close>

text \<open>What an operation that only removes packages of transactions guarantees.\<close>

definition shrinks :: "mempool_manager \<Rightarrow> mempool_manager \<Rightarrow> bool" where
  "shrinks m m' \<longleftrightarrow>
     pooled m' \<subseteq> pooled m \<and> policy_config m' = policy_config m
   \<and> (\<forall>h \<in> pooled m'. hm_get (transactions m') h = hm_get (transactions m) h
        \<and> hm_get (tx_witnesses m') h = hm_get (tx_witnesses m) h
        \<and> hm_get (tx_timestamps m') h = hm_get (tx_timestamps m) h
        \<and> mm_set (tx_descendants m') h = mm_set (tx_descendants m) h \<inter> pooled m')
   \<and> (\<forall>p \<in> pooled m - pooled m'. mm_set (tx_descendants m) p \<inter> pooled m' = {})"

lemma shrinks_refl: "graph_inv m \<Longrightarrow> shrinks m m"
  using child_pooled [of m] by (auto simp: shrinks_def)

lemma shrinks_trans: "shrinks m1 m2 \<Longrightarrow> shrinks m2 m3 \<Longrightarrow> shrinks m1 m3"
  unfolding shrinks_def by (intro conjI ballI) (auto, blast+)

abbreviation remove_all :: "hash list \<Rightarrow> mempool_manager \<Rightarrow> mempool_manager" where
  "remove_all hs m \<equiv> foldl (\<lambda>m h. remove_tx h m) m hs"

lemma remove_all_get:
  "hm_get (transactions (remove_all hs m)) g = (if g \<in> set hs then None else hm_get (transactions m) g)"
proof (induction hs arbitrary: m)
  case (Cons h hs)
  show ?case
    by (cases "hm_get (transactions m) h") (auto simp: Cons remove_tx_fields delete_conv')
qed simp

lemma remove_all_pooled: "pooled (remove_all hs m) = pooled m - set hs"
  by (auto simp: pooled_def mm_dom_iff remove_all_get split: if_splits)

lemma remove_tx_keeps:
  assumes "g \<noteq> h"
  shows "hm_get (tx_witnesses (remove_tx h m)) g = hm_get (tx_witnesses m) g"
    and "hm_get (tx_timestamps (remove_tx h m)) g = hm_get (tx_timestamps m) g"
    and "hm_get (transactions (remove_tx h m)) g = hm_get (transactions m) g"
  using assms by (cases "hm_get (transactions m) h"; simp add: remove_tx_fields delete_conv')+

lemma remove_all_keeps:
  "g \<notin> set hs \<Longrightarrow> hm_get (tx_witnesses (remove_all hs m)) g = hm_get (tx_witnesses m) g
    \<and> hm_get (tx_timestamps (remove_all hs m)) g = hm_get (tx_timestamps m) g"
  by (induction hs arbitrary: m) (auto simp: remove_tx_keeps)

lemma remove_all_inv: "pool_inv P m \<Longrightarrow> pool_inv P (remove_all hs m)"
  by (induction hs arbitrary: m) (auto simp: pool_inv_remove)

lemma remove_all_config [simp]: "policy_config (remove_all hs m) = policy_config m"
  by (induction hs arbitrary: m) auto

lemma remove_all_edges:
  "graph_inv m \<Longrightarrow> p \<notin> set hs \<Longrightarrow> p \<in> pooled m \<Longrightarrow>
    mm_set (tx_descendants (remove_all hs m)) p = mm_set (tx_descendants m) p - set hs"
proof (induction hs arbitrary: m)
  case (Cons h hs)
  show ?case
  proof (cases "h \<in> pooled m")
    case True
    have "p \<in> pooled (remove_tx h m)"
      using Cons.prems(2,3) remove_all_pooled [of m "[h]"] by simp
    with True Cons show ?thesis
      by (auto simp: graph_inv_remove remove_tx_edges(2))
  next
    case False
    then have "h \<notin> mm_set (tx_descendants m) p"
      using child_pooled [OF Cons.prems(1)] by blast
    with False Cons show ?thesis by (auto simp: pooled_def mm_dom_iff)
  qed
qed simp

lemma remove_closed_shrinks:
  assumes "graph_inv m" "\<forall>p \<in> set hs. mm_set (tx_descendants m) p \<subseteq> set hs"
  shows "shrinks m (remove_all hs m)"
proof -
  have edges: "mm_set (tx_descendants (remove_all hs m)) h = mm_set (tx_descendants m) h \<inter> (pooled m - set hs)"
    if "h \<in> pooled m - set hs" for h
    using remove_all_edges [OF assms(1), of h hs] that child_pooled [OF assms(1)] by auto
  show ?thesis
    unfolding shrinks_def remove_all_pooled
    using assms(2) remove_all_keeps [of _ hs m] edges by (auto simp: remove_all_get)
qed


section \<open>Bytes and counts are conserved\<close>

definition entry_bytes :: "'a tx_api_scheme \<Rightarrow> mempool_manager \<Rightarrow> hash \<Rightarrow> nat" where
  "entry_bytes P m h =
     (case hm_get (transactions m) h of
        None \<Rightarrow> 0 | Some tx \<Rightarrow> unat (accounted_tx_bytes P tx (hm_get (tx_witnesses m) h)))"

definition pool_bytes :: "'a tx_api_scheme \<Rightarrow> mempool_manager \<Rightarrow> nat" where
  "pool_bytes P m = (\<Sum>h \<in> pooled m. entry_bytes P m h)"

lemma finite_pooled [simp]: "finite (pooled m)"
  by (simp add: pooled_def mm_dom_fst [symmetric])

lemma mempool_size_card: "hm_wf (transactions m) \<Longrightarrow> mempool_size m = card (pooled m)"
  using hm.card_dom [of "transactions m"] by (simp add: mempool_size_def pooled_def mm_dom_def)

lemma pool_bytes_list:
  assumes "hm_wf (transactions m)"
  shows "pool_bytes P m =
    (\<Sum>e\<leftarrow>transactions m. unat (accounted_tx_bytes P (snd e) (hm_get (tx_witnesses m) (fst e))))"
proof -
  have d: "distinct (map fst (transactions m))" using assms by (simp add: hm_wf_def)
  have "pool_bytes P m = (\<Sum>h\<leftarrow>map fst (transactions m). entry_bytes P m h)"
    unfolding pool_bytes_def pooled_def mm_dom_fst [symmetric]
    using sum_list_distinct_conv_sum_set [OF d, of "entry_bytes P m"] by simp
  also have "\<dots> = (\<Sum>e\<leftarrow>transactions m. entry_bytes P m (fst e))" by (simp add: comp_def)
  also have "\<dots> = (\<Sum>e\<leftarrow>transactions m. unat (accounted_tx_bytes P (snd e) (hm_get (tx_witnesses m) (fst e))))"
    using d by (intro arg_cong [where f = sum_list] map_cong refl) (auto simp: entry_bytes_def)
  finally show ?thesis .
qed

lemma mempool_size_bytes_eq:
  assumes "hm_wf (transactions m)" "pool_bytes P m < 2 ^ 64"
  shows "unat (mempool_size_bytes P m) = pool_bytes P m"
proof -
  let ?f = "\<lambda>e. accounted_tx_bytes P (snd e) (hm_get (tx_witnesses m) (fst e))"
  have "mempool_size_bytes P m = (\<Sum>e\<leftarrow>transactions m. ?f e)"
    by (simp add: mempool_size_bytes_def case_prod_unfold)
  with unat_sum_list [of ?f "transactions m"] assms show ?thesis by (simp add: pool_bytes_list)
qed

lemma remove_tx_bytes:
  assumes "h \<in> pooled m"
  shows "pool_bytes P (remove_tx h m) + entry_bytes P m h = pool_bytes P m"
    and "card (pooled (remove_tx h m)) + 1 = card (pooled m)"
proof -
  have pooled: "pooled (remove_tx h m) = pooled m - {h}" using remove_all_pooled [of m "[h]"] by simp
  have same: "entry_bytes P (remove_tx h m) g = entry_bytes P m g" if "g \<noteq> h" for g
    using that by (simp add: entry_bytes_def remove_tx_keeps split: option.split)
  have "pool_bytes P (remove_tx h m) = (\<Sum>g \<in> pooled m - {h}. entry_bytes P m g)"
    unfolding pool_bytes_def pooled by (rule sum.cong) (auto simp: same)
  then show "pool_bytes P (remove_tx h m) + entry_bytes P m h = pool_bytes P m"
    using assms by (simp add: pool_bytes_def sum.remove)
  have "0 < card (pooled m)" using assms by (auto simp: card_gt_0_iff)
  with pooled assms show "card (pooled (remove_tx h m)) + 1 = card (pooled m)" by simp
qed

lemma evict_one_eq:
  "evict_one P ((b, c), m) h =
    (if h \<in> pooled m then ((b + of_nat (entry_bytes P m h), c + 1), remove_tx h m) else ((b, c), m))"
  by (auto simp: evict_one_def entry_bytes_def pooled_def mm_dom_iff remove_tx_def
      remove_transaction_def Let_def split: option.splits)

lemma evict_fold_conserves:
  assumes "foldl (evict_one P) ((b, c), m) hs = ((b', c'), m')"
    and "unat b + pool_bytes P m < 2 ^ 64"
  shows "m' = remove_all hs m \<and> unat b' + pool_bytes P m' = unat b + pool_bytes P m
    \<and> c' + card (pooled m') = c + card (pooled m)"
  using assms
proof (induction hs arbitrary: b c m)
  case (Cons h hs)
  show ?case
  proof (cases "h \<in> pooled m")
    case False
    then have "remove_tx h m = m" by (simp add: pooled_def mm_dom_iff)
    with False Cons show ?thesis by (simp add: evict_one_eq)
  next
    case True
    note R = remove_tx_bytes(1) [OF True, of P] remove_tx_bytes(2) [OF True]
    have "unat (b + of_nat (entry_bytes P m h)) = unat b + entry_bytes P m h"
      using Cons.prems(2) R(1) by (simp add: unat_word_ariths unat_of_nat)
    with True Cons.IH [of "b + of_nat (entry_bytes P m h)" "c + 1" "remove_tx h m"] Cons.prems R
    show ?thesis by (auto simp: evict_one_eq)
  qed
qed simp

lemma evict_with_descendants_spec:
  assumes "pool_inv P m" "pool_bytes P m < 2 ^ 64" "evict_with_descendants P h m = ((b, c), m')"
  shows "unat b + pool_bytes P m' = pool_bytes P m" "c + card (pooled m') = card (pooled m)"
    and "shrinks m m'" "pool_inv P m'" "h \<notin> pooled m'"
    and "m' = (if h \<in> pooled m then remove_all (replacement_package m h) m else m)"
proof -
  have g: "graph_inv m" using assms(1) by (simp add: pool_inv_def)
  have *: "unat b + pool_bytes P m' = pool_bytes P m \<and> c + card (pooled m') = card (pooled m)
    \<and> shrinks m m' \<and> pool_inv P m' \<and> h \<notin> pooled m'
    \<and> m' = (if h \<in> pooled m then remove_all (replacement_package m h) m else m)"
  proof (cases "h \<in> pooled m")
    case False
    then show ?thesis
      using assms shrinks_refl [OF g]
      by (auto simp: evict_with_descendants_def pooled_def mm_dom_fst)
  next
    case True
    then have f: "foldl (evict_one P) ((0, 0), m) (replacement_package m h) = ((b, c), m')"
      using assms(3) by (simp add: evict_with_descendants_def pooled_def mm_dom_fst)
    note E = evict_fold_conserves [OF f] assms(2)
    have closed: "\<forall>p \<in> set (replacement_package m h). mm_set (tx_descendants m) p \<subseteq> set (replacement_package m h)"
      unfolding set_replacement_package_gen pool_children_graph [OF g]
      by (auto simp: child_rel_def intro: rtrancl_into_rtrancl)
    show ?thesis
      using E True remove_closed_shrinks [OF g closed] remove_all_inv [OF assms(1)]
        root_in_package [of h m] by (auto simp: remove_all_pooled)
  qed
  show "unat b + pool_bytes P m' = pool_bytes P m" "c + card (pooled m') = card (pooled m)"
    "shrinks m m'" "pool_inv P m'" "h \<notin> pooled m'"
    "m' = (if h \<in> pooled m then remove_all (replacement_package m h) m else m)"
    using * by blast+
qed


section \<open>The eviction loop\<close>

lemma shrinks_pooled: "shrinks m m' \<Longrightarrow> pooled m' \<subseteq> pooled m"
  by (simp add: shrinks_def)

lemma evict_loop_spec:
  fixes order tc tb
  assumes "pool_inv P m" "pool_bytes P m < 2 ^ 64"
    and "unat bytes = pool_bytes P m" "count = card (pooled m)"
  defines "m' \<equiv> evict_loop P tb tc order bytes count m"
  shows "pool_inv P m' \<and> shrinks m m' \<and> pool_bytes P m' < 2 ^ 64
    \<and> (pooled m \<subseteq> set order \<longrightarrow> pool_bytes P m' \<le> unat tb \<and> card (pooled m') \<le> tc)"
  using assms(1-4) unfolding m'_def
proof (induction P tb tc order bytes count m rule: evict_loop.induct)
  case (1 P tb tc bytes count m)
  then show ?case by (auto simp: pool_inv_def pool_bytes_def intro: shrinks_refl)
next
  case (2 P tb tc h order bytes count m)
  show ?case
  proof (cases "bytes \<le> tb \<and> count \<le> tc")
    case True
    then show ?thesis
      using 2 by (auto simp: pool_inv_def word_le_nat_alt intro: shrinks_refl)
  next
    case False
    obtain b c m1 where e: "evict_with_descendants P h m = ((b, c), m1)"
      by (metis prod.exhaust)
    note E = evict_with_descendants_spec [OF "2.prems"(1,2) e]
    have "unat (saturating_sub bytes b) = pool_bytes P m1" "count - c = card (pooled m1)"
      using "2.prems"(3,4) E(1,2) by (auto simp: unat_saturating_sub)
    moreover have "pool_bytes P m1 < 2 ^ 64" using "2.prems"(2) E(1) by simp
    moreover have "pooled m1 \<subseteq> set order" if "pooled m \<subseteq> set (h # order)"
      using that E(5) shrinks_pooled [OF E(3)] by auto
    ultimately show ?thesis
      using "2.IH" [OF False e [symmetric] refl E(4)] E(3) False e
      by (auto intro: shrinks_trans)
  qed
qed

text \<open>
  The contract of an eviction order: it names every pooled transaction. Whatever the order is,
  the loop then meets both caps, keeps the invariants and removes only whole packages.
\<close>

locale eviction_order =
  fixes P :: "'a tx_api_scheme" and order :: "mempool_manager \<Rightarrow> hash list"
  assumes covers: "pool_inv P m \<Longrightarrow> pooled m \<subseteq> set (order m)"
begin

lemma evict_meets_caps:
  fixes tb tc
  assumes "pool_inv P m" "pool_bytes P m < 2 ^ 64"
  defines "m' \<equiv> evict_ordered P (order m) tb tc m"
  shows "pool_inv P m' \<and> shrinks m m' \<and> pool_bytes P m' < 2 ^ 64
    \<and> mempool_size_bytes P m' \<le> tb \<and> mempool_size m' \<le> tc"
proof -
  have wf: "hm_wf (transactions m)" using assms(1) by (simp add: pool_inv_def spend_inv_def)
  have L: "pool_inv P m' \<and> shrinks m m' \<and> pool_bytes P m' < 2 ^ 64
    \<and> pool_bytes P m' \<le> unat tb \<and> card (pooled m') \<le> tc"
    using evict_loop_spec [OF assms(1,2) mempool_size_bytes_eq [OF wf assms(2)] mempool_size_card [OF wf]]
      covers [OF assms(1)]
    unfolding m'_def evict_ordered_def by blast
  then have "hm_wf (transactions m')" by (simp add: pool_inv_def spend_inv_def)
  with L show ?thesis
    by (simp add: word_le_nat_alt mempool_size_bytes_eq mempool_size_card)
qed

end

lemma insort_key_pairs:
  "insort_key snd (h, k h) (map (\<lambda>h. (h, k h)) hs) = map (\<lambda>h. (h, k h)) (insort_key k h hs)"
  by (induction hs) auto

lemma sort_key_pairs:
  "sort_key snd (map (\<lambda>h. (h, k h)) hs) = map (\<lambda>h. (h, k h)) (sort_key k hs)"
  by (induction hs) (simp_all add: sort_key_simps insort_key_pairs)

lemma sort_key_fst_map:
  "map fst (sort_key (\<lambda>(h, r). r) (map (\<lambda>h. (h, k h)) hs)) = sort_key k hs"
  using sort_key_pairs [of k hs] by (simp add: case_prod_unfold comp_def snd_def [symmetric])

lemma set_order_by [simp]: "set (order_by key rows) = fst ` set rows"
  by (simp add: order_by_def)

lemma set_fee_rows [simp]: "fst ` set (fee_rows m hs) = set hs"
  by (force simp: fee_rows_def)

lemma set_transaction_hashes [simp]: "set (transaction_hashes m) = pooled m"
  by (simp add: transaction_hashes_def pooled_def mm_dom_fst)

interpretation by_fee: eviction_order P hashes_by_ascending_fee for P
  by unfold_locales (simp add: hashes_by_ascending_fee_def)

interpretation by_age: eviction_order P
  "\<lambda>m. order_by (\<lambda>t. t) (List.map_filter
      (\<lambda>h. map_option (\<lambda>t. (h, t)) (hm_get (tx_timestamps m) h)) (transaction_hashes m))" for P
proof
  fix m
  assume "pool_inv P m"
  then have "mm_dom (tx_timestamps m) = pooled m" by (simp add: pool_inv_def table_inv_def)
  then show "pooled m \<subseteq> set (order_by (\<lambda>t. t) (List.map_filter
      (\<lambda>h. map_option (\<lambda>t. (h, t)) (hm_get (tx_timestamps m) h)) (transaction_hashes m)))"
    by (force simp: List.map_filter_def mm_dom_iff set_eq_iff)
qed

interpretation by_size: eviction_order P
  "\<lambda>m. order_by (\<lambda>size. - int size)
     (map (\<lambda>(h, tx). (h, length (serialize_transaction P tx))) (transactions m))" for P
  by unfold_locales (force simp: pooled_def mm_dom_fst [symmetric])

interpretation by_score: eviction_order P
  "\<lambda>m. order_by (\<lambda>score. - uint score) (map (\<lambda>h. (h, hybrid_score now m h)) (transaction_hashes m))"
  for P now
  by unfold_locales force

interpretation spam_first: eviction_order P
  "\<lambda>m. order_by (\<lambda>r. r) (fee_rows m (map fst (filter (pooled_is_spam P m) (transactions m))))
     @ order_by (\<lambda>r. r) (fee_rows m (map fst (filter (\<lambda>e. \<not> pooled_is_spam P m e) (transactions m))))"
  for P :: "'a protocol_scheme"
  by unfold_locales (auto simp: pooled_def mm_dom_fst [symmetric])

lemma evict_by_spec:
  fixes s tb tc now
  assumes "pool_inv P m" "pool_bytes P m < 2 ^ 64"
  defines "m' \<equiv> evict_by P now s tb tc m"
  shows "pool_inv P m' \<and> shrinks m m' \<and> pool_bytes P m' < 2 ^ 64
    \<and> mempool_size_bytes P m' \<le> tb \<and> mempool_size m' \<le> tc"
proof (cases s)
  case LowestFeeRate
  then show ?thesis unfolding m'_def
    using by_fee.evict_meets_caps [OF assms(1,2)] by (simp add: evict_lowest_fee_rate_def)
next
  case OldestFirst
  then show ?thesis unfolding m'_def
    using by_age.evict_meets_caps [OF assms(1,2)] by (simp add: evict_oldest_first_def)
next
  case LargestFirst
  then show ?thesis unfolding m'_def
    using by_size.evict_meets_caps [OF assms(1,2)] by (simp add: evict_largest_first_def)
next
  case Hybrid
  then show ?thesis unfolding m'_def
    using by_score.evict_meets_caps [OF assms(1,2)] by (simp add: evict_hybrid_def)
next
  case SpamFirst
  then show ?thesis unfolding m'_def
    using spam_first.evict_meets_caps [OF assms(1,2)] by (simp add: evict_spam_first_def Let_def)
next
  case NoDescendantsFirst
  define m1 where "m1 = evict_ordered P
      (order_by (\<lambda>r. r) (fee_rows m (filter (childless m) (transaction_hashes m)))) tb tc m"
  have wf: "hm_wf (transactions m)" using assms(1) by (simp add: pool_inv_def spend_inv_def)
  have 1: "pool_inv P m1" "shrinks m m1" "pool_bytes P m1 < 2 ^ 64"
    using evict_loop_spec [OF assms(1,2) mempool_size_bytes_eq [OF wf assms(2)] mempool_size_card [OF wf]]
    unfolding m1_def evict_ordered_def by blast+
  show ?thesis
    using by_fee.evict_meets_caps [OF 1(1,3)] 1 NoDescendantsFirst unfolding m'_def
    by (auto simp: evict_no_descendants_first_def Let_def m1_def [symmetric] not_less
      intro: shrinks_trans)
qed

lemma pool_inv_publish [simp]: "pool_inv P (publish es m) = pool_inv P m"
  by (simp add: pool_inv_def spend_inv_def table_inv_def graph_inv_def fee_inv_def pooled_def)

lemma entry_bytes_publish [simp]: "entry_bytes P (publish es m) h = entry_bytes P m h"
  by (simp add: entry_bytes_def split: option.split)

lemma publish_derived [simp]:
  "pooled (publish es m) = pooled m" "pool_bytes P (publish es m) = pool_bytes P m"
  "mempool_size_bytes P (publish es m) = mempool_size_bytes P m"
  "mempool_size (publish es m) = mempool_size m" "policy (publish es m) = policy m"
  "shrinks (publish es m) m' = shrinks m m'" "shrinks m' (publish es m) = shrinks m' m"
  by (simp_all add: pooled_def pool_bytes_def mempool_size_bytes_def mempool_size_def
      policy_def shrinks_def)

lemma enforce_mempool_limits_caps_gen:
  assumes "pool_inv P m" "pool_bytes P m < 2 ^ 64"
  shows "let m' = enforce_mempool_limits P now m in
    mempool_size_bytes P m' \<le> cap_bytes (policy m) \<and> mempool_size m' \<le> max_mempool_txs (policy m)
    \<and> pool_inv P m' \<and> shrinks m m'
    \<and> (mempool_size_bytes P m \<le> cap_bytes (policy m) \<and> mempool_size m \<le> max_mempool_txs (policy m)
         \<longrightarrow> m' = m)"
proof (cases "mempool_size_bytes P m > cap_bytes (policy m) \<or> mempool_size m > max_mempool_txs (policy m)")
  case False
  have "graph_inv m" using assms(1) by (simp add: pool_inv_def)
  with False assms show ?thesis
    by (auto simp: enforce_mempool_limits_def Let_def not_less intro: shrinks_refl)
next
  case True
  let ?m1 = "publish [MempoolThresholdExceeded (mempool_size m) (max_mempool_txs (policy m))] m"
  note E = evict_by_spec [of P ?m1 now "eviction_strategy (policy m)" "cap_bytes (policy m)"
      "max_mempool_txs (policy m)"]
  from True have m': "enforce_mempool_limits P now m =
      (let m2 = evict_by P now (eviction_strategy (policy m)) (cap_bytes (policy m))
                  (max_mempool_txs (policy m)) ?m1
       in if get_min_fee_rate_sat_per_vb m2 \<noteq> get_min_fee_rate_sat_per_vb ?m1
          then publish [FeeRateChanged (get_min_fee_rate_sat_per_vb ?m1)
                 (get_min_fee_rate_sat_per_vb m2) (mempool_size m2)] m2
          else m2)"
    by (elim disjE) (simp_all add: enforce_mempool_limits_def Let_def)
  show ?thesis
    unfolding m' Let_def using True assms E by (auto simp: not_less)
qed

text \<open>
  C6. Enforcing the limits brings the pool under both caps of the policy, whichever of the six
  strategies is configured; it leaves a pool that is already under the caps untouched, keeps
  every invariant, removes transactions only together with their recorded children, and
  alters no entry that stays.
\<close>

theorem enforce_mempool_limits_caps:
  assumes "pool_inv P m" "pool_bytes P m < 2 ^ 64"
  shows "let m' = enforce_mempool_limits P now m in
    mempool_size_bytes P m' \<le> cap_bytes (policy m) \<and> mempool_size m' \<le> max_mempool_txs (policy m)
    \<and> pool_inv P m' \<and> shrinks m m'
    \<and> (mempool_size_bytes P m \<le> cap_bytes (policy m) \<and> mempool_size m \<le> max_mempool_txs (policy m)
         \<longrightarrow> m' = m)"
  using enforce_mempool_limits_caps_gen [OF assms] .

theorem enforce_mempool_limits_caps_witness:
  "mempool_size (enforce_mempool_limits demo 0
     (set_policy_config (Some (default_policy \<lparr> max_mempool_txs := 1 \<rparr>)) demo_pool)) \<le> 1"
proof -
  let ?m = "set_policy_config (Some (default_policy \<lparr> max_mempool_txs := 1 \<rparr>)) demo_pool"
  have "pool_inv demo ?m"
    using demo_pool_inv by (simp add: set_policy_config_def pool_inv_def spend_inv_def table_inv_def
      graph_inv_def fee_inv_def pooled_def)
  moreover have "pool_bytes demo ?m < 2 ^ 64"
    by (simp add: pool_bytes_list hm_wf_def set_policy_config_def accounted_tx_bytes_def demo_def
      demo_parent_def demo_child_def demo_spend_def)
  ultimately have "mempool_size (enforce_mempool_limits demo 0 ?m) \<le> max_mempool_txs (policy ?m)"
    using enforce_mempool_limits_caps [of demo ?m 0] unfolding Let_def by blast
  then show ?thesis by (simp add: policy_def set_policy_config_def)
qed

text \<open>
  The order of the default strategy is by fee rate, lowest first, and names every pooled
  transaction exactly once, so what is evicted first never pays a higher recorded rate than
  what is kept longer.
\<close>

lemma hashes_by_ascending_fee_sorted:
  assumes "pool_inv P m"
  shows "sorted (map (\<lambda>h. hm_get_or (fee_cache m) h 0) (hashes_by_ascending_fee m))
    \<and> distinct (hashes_by_ascending_fee m) \<and> set (hashes_by_ascending_fee m) = pooled m"
proof -
  let ?k = "\<lambda>h. hm_get_or (fee_cache m) h 0"
  have eq: "hashes_by_ascending_fee m = sort_key ?k (transaction_hashes m)"
    unfolding hashes_by_ascending_fee_def order_by_def fee_rows_def
    by (simp add: sort_key_fst_map)
  have "distinct (transaction_hashes m)"
    using assms by (simp add: transaction_hashes_def pool_inv_def spend_inv_def hm_wf_def)
  then show ?thesis unfolding eq by simp
qed

lemma hashes_by_ascending_fee_sorted_witness: "set (hashes_by_ascending_fee demo_pool) = {1, 2}"
  using hashes_by_ascending_fee_sorted [OF demo_pool_inv] by simp

lemma evict_all_spec:
  assumes "pool_inv P m" "pool_bytes P m < 2 ^ 64"
  shows "let m' = foldl (\<lambda>m h. snd (evict_with_descendants P h m)) m hs in
    pool_inv P m' \<and> pool_bytes P m' < 2 ^ 64 \<and> shrinks m m' \<and> set hs \<inter> pooled m' = {}"
  using assms
proof (induction hs arbitrary: m)
  case Nil
  then show ?case by (simp add: shrinks_refl pool_inv_def)
next
  case (Cons h hs)
  obtain b c m1 where e: "evict_with_descendants P h m = ((b, c), m1)" by (metis prod.exhaust)
  note E = evict_with_descendants_spec [OF Cons.prems e]
  have "pool_bytes P m1 < 2 ^ 64" using Cons.prems(2) E(1) by simp
  from Cons.IH [OF E(4) this] E(3,5) e show ?case
    unfolding Let_def by (auto intro: shrinks_trans dest: shrinks_pooled)
qed

text \<open>
  After a maintenance tick no pooled transaction is older than the configured expiry, both caps
  hold, the invariants are kept, and an expired transaction takes its recorded descendants
  with it. An expiry too large to express in seconds expires nothing.
\<close>

lemma cleanup_expires:
  assumes "pool_inv P m" "pool_bytes P m < 2 ^ 64"
  shows "let m' = cleanup_old_transactions P now m in
    pool_inv P m' \<and> shrinks m m'
    \<and> mempool_size_bytes P m' \<le> cap_bytes (policy m) \<and> mempool_size m' \<le> max_mempool_txs (policy m)
    \<and> (\<forall>h \<in> pooled m'. \<forall>e t. checked_mul (mempool_expiry_hours (policy m)) 3600 = Some e
         \<longrightarrow> hm_get (tx_timestamps m') h = Some t \<longrightarrow> saturating_sub now t \<le> e)"
proof -
  define m1 where "m1 = (case checked_mul (mempool_expiry_hours (policy m)) 3600 of
      None \<Rightarrow> m
    | Some e \<Rightarrow> foldl (\<lambda>m h. snd (evict_with_descendants P h m)) m (expired_hashes now e m))"
  have g: "graph_inv m" using assms(1) by (simp add: pool_inv_def)
  have 1: "pool_inv P m1" "pool_bytes P m1 < 2 ^ 64" "shrinks m m1"
    using assms evict_all_spec [OF assms] shrinks_refl [OF g]
    by (auto simp: m1_def Let_def split: option.split)
  have fresh: "h \<notin> pooled m1"
    if "checked_mul (mempool_expiry_hours (policy m)) 3600 = Some e"
      "hm_get (tx_timestamps m) h = Some t" "e < saturating_sub now t" for h e t
  proof -
    have "h \<in> set (expired_hashes now e m)"
      using that(2,3) map_of_SomeD [OF that(2)] by (force simp: expired_hashes_def)
    then show ?thesis
      using evict_all_spec [OF assms, of "expired_hashes now e m"] that(1)
      by (auto simp: m1_def Let_def)
  qed
  have pol: "policy m1 = policy m" using 1(3) by (simp add: shrinks_def policy_def)
  have c: "cleanup_old_transactions P now m = enforce_mempool_limits P now m1"
    by (simp add: cleanup_old_transactions_def Let_def m1_def)
  note E = enforce_mempool_limits_caps_gen [OF 1(1,2), of now, unfolded pol Let_def]
  have s: "shrinks m (enforce_mempool_limits P now m1)" using 1(3) E by (blast intro: shrinks_trans)
  have old: "saturating_sub now t \<le> e"
    if "h \<in> pooled (enforce_mempool_limits P now m1)"
      "checked_mul (mempool_expiry_hours (policy m)) 3600 = Some e"
      "hm_get (tx_timestamps (enforce_mempool_limits P now m1)) h = Some t" for h e t
  proof -
    have "h \<in> pooled m1" "hm_get (tx_timestamps m) h = Some t"
      using that E s by (auto simp: shrinks_def)
    with fresh [OF that(2)] show ?thesis by (meson not_le)
  qed
  show ?thesis unfolding c Let_def using E s old by blast
qed

lemma cleanup_expires_witness:
  "mempool_size (cleanup_old_transactions demo 5000000 demo_pool) = 0"
proof -
  have fit: "pool_bytes demo demo_pool < 2 ^ 64"
    by (simp add: pool_bytes_list hm_wf_def accounted_tx_bytes_def demo_def demo_parent_def
      demo_child_def demo_spend_def)
  let ?m' = "cleanup_old_transactions demo 5000000 demo_pool"
  have pol: "policy demo_pool = default_policy" by (simp add: policy_def)
  have e: "checked_mul (mempool_expiry_hours default_policy) 3600 = Some 1209600"
    by (simp add: checked_mul_def default_policy_def)
  note C = cleanup_expires [OF demo_pool_inv fit, of 5000000, unfolded Let_def pol e]
  have "h \<notin> pooled ?m'" for h
  proof
    assume h: "h \<in> pooled ?m'"
    with C have "h \<in> {1, 2}" "hm_get (tx_timestamps ?m') h = hm_get (tx_timestamps demo_pool) h"
      by (auto simp: shrinks_def)
    then have t: "hm_get (tx_timestamps ?m') h = Some (if h = 1 then 10 else 20)" by auto
    from C h t have "saturating_sub 5000000 (if h = 1 then 10 else 20 :: u64) \<le> 1209600" by blast
    then show False by (simp add: saturating_sub_def split: if_splits)
  qed
  moreover have "hm_wf (transactions ?m')" using C by (simp add: pool_inv_def spend_inv_def)
  ultimately show ?thesis by (simp add: mempool_size_card card_eq_0_iff) blast
qed

end
