(* ===== verification/Mempool_Admit.thy ===== *)
theory Mempool_Admit
  imports Mempool_Rbf Mempool_Evict
begin

text \<open>
  Admission to the pool: \<^verbatim>\<open>add_transaction_with_witness\<close> in the order of its checks, the
  replacement it performs, the insertion, and the dry runs \<^verbatim>\<open>preview_accept\<close>,
  \<^verbatim>\<open>replacement_rejects\<close> and \<^verbatim>\<open>script_rejects\<close>. A rejection is \<open>Ok False\<close> and leaves through
  the early return of the source; the state is returned with the verdict.
\<close>


section \<open>Script checks\<close>

unbundle bit_operations_syntax

text \<open>The witness identifier of the production build.\<close>

definition calculate_wtxid :: "'a tx_api_scheme \<Rightarrow> transaction \<Rightarrow> witness list option \<Rightarrow> hash" where
  "calculate_wtxid P tx wits =
     (let txid = calculate_tx_id P tx in
      case wits of
        None \<Rightarrow> txid
      | Some ws \<Rightarrow>
          if \<not> list_ex (\<lambda>s. s \<noteq> []) ws then txid
          else case serialize_transaction_with_witness P tx ws of
            Err _ \<Rightarrow> txid
          | Ok serialized \<Rightarrow> hash_of_bytes (sha256 P (sha256 P serialized)))"

definition script_needs_witness_verification :: "'a script_api_scheme \<Rightarrow> byte_string \<Rightarrow> bool" where
  "script_needs_witness_verification P script = is_any_witness_program P script"

definition MEMPOOL_POLICY_HEIGHT :: u64 where "MEMPOOL_POLICY_HEIGHT = 1000000"
definition SCRIPT_VERIFY_MINIMALDATA :: u32 where "SCRIPT_VERIFY_MINIMALDATA = push_bit 6 1"

definition needs_witness_flags ::
  "'a script_api_scheme \<Rightarrow> transaction \<Rightarrow> input_prevout option list \<Rightarrow> bool" where
  "needs_witness_flags P tx ps =
     list_ex (\<lambda>(i, inp). case prevout_at ps i of
         None \<Rightarrow> False
       | Some p \<Rightarrow> script_needs_witness_verification P (ip_script p)
           \<or> p2sh_redeem_is_witness_program P (ip_script p) (script_sig inp))
       (enumerate 0 (inputs tx))"

text \<open>The policy flags that standardness adds, in the order of the source.\<close>

definition standard_script_flags :: "'a script_api_scheme \<Rightarrow> u32" where
  "standard_script_flags P =
     foldl (\<lambda>acc f. acc OR script_flag_bits P f) 0
       [DISCOURAGE_UPGRADABLE_NOPS, MINIMALIF, CLEANSTACK, NULLFAIL, LOW_S, WITNESS_PUBKEYTYPE,
        DISCOURAGE_OP_SUCCESS, DISCOURAGE_UPGRADABLE_TAPROOT_VERSION, CONST_SCRIPTCODE,
        DISCOURAGE_UPGRADABLE_WITNESS_PROGRAM, DISCOURAGE_UPGRADABLE_PUBKEYTYPE, STRICTENC]"

definition consensus_checks_reject ::
  "'a protocol_scheme \<Rightarrow> transaction \<Rightarrow> witness list option \<Rightarrow> input_prevout option list \<Rightarrow> bool \<Rightarrow> bool" where
  "consensus_checks_reject P tx wits ps require_std =
     (if is_coinbase P tx then True
      else if \<not> check_transaction_valid P tx then True
      else if (case wits of None \<Rightarrow> False | Some ws \<Rightarrow> length ws \<noteq> length (inputs tx)) then True
      else
        let has_witness = (needs_witness_flags P tx ps
              \<or> (case wits of None \<Rightarrow> False | Some ws \<Rightarrow> ws \<noteq> []));
            flags0 = calculate_script_flags P tx has_witness MEMPOOL_POLICY_HEIGHT Mainnet
              OR SCRIPT_VERIFY_MINIMALDATA;
            flags = (if require_std then flags0 OR standard_script_flags P else flags0);
            values = map (\<lambda>p. case p of None \<Rightarrow> 0 | Some p \<Rightarrow> ip_value p) ps;
            scripts = map (\<lambda>p. case p of None \<Rightarrow> [] | Some p \<Rightarrow> ip_script p) ps
        in list_ex (\<lambda>(i, inp). case prevout_at ps i of
               None \<Rightarrow> False
             | Some p \<Rightarrow>
                 verify_script P (script_sig inp) (ip_script p) (Option.bind wits (\<lambda>ws. list_get ws i))
                   flags tx i values scripts \<noteq> Ok True)
             (enumerate 0 (inputs tx)))"

text \<open>The witness limits \<^verbatim>\<open>script_rejects\<close> and admission share.\<close>

definition witness_limits_reject ::
  "'a script_api_scheme \<Rightarrow> transaction \<Rightarrow> input_prevout option list \<Rightarrow> witness list option \<Rightarrow> bool" where
  "witness_limits_reject P tx ps wits \<longleftrightarrow>
     p2wsh_data_item_exceeds P tx ps wits \<or> p2wsh_script_exceeds P tx ps wits
   \<or> p2wsh_stack_count_exceeds P tx ps wits \<or> taproot_annex_present ps wits
   \<or> tapscript_data_item_exceeds ps wits"

definition script_rejects ::
  "'a protocol_scheme \<Rightarrow> mempool_manager \<Rightarrow> transaction \<Rightarrow> witness list option \<Rightarrow> utxo_set \<Rightarrow> bool" where
  "script_rejects P m tx wits us =
     (let require_std = (case policy_config m of None \<Rightarrow> True | Some p \<Rightarrow> require_standard p);
          ps = script_prevouts m tx us
      in if require_std \<and> (witness_limits_reject P tx ps wits \<or> pay_to_anchor_witness_present P ps wits) then True
         else if consensus_checks_reject P tx wits ps require_std then True
         else snd (admit_vsize P m tx wits us) > MAX_STANDARD_TX_SIGOPS_COST P)"


section \<open>The checks of admission\<close>

text \<open>The \<^verbatim>\<open>seen\<close> loop over the inputs.\<close>

fun duplicate_input :: "outpoint hset \<Rightarrow> outpoint list \<Rightarrow> bool" where
  "duplicate_input seen [] = False"
| "duplicate_input seen (op # ops) =
     (if op \<in> set seen then True else duplicate_input (hs_insert op seen) ops)"

definition max_mempool_bytes_of :: "mempool_manager \<Rightarrow> u64" where
  "max_mempool_bytes_of m =
     saturating_mul (case policy_config m of None \<Rightarrow> 300 | Some p \<Rightarrow> max_mempool_mb p) 1048576"

definition structure_rejects ::
  "'a protocol_scheme \<Rightarrow> mempool_manager \<Rightarrow> transaction \<Rightarrow> witness list option \<Rightarrow> bool" where
  "structure_rejects P m tx wits =
     (if hm_contains (transactions m) (calculate_tx_id P tx) then True
      else if duplicate_input [] (prevouts tx) then True
      else if inputs tx = [] \<or> outputs tx = [] then True
      else accounted_tx_bytes P tx wits > max_mempool_bytes_of m)"

definition nonwitness_size :: "'a tx_api_scheme \<Rightarrow> transaction \<Rightarrow> nat" where
  "nonwitness_size P tx = (case wire_serialize_tx P tx of Ok bytes \<Rightarrow> length bytes | Err _ \<Rightarrow> 0)"

definition standardness_rejects ::
  "'a protocol_scheme \<Rightarrow> mempool_policy_config \<Rightarrow> transaction \<Rightarrow> witness list option \<Rightarrow> bool" where
  "standardness_rejects P pol tx wits =
     (if require_standard pol \<and> \<not> (1 \<le> version tx \<and> version tx \<le> 2) then True
      else if require_standard pol \<and> transaction_weight P tx wits > MAX_STANDARD_TX_WEIGHT then True
      else if require_standard pol \<and> nonwitness_size P tx < MIN_STANDARD_TX_NONWITNESS_SIZE then True
      else if require_standard pol
        \<and> list_ex (\<lambda>out. \<not> output_script_is_standard P (script_pubkey out)) (outputs tx) then True
      else if require_standard pol
        \<and> list_ex (\<lambda>inp. \<not> p2sh_push_only_check P (script_sig inp)) (inputs tx) then True
      else if require_standard pol
        \<and> list_ex (\<lambda>inp. length (script_sig inp) > MAX_STANDARD_SCRIPTSIG_SIZE) (inputs tx) then True
      else reject_spam_in_mempool pol \<and> is_spam P (spam_filter pol) tx wits)"

text \<open>The coins of the inputs; \<open>None\<close> when the UTXO set is wired but its lock is taken.\<close>

definition admission_snapshot :: "mempool_manager \<Rightarrow> transaction \<Rightarrow> (utxo_set \<times> bool) option" where
  "admission_snapshot m tx =
     (case utxo_set_arc m of
        None \<Rightarrow> Some ([], False)
      | Some (locked, chain) \<Rightarrow>
          if locked then None
          else
            let snapshot = foldl (\<lambda>us op. case hm_get chain op of
                    None \<Rightarrow> us | Some u \<Rightarrow> hm_insert op u us) [] (prevouts tx)
            in Some (fill_snapshot_misses m tx snapshot, True))"

definition ephemeral_dust_allowed :: "'a tx_api_scheme \<Rightarrow> mempool_manager \<Rightarrow> transaction \<Rightarrow> hash \<Rightarrow> bool" where
  "ephemeral_dust_allowed P m tx tx_hash \<longleftrightarrow>
     length (filter (output_is_dust P) (outputs tx)) = 1 \<and> tx_hash \<in> set (ephemeral_dust_waivers m)"

definition chain_rejects ::
  "'a protocol_scheme \<Rightarrow> mempool_manager \<Rightarrow> transaction \<Rightarrow> utxo_set \<Rightarrow> bool \<Rightarrow> bool" where
  "chain_rejects P m tx us utxo_wired =
     (let (height, mtp) = unwrap_or (finality_context P m) (0, 0) in
      if \<not> is_final_tx P tx height mtp then True
      else if relative_lock_rejects P m tx us then True
      else if list_ex (output_is_dust P) (outputs tx)
        \<and> \<not> ephemeral_dust_allowed P m tx (calculate_tx_id P tx) then True
      else if immature_coinbase_spend P m tx us then True
      else if unknown_prevout m tx us utxo_wired then True
      else if prevout_value_out_of_range P tx us then True
      else if prevout_sum_exceeds_money P m tx us then True
      else outputs_exceed_inputs P m tx us)"

definition undefined_witness_spend :: "'a script_api_scheme \<Rightarrow> input_prevout option list \<Rightarrow> bool" where
  "undefined_witness_spend P ps =
     list_ex (\<lambda>p. case p of None \<Rightarrow> False
       | Some p \<Rightarrow> is_upgradable_witness_program P (ip_script p) \<and> \<not> is_pay_to_anchor P (ip_script p)) ps"

definition nonstandard_spend :: "'a script_api_scheme \<Rightarrow> input_prevout option list \<Rightarrow> bool" where
  "nonstandard_spend P ps =
     list_ex (\<lambda>p. case p of None \<Rightarrow> False | Some p \<Rightarrow> \<not> spent_script_is_standard P (ip_script p)) ps"

definition spend_rejects ::
  "'a protocol_scheme \<Rightarrow> mempool_manager \<Rightarrow> mempool_policy_config \<Rightarrow> transaction \<Rightarrow> witness list option
    \<Rightarrow> utxo_set \<Rightarrow> bool" where
  "spend_rejects P m pol tx wits us =
     (let ps = script_prevouts m tx us in
      if require_standard pol \<and> p2sh_redeem_sigops_exceed P tx ps then True
      else if require_standard pol \<and> undefined_witness_spend P ps then True
      else if require_standard pol \<and> pay_to_anchor_witness_present P ps wits then True
      else if require_standard pol \<and> nonstandard_spend P ps then True
      else if require_standard pol \<and> witness_limits_reject P tx ps wits then True
      else if consensus_checks_reject P tx wits ps (require_standard pol) then True
      else snd (admit_vsize P m tx wits us) > MAX_STANDARD_TX_SIGOPS_COST P)"

text \<open>The fee gate: \<open>None\<close> rejects, otherwise the fee and the rate the pool records.\<close>

definition fee_gate ::
  "'a protocol_scheme \<Rightarrow> mempool_manager \<Rightarrow> mempool_policy_config \<Rightarrow> transaction \<Rightarrow> utxo_set \<Rightarrow> bool \<Rightarrow> u64
    \<Rightarrow> (u64 \<times> u64) option" where
  "fee_gate P m pol tx us utxo_wired vsize =
     (if \<not> utxo_wired then Some (0, 0)
      else
        let fee = calculate_transaction_fee P m tx us;
            fee_rate = (if vsize > 0 then fee div vsize else 0);
            waived = calculate_tx_id P tx \<in> set (relay_floor_waivers m)
        in if \<not> waived \<and> (ucast fee :: u128) < relay_price (min_relay_fee_rate pol) vsize then None
           else if fee < min_tx_fee pol then None
           else Some (fee, fee_rate))"


section \<open>Conflicts and replacement\<close>

text \<open>What the replacement would remove; \<open>None\<close> when it would need a package and may not.\<close>

definition displace :: "mempool_manager \<Rightarrow> bool \<Rightarrow> hash list option \<Rightarrow> hash \<Rightarrow> hash list option" where
  "displace m allow_packages displacement h =
     (case displacement of
        None \<Rightarrow> None
      | Some acc \<Rightarrow>
          let package = replacement_package m h in
          if \<not> allow_packages \<and> length package > 1 then None
          else if allow_packages then Some (hs_extend acc package) else Some (hs_insert h acc))"

definition displacement_set :: "mempool_manager \<Rightarrow> hash list \<Rightarrow> hash list option" where
  "displacement_set m direct =
     (let allow = (case mgr_rbf_config m of None \<Rightarrow> True | Some cfg \<Rightarrow> allow_package_replacements cfg)
      in foldl (displace m allow) (Some []) direct)"

text \<open>The checks against each directly conflicting transaction, in order.\<close>

fun conflicts_allow ::
  "'a protocol_scheme \<Rightarrow> u64 \<Rightarrow> mempool_manager \<Rightarrow> transaction \<Rightarrow> witness list option \<Rightarrow> utxo_set
    \<Rightarrow> hash list \<Rightarrow> (bool, string) result" where
  "conflicts_allow P now m tx wits us [] = Ok True"
| "conflicts_allow P now m tx wits us (h # hs) =
     (case hm_get (transactions m) h of
        None \<Rightarrow> conflicts_allow P now m tx wits us hs
      | Some existing_tx \<Rightarrow>
          (case check_rbf_replacement_with_witness P now m tx existing_tx us None wits of
             Err e \<Rightarrow> Err e
           | Ok False \<Rightarrow> Ok False
           | Ok True \<Rightarrow> conflicts_allow P now m tx wits us hs))"

definition replacement_allowed ::
  "'a protocol_scheme \<Rightarrow> u64 \<Rightarrow> mempool_manager \<Rightarrow> mempool_policy_config \<Rightarrow> transaction
    \<Rightarrow> witness list option \<Rightarrow> utxo_set \<Rightarrow> u64 \<Rightarrow> hash list \<Rightarrow> hash list \<Rightarrow> (bool, string) result" where
  "replacement_allowed P now m pol tx wits us vsize direct displaced =
     (if conflicting_cluster_count m direct > 100 then Ok False
      else if as_i64 (calculate_transaction_fee P m tx us)
          < fst (package_fee_and_vsize P m displaced us)
            + sint (relay_price (incremental_relay_fee pol) vsize) then Ok False
      else conflicts_allow P now m tx wits us direct)"

definition apply_replacement ::
  "u64 \<Rightarrow> hash \<Rightarrow> hash list \<Rightarrow> hash list \<Rightarrow> mempool_manager \<Rightarrow> mempool_manager" where
  "apply_replacement now tx_hash direct displaced m =
     (let m1 = foldl (\<lambda>m h. remove_tx h m) m displaced;
          primary = hd direct;
          original = (case hm_get (rbf_tracking m1) primary of
              None \<Rightarrow> primary | Some t \<Rightarrow> original_tx_hash t);
          count = next_replacement_count (map (\<lambda>h. case hm_get (rbf_tracking m1) h of
              None \<Rightarrow> 0 | Some t \<Rightarrow> replacement_count t) direct);
          tracking = hm_insert tx_hash \<lparr> replacement_count = count, last_replacement_time = now,
              original_tx_hash = original \<rparr> (rbf_tracking m1)
      in m1 \<lparr> rbf_tracking := foldl (\<lambda>t h. hm_remove h t) tracking displaced \<rparr>)"

text \<open>The conflict part of admission: the verdict, and the state to go on with when it is \<open>Ok True\<close>.\<close>

definition resolve_conflicts ::
  "'a protocol_scheme \<Rightarrow> u64 \<Rightarrow> mempool_manager \<Rightarrow> mempool_policy_config \<Rightarrow> transaction
    \<Rightarrow> witness list option \<Rightarrow> utxo_set \<Rightarrow> u64 \<Rightarrow> (bool, string) result \<times> mempool_manager" where
  "resolve_conflicts P now m pol tx wits us vsize =
     (let direct = direct_conflicts m tx in
      case displacement_set m direct of
        None \<Rightarrow> (Ok False, m)
      | Some displaced \<Rightarrow>
          if displaced \<noteq> [] then
            (case replacement_allowed P now m pol tx wits us vsize direct displaced of
               Err e \<Rightarrow> (Err e, m)
             | Ok False \<Rightarrow> (Ok False, m)
             | Ok True \<Rightarrow> (Ok True, apply_replacement now (calculate_tx_id P tx) direct displaced m))
          else if list_ex (\<lambda>op. op \<in> set (spent_outputs m)) (prevouts tx) then (Ok False, m)
          else (Ok True, m))"

definition add_transaction_with_witness ::
  "'a protocol_scheme \<Rightarrow> u64 \<Rightarrow> transaction \<Rightarrow> witness list option \<Rightarrow> mempool_manager
    \<Rightarrow> (bool, string) result \<times> mempool_manager" where
  "add_transaction_with_witness P now tx wits m =
     (let tx_hash = calculate_tx_id P tx; pol = policy m in
      if structure_rejects P m tx wits then (Ok False, m)
      else if standardness_rejects P pol tx wits then (Ok False, m)
      else case admission_snapshot m tx of
        None \<Rightarrow> (Ok False, m)
      | Some (us, utxo_wired) \<Rightarrow>
          if chain_rejects P m tx us utxo_wired then (Ok False, m)
          else if spend_rejects P m pol tx wits us then (Ok False, m)
          else
            let vsize = fst (admit_vsize P m tx wits us) in
            case fee_gate P m pol tx us utxo_wired vsize of
              None \<Rightarrow> (Ok False, m)
            | Some (fee, fee_rate) \<Rightarrow>
                (case resolve_conflicts P now m pol tx wits us vsize of
                   (Err e, m1) \<Rightarrow> (Err e, m1)
                 | (Ok False, m1) \<Rightarrow> (Ok False, m1)
                 | (Ok True, m1) \<Rightarrow>
                     if \<not> check_ancestor_descendant_limits m1 tx pol vsize then (Ok False, m1)
                     else if (case wits of None \<Rightarrow> False | Some ws \<Rightarrow> length ws \<noteq> length (inputs tx))
                       then (Ok False, m1)
                     else (Ok True, insert_admitted P now tx_hash (calculate_wtxid P tx wits) tx wits
                                      fee vsize fee_rate m1)))"

definition add_transaction ::
  "'a protocol_scheme \<Rightarrow> u64 \<Rightarrow> transaction \<Rightarrow> mempool_manager \<Rightarrow> (bool, string) result \<times> mempool_manager" where
  "add_transaction P now tx m = add_transaction_with_witness P now tx None m"



section \<open>Invariants of the pool\<close>

text \<open>
  What an invariant of the pool needs to survive every operation: it sees only the tables of
  the pooled transactions, it gives exclusive spends, and it survives one removal and one insertion of
  a fresh valid transaction whose inputs no pooled transaction spends.
\<close>

definition same_core :: "mempool_manager \<Rightarrow> mempool_manager \<Rightarrow> bool" where
  "same_core m m' \<longleftrightarrow>
     transactions m' = transactions m \<and> wtxids m' = wtxids m \<and> tx_witnesses m' = tx_witnesses m
   \<and> adjusted_vsize m' = adjusted_vsize m \<and> spent_outputs m' = spent_outputs m
   \<and> spenders m' = spenders m \<and> legacy_mempool m' = legacy_mempool m \<and> fee_index m' = fee_index m
   \<and> fee_cache m' = fee_cache m \<and> fee_basis m' = fee_basis m \<and> fee_deltas m' = fee_deltas m
   \<and> tx_timestamps m' = tx_timestamps m \<and> tx_heights m' = tx_heights m
   \<and> tx_dependencies m' = tx_dependencies m \<and> tx_descendants m' = tx_descendants m"

locale pool_invariant =
  fixes P :: "'a protocol_scheme" and inv :: "mempool_manager \<Rightarrow> bool"
  assumes inv_spend: "inv m \<Longrightarrow> spend_inv P m"
    and inv_core: "inv m \<Longrightarrow> same_core m m' \<Longrightarrow> inv m'"
    and inv_remove: "inv m \<Longrightarrow> inv (remove_tx h m)"
    and inv_insert: "inv m \<Longrightarrow> calculate_tx_id P tx = h \<Longrightarrow> h \<notin> pooled m \<Longrightarrow>
      \<forall>op \<in> set (prevouts tx). hm_get (spenders m) op = None \<Longrightarrow> check_transaction_valid P tx \<Longrightarrow>
      inv (insert_admitted P now h w tx wits fee vsize rate m)"
begin

lemma remove_all_keeps_inv: "inv m \<Longrightarrow> inv (remove_all hs m)"
  by (induction hs arbitrary: m) (auto simp: inv_remove)

lemma publish_keeps_inv: "inv m \<Longrightarrow> inv (publish es m)"
  by (erule inv_core) (simp add: same_core_def)

lemma apply_replacement_keeps_inv: "inv m \<Longrightarrow> inv (apply_replacement now h direct displaced m)"
  unfolding apply_replacement_def Let_def
  by (rule inv_core [of "remove_all displaced m"]) (simp_all add: remove_all_keeps_inv same_core_def)

end

lemma same_core_invs:
  assumes "same_core m m'"
  shows "spend_inv P m' = spend_inv P m" "table_inv m' = table_inv m" "graph_inv m' = graph_inv m"
    "fee_inv m' = fee_inv m"
  using assms
  by (simp_all add: same_core_def spend_inv_def table_inv_def graph_inv_def fee_inv_def pooled_def)

interpretation spends: pool_invariant P "spend_inv P" for P
  by unfold_locales (auto simp: same_core_invs spend_inv_remove spend_inv_insert)

interpretation tables: pool_invariant P "pool_inv P" for P
proof
  fix m m' assume "pool_inv P m"
  then show "spend_inv P m" by (simp add: pool_inv_def)
  show "same_core m m' \<Longrightarrow> pool_inv P m'"
    using \<open>pool_inv P m\<close> by (simp add: pool_inv_def same_core_invs)
qed (simp_all add: pool_inv_remove pool_inv_insert)

text \<open>Every pooled transaction has passed the context-free consensus checks.\<close>

definition valid_inv :: "'a protocol_scheme \<Rightarrow> mempool_manager \<Rightarrow> bool" where
  "valid_inv P m \<longleftrightarrow> spend_inv P m
     \<and> (\<forall>h tx. hm_get (transactions m) h = Some tx \<longrightarrow> check_transaction_valid P tx)"

interpretation valids: pool_invariant P "valid_inv P" for P
proof
  fix m m' :: mempool_manager and tx h now w wits fee vsize rate
  assume inv: "valid_inv P m"
  then show "spend_inv P m" by (simp add: valid_inv_def)
  show "valid_inv P (remove_tx h m)"
    using inv remove_all_get [of m "[h]"] by (simp add: valid_inv_def spend_inv_remove)
  show "same_core m m' \<Longrightarrow> valid_inv P m'"
    using inv same_core_invs(1) [of m m' P] by (simp add: valid_inv_def same_core_def)
  show "valid_inv P (insert_admitted P now h w tx wits fee vsize rate m)"
    if "calculate_tx_id P tx = h" "h \<notin> pooled m"
      "\<forall>op \<in> set (prevouts tx). hm_get (spenders m) op = None" "check_transaction_valid P tx"
    using inv that spend_inv_insert [OF \<open>spend_inv P m\<close> that(1-3), of now w wits fee vsize rate]
    by (simp add: valid_inv_def insert_admitted_fields(1) update_conv')
qed


section \<open>What admission does\<close>

lemma duplicate_input_iff: "duplicate_input seen ops \<longleftrightarrow> \<not> distinct ops \<or> set ops \<inter> set seen \<noteq> {}"
  by (induction ops arbitrary: seen) auto

lemma displacement_fold:
  "foldl (displace m allow) (Some a) direct = Some D \<Longrightarrow>
    set D = set a \<union> (\<Union>h \<in> set direct. set (replacement_package m h))"
proof (induction direct arbitrary: a)
  case (Cons h direct)
  have none: "foldl (displace m allow) None hs = None" for hs
    by (induction hs) (auto simp: displace_def)
  have single: "set (replacement_package m h) = {h}" if "\<not> length (replacement_package m h) > 1"
    using that root_in_package [of h m] by (cases "replacement_package m h") auto
  obtain a' where a': "displace m allow (Some a) h = Some a'"
    using Cons.prems none by (cases "displace m allow (Some a) h") auto
  have "set a' = set a \<union> set (replacement_package m h)"
  proof (cases allow)
    case False
    then have "\<not> length (replacement_package m h) > 1" "a' = hs_insert h a"
      using a' by (simp_all add: displace_def Let_def split: if_splits)
    then show ?thesis using single by simp
  qed (use a' in \<open>simp add: displace_def Let_def, metis set_hs_extend\<close>)
  moreover have "set D = set a' \<union> (\<Union>h \<in> set direct. set (replacement_package m h))"
    using Cons.IH [of a'] Cons.prems a' by simp
  ultimately show ?case by (simp add: Un_assoc)
qed simp

lemma displacement_setD:
  assumes "displacement_set m direct = Some D"
  shows "set D = (\<Union>h \<in> set direct. set (replacement_package m h))" "set direct \<subseteq> set D"
proof -
  show eq: "set D = (\<Union>h \<in> set direct. set (replacement_package m h))"
    using displacement_fold [OF assms [unfolded displacement_set_def Let_def]] by simp
  show "set direct \<subseteq> set D"
  proof
    fix h assume "h \<in> set direct"
    then show "h \<in> set D" unfolding eq by (rule UN_I) (rule root_in_package)
  qed
qed

lemma conflict_pooled:
  assumes "spend_inv P m" "h \<in> set (direct_conflicts m tx)"
  shows "h \<in> pooled m"
proof -
  obtain op where "hm_get (spenders m) op = Some h" using assms(2) by (auto simp: set_direct_conflicts)
  then show ?thesis using assms(1) unfolding spend_inv_def pooled_def mm_dom_iff by blast
qed

lemma displaced_pooled:
  assumes "spend_inv P m" "displacement_set m (direct_conflicts m tx) = Some D"
  shows "set D \<subseteq> pooled m"
  unfolding displacement_setD(1) [OF assms(2)]
proof (rule UN_least)
  fix h assume "h \<in> set (direct_conflicts m tx)"
  then show "set (replacement_package m h) \<subseteq> pooled m"
    by (intro package_pooled conflict_pooled [OF assms(1)])
qed

lemma apply_replacement_fields:
  fixes now h direct displaced m
  defines "m' \<equiv> apply_replacement now h direct displaced m"
  shows "transactions m' = transactions (remove_all displaced m)"
    "spenders m' = spenders (remove_all displaced m)" "pooled m' = pooled m - set displaced"
  using remove_all_pooled [of m displaced] by (simp_all add: m'_def apply_replacement_def Let_def pooled_def)

text \<open>After the conflicts are resolved no pooled transaction spends an input of the candidate.\<close>

lemma resolve_conflicts_spec:
  assumes "resolve_conflicts P now m pol tx wits us vsize = (r, m1)"
  shows "r \<noteq> Ok True \<Longrightarrow> m1 = m"
    and "r = Ok True \<Longrightarrow> direct_conflicts m tx = [] \<Longrightarrow> m1 = m"
    and "r = Ok True \<Longrightarrow> direct_conflicts m tx \<noteq> [] \<Longrightarrow>
      \<exists>D. displacement_set m (direct_conflicts m tx) = Some D
        \<and> replacement_allowed P now m pol tx wits us vsize (direct_conflicts m tx) D = Ok True
        \<and> m1 = apply_replacement now (calculate_tx_id P tx) (direct_conflicts m tx) D m"
proof -
  let ?d = "direct_conflicts m tx"
  have empty: "displacement_set m [] = Some []" by (simp add: displacement_set_def Let_def)
  show "r \<noteq> Ok True \<Longrightarrow> m1 = m"
    using assms by (auto simp: resolve_conflicts_def Let_def split: option.splits if_splits sum.splits bool.splits)
  show "r = Ok True \<Longrightarrow> ?d = [] \<Longrightarrow> m1 = m"
    using assms by (auto simp: resolve_conflicts_def Let_def empty split: if_splits)
  show "r = Ok True \<Longrightarrow> ?d \<noteq> [] \<Longrightarrow> \<exists>D. displacement_set m ?d = Some D
        \<and> replacement_allowed P now m pol tx wits us vsize ?d D = Ok True
        \<and> m1 = apply_replacement now (calculate_tx_id P tx) ?d D m"
    using assms displacement_setD(2) [of m ?d]
    by (auto simp: resolve_conflicts_def Let_def split: option.splits if_splits sum.splits bool.splits)
qed

lemma resolved_free:
  assumes "spend_inv P m" "resolve_conflicts P now m pol tx wits us vsize = (Ok True, m1)"
  shows "\<forall>op \<in> set (prevouts tx). hm_get (spenders m1) op = None"
proof (cases "direct_conflicts m tx = []")
  case True
  then have "set (direct_conflicts m tx) = {}" by simp
  moreover have "m1 = m" using resolve_conflicts_spec(2) [OF assms(2)] True by simp
  ultimately show ?thesis by (auto simp: set_direct_conflicts not_Some_eq [symmetric])
next
  case False
  then obtain D where D: "displacement_set m (direct_conflicts m tx) = Some D"
    "m1 = apply_replacement now (calculate_tx_id P tx) (direct_conflicts m tx) D m"
    using resolve_conflicts_spec(3) [OF assms(2)] by auto
  have inv1: "spend_inv P m1" unfolding D(2) by (rule spends.apply_replacement_keeps_inv [OF assms(1)])
  show ?thesis
  proof (intro ballI, rule ccontr)
    fix op assume op: "op \<in> set (prevouts tx)" and "hm_get (spenders m1) op \<noteq> None"
    then obtain h tx' where "hm_get (transactions m1) h = Some tx'" "op \<in> set (prevouts tx')"
      using inv1 unfolding spend_inv_def by (metis not_Some_eq)
    then have h: "h \<notin> set D" "hm_get (transactions m) h = Some tx'"
      unfolding D(2) apply_replacement_fields remove_all_get by (auto split: if_splits)
    then have "hm_get (spenders m) op = Some h"
      using assms(1) \<open>op \<in> set (prevouts tx')\<close> by (auto simp: spend_inv_def)
    then have "h \<in> set (direct_conflicts m tx)" using op by (auto simp: set_direct_conflicts)
    with displacement_setD(2) [OF D(1)] h show False by auto
  qed
qed

text \<open>Every check before the conflicts passed, with the coins, the fee and the rate they produced.\<close>

definition admission_checked ::
  "'a protocol_scheme \<Rightarrow> mempool_manager \<Rightarrow> transaction \<Rightarrow> witness list option \<Rightarrow> utxo_set \<Rightarrow> bool
    \<Rightarrow> u64 \<Rightarrow> u64 \<Rightarrow> bool" where
  "admission_checked P m tx wits us wired fee rate \<longleftrightarrow>
     \<not> structure_rejects P m tx wits \<and> \<not> standardness_rejects P (policy m) tx wits
   \<and> admission_snapshot m tx = Some (us, wired) \<and> \<not> chain_rejects P m tx us wired
   \<and> \<not> spend_rejects P m (policy m) tx wits us
   \<and> fee_gate P m (policy m) tx us wired (fst (admit_vsize P m tx wits us)) = Some (fee, rate)"

lemma add_transaction_cases:
  assumes "add_transaction_with_witness P now tx wits m = (r, m')"
  obtains (rejected) "r \<noteq> Ok True" "m' = m"
  | (late) us wired fee rate where "admission_checked P m tx wits us wired fee rate"
      "resolve_conflicts P now m (policy m) tx wits us (fst (admit_vsize P m tx wits us)) = (Ok True, m')"
      "r = Ok False"
  | (admitted) us wired fee rate m1 where "admission_checked P m tx wits us wired fee rate"
      "resolve_conflicts P now m (policy m) tx wits us (fst (admit_vsize P m tx wits us)) = (Ok True, m1)"
      "check_ancestor_descendant_limits m1 tx (policy m) (fst (admit_vsize P m tx wits us))"
      "r = Ok True" "m' = insert_admitted P now (calculate_tx_id P tx) (calculate_wtxid P tx wits) tx wits
         fee (fst (admit_vsize P m tx wits us)) rate m1"
proof -
  let ?v = "\<lambda>us. fst (admit_vsize P m tx wits us)"
  show thesis
  proof (cases "\<exists>us wired fee rate. admission_checked P m tx wits us wired fee rate")
    case False
    have "(r, m') = (Ok False, m)"
    proof (cases "admission_snapshot m tx")
      case (Some c)
      obtain us wired where c: "c = (us, wired)" by (cases c)
      have "fee_gate P m (policy m) tx us wired (?v us) = None
          \<or> structure_rejects P m tx wits \<or> standardness_rejects P (policy m) tx wits
          \<or> chain_rejects P m tx us wired \<or> spend_rejects P m (policy m) tx wits us"
        using False Some c unfolding admission_checked_def by fastforce
      then show ?thesis
        using assms unfolding add_transaction_with_witness_def Let_def Some c
        by (elim disjE) (simp_all split: if_splits)
    qed (use assms in \<open>simp add: add_transaction_with_witness_def Let_def split: if_splits\<close>)
    then show thesis by (intro rejected) auto
  next
    case True
    then obtain us wired fee rate where c: "admission_checked P m tx wits us wired fee rate" by blast
    obtain r1 m1 where rc: "resolve_conflicts P now m (policy m) tx wits us (?v us) = (r1, m1)" by fastforce
    have run: "(r, m') = (case r1 of Err e \<Rightarrow> (Err e, m1) | Ok False \<Rightarrow> (Ok False, m1)
       | Ok True \<Rightarrow> if \<not> check_ancestor_descendant_limits m1 tx (policy m) (?v us) then (Ok False, m1)
          else if (case wits of None \<Rightarrow> False | Some ws \<Rightarrow> length ws \<noteq> length (inputs tx)) then (Ok False, m1)
          else (Ok True, insert_admitted P now (calculate_tx_id P tx) (calculate_wtxid P tx wits) tx wits
                  fee (?v us) rate m1))"
      using assms c rc unfolding add_transaction_with_witness_def admission_checked_def Let_def by simp
    show thesis
    proof (cases "r1 = Ok True")
      case False
      then have "m1 = m" using resolve_conflicts_spec(1) [OF rc] by simp
      with False run show thesis by (intro rejected) (auto split: sum.splits bool.splits)
    next
      case True
      with run rc c late admitted show thesis by (auto split: if_splits)
    qed
  qed
qed

lemma checked_facts:
  assumes "admission_checked P m tx wits us wired fee rate"
  shows "calculate_tx_id P tx \<notin> pooled m" "distinct (prevouts tx)" "inputs tx \<noteq> []" "outputs tx \<noteq> []"
    "check_transaction_valid P tx" "\<not> is_coinbase P tx"
proof -
  have s: "\<not> structure_rejects P m tx wits" and c: "\<not> spend_rejects P m (policy m) tx wits us"
    using assms by (simp_all add: admission_checked_def)
  from s show "calculate_tx_id P tx \<notin> pooled m" "distinct (prevouts tx)" "inputs tx \<noteq> []" "outputs tx \<noteq> []"
    by (auto simp: structure_rejects_def duplicate_input_iff pooled_def mm_dom_fst split: if_splits)
  from c have "\<not> consensus_checks_reject P tx wits (script_prevouts m tx us) (require_standard (policy m))"
    by (auto simp: spend_rejects_def Let_def split: if_splits)
  then show "check_transaction_valid P tx" "\<not> is_coinbase P tx"
    by (auto simp: consensus_checks_reject_def split: if_splits)
qed

lemma resolved_pooled:
  assumes "resolve_conflicts P now m pol tx wits us vsize = (Ok True, m1)"
  shows "pooled m1 \<subseteq> pooled m"
  using resolve_conflicts_spec(2,3) [OF assms] apply_replacement_fields(3)
  by (cases "direct_conflicts m tx = []") fastforce+

context pool_invariant
begin

lemma resolve_keeps_inv:
  assumes "inv m" "resolve_conflicts P now m pol tx wits us vsize = (r, m1)"
  shows "inv m1"
  using resolve_conflicts_spec [OF assms(2)] assms(1) apply_replacement_keeps_inv
  by (cases "r = Ok True"; cases "direct_conflicts m tx = []") auto

lemma add_keeps_inv:
  assumes "inv m"
  shows "inv (snd (add_transaction_with_witness P now tx wits m))"
proof (cases "add_transaction_with_witness P now tx wits m" rule: prod.exhaust)
  case (Pair r m')
  then show ?thesis
  proof (cases rule: add_transaction_cases)
    case rejected
    then show ?thesis using assms Pair by simp
  next
    case late
    then show ?thesis using resolve_keeps_inv [OF assms] Pair by simp
  next
    case (admitted us wired fee rate m1)
    have "inv m1" by (rule resolve_keeps_inv [OF assms admitted(2)])
    moreover have "calculate_tx_id P tx \<notin> pooled m1"
      using checked_facts(1) [OF admitted(1)] resolved_pooled [OF admitted(2)] by blast
    moreover have "\<forall>op \<in> set (prevouts tx). hm_get (spenders m1) op = None"
      by (rule resolved_free [OF inv_spend [OF assms] admitted(2)])
    ultimately show ?thesis
      using admitted(5) Pair checked_facts(5) [OF admitted(1)] by (simp add: inv_insert)
  qed
qed

end



section \<open>Accepted transactions\<close>

lemma resolved_pooled_eq:
  assumes "resolve_conflicts P now m pol tx wits us vsize = (Ok True, m1)"
  shows "pooled m1 = pooled m - set (txs_this_replacement_removes m tx)"
proof (cases "direct_conflicts m tx = []")
  case True
  then show ?thesis
    using resolve_conflicts_spec(2) [OF assms]
    by (simp add: txs_this_replacement_removes_def packages_of_def)
next
  case False
  then obtain D where D: "displacement_set m (direct_conflicts m tx) = Some D"
    "m1 = apply_replacement now (calculate_tx_id P tx) (direct_conflicts m tx) D m"
    using resolve_conflicts_spec(3) [OF assms] by auto
  then show ?thesis
    by (simp add: apply_replacement_fields displacement_setD(1) txs_this_replacement_removes_def set_packages_of)
qed

lemma resolved_get:
  assumes "resolve_conflicts P now m pol tx wits us vsize = (Ok True, m1)" "h \<in> pooled m1"
  shows "hm_get (transactions m1) h = hm_get (transactions m) h"
proof (cases "direct_conflicts m tx = []")
  case False
  then obtain D where "m1 = apply_replacement now (calculate_tx_id P tx) (direct_conflicts m tx) D m"
    using resolve_conflicts_spec(3) [OF assms(1)] by auto
  then show ?thesis
    using assms(2) by (auto simp: apply_replacement_fields remove_all_get)
qed (use resolve_conflicts_spec(2) [OF assms(1)] in auto)

text \<open>
  C3. An accepted transaction was not pooled before, has no repeated input, and is pooled afterwards
  with every other pooled transaction except its conflicts and their recorded descendants,
  which are gone; the invariant of the pool holds again.
\<close>

theorem admission_effect:
  assumes "pool_inv P m" "add_transaction_with_witness P now tx wits m = (Ok True, m')"
  shows "pool_inv P m' \<and> calculate_tx_id P tx \<notin> pooled m \<and> distinct (prevouts tx)
    \<and> pooled m' = insert (calculate_tx_id P tx) (pooled m - set (txs_this_replacement_removes m tx))
    \<and> hm_get (transactions m') (calculate_tx_id P tx) = Some tx
    \<and> (\<forall>h \<in> pooled m' - {calculate_tx_id P tx}. hm_get (transactions m') h = hm_get (transactions m) h)
    \<and> (\<forall>op \<in> set (prevouts tx). hm_get (spenders m') op = Some (calculate_tx_id P tx))"
  using assms(2)
proof (cases rule: add_transaction_cases)
  case (admitted us wired fee rate m1)
  have inv: "pool_inv P m'" using tables.add_keeps_inv [OF assms(1), of now tx wits] assms(2) by simp
  have tx: "transactions m' = hm_insert (calculate_tx_id P tx) tx (transactions m1)"
    unfolding admitted(5) by (rule insert_admitted_fields(1))
  have p: "pooled m' = insert (calculate_tx_id P tx) (pooled m1)"
    unfolding admitted(5) by (rule insert_admitted_fields(17))
  have here: "hm_get (transactions m') (calculate_tx_id P tx) = Some tx" by (simp add: tx update_conv')
  have "spend_inv P m'" using inv by (simp add: pool_inv_def)
  with here have "hm_get (spenders m') op = Some (calculate_tx_id P tx)" if "op \<in> set (prevouts tx)" for op
    using that unfolding spend_inv_def by blast
  moreover have "hm_get (transactions m') h = hm_get (transactions m) h"
    if "h \<in> pooled m' - {calculate_tx_id P tx}" for h
    using that p resolved_get [OF admitted(2), of h] by (simp add: tx update_conv')
  ultimately show ?thesis
    using inv p here resolved_pooled_eq [OF admitted(2)] checked_facts(1,2) [OF admitted(1)] by blast
qed simp_all

text \<open>
  C24. A rejection or an error leaves the pool exactly as it was, unless the candidate conflicts with
  a pooled transaction: then the only other outcome of a rejection is that every conflict and its
  recorded descendants are gone although nothing replaced them.
\<close>

theorem rejection_effect:
  assumes "add_transaction_with_witness P now tx wits m = (r, m')" "r \<noteq> Ok True"
  shows "m' = m \<or> (direct_conflicts m tx \<noteq> [] \<and> r = Ok False
    \<and> pooled m' = pooled m - set (txs_this_replacement_removes m tx))"
  using assms(1)
proof (cases rule: add_transaction_cases)
  case (late us wired fee rate)
  show ?thesis
  proof (cases "direct_conflicts m tx = []")
    case True
    then show ?thesis using resolve_conflicts_spec(2) [OF late(2)] by simp
  next
    case False
    then show ?thesis using resolved_pooled_eq [OF late(2)] late(3) by simp
  qed
qed (use assms(2) in simp_all)

text \<open>The run of an admission whose replacement is allowed: the conflicts go before the last two checks.\<close>

lemma cleared_run:
  fixes P :: "'a protocol_scheme" and now tx wits m us D
  assumes "admission_checked P m tx wits us wired fee rate" "direct_conflicts m tx \<noteq> []"
    and "displacement_set m (direct_conflicts m tx) = Some D"
    and "replacement_allowed P now m (policy m) tx wits us (fst (admit_vsize P m tx wits us)) (direct_conflicts m tx) D = Ok True"
  defines "m1 \<equiv> apply_replacement now (calculate_tx_id P tx) (direct_conflicts m tx) D m"
  shows "add_transaction_with_witness P now tx wits m =
    (if \<not> check_ancestor_descendant_limits m1 tx (policy m) (fst (admit_vsize P m tx wits us)) then (Ok False, m1)
     else if (case wits of None \<Rightarrow> False | Some ws \<Rightarrow> length ws \<noteq> length (inputs tx)) then (Ok False, m1)
     else (Ok True, insert_admitted P now (calculate_tx_id P tx) (calculate_wtxid P tx wits) tx wits
             fee (fst (admit_vsize P m tx wits us)) rate m1))"
proof -
  have "D \<noteq> []" using displacement_setD(2) [OF assms(3)] assms(2) by auto
  then have "resolve_conflicts P now m (policy m) tx wits us (fst (admit_vsize P m tx wits us)) = (Ok True, m1)"
    using assms(3,4) by (simp add: resolve_conflicts_def m1_def)
  with assms(1) show ?thesis unfolding add_transaction_with_witness_def admission_checked_def Let_def by simp
qed

text \<open>
  C28. A replacement that fails late is not undone. A candidate that is not accepted changes the pooled set exactly when
  it passed every check up to and including the replacement of its conflicts, and then the ancestor and descendant
  limits or the count of its witnesses, which are looked at only after the conflicts have been removed, rejected it: the
  answer is a rejection, and the conflicts, of which there is at least one, are gone with all their recorded descendants.
\<close>

theorem failed_replacement_loses_conflicts:
  assumes "spend_inv P m" "add_transaction_with_witness P now tx wits m = (r, m')" "r \<noteq> Ok True"
  shows "(pooled m' \<noteq> pooled m \<longleftrightarrow>
      (\<exists>us wired fee rate D vsize. admission_checked P m tx wits us wired fee rate
        \<and> vsize = fst (admit_vsize P m tx wits us) \<and> direct_conflicts m tx \<noteq> []
        \<and> displacement_set m (direct_conflicts m tx) = Some D
        \<and> replacement_allowed P now m (policy m) tx wits us vsize (direct_conflicts m tx) D = Ok True
        \<and> (check_ancestor_descendant_limits (apply_replacement now (calculate_tx_id P tx) (direct_conflicts m tx) D m)
              tx (policy m) vsize
            \<longrightarrow> (\<exists>ws. wits = Some ws \<and> length ws \<noteq> length (inputs tx)))))
    \<and> (pooled m' \<noteq> pooled m \<longrightarrow> r = Ok False \<and> set (direct_conflicts m tx) \<subseteq> pooled m
        \<and> pooled m' = pooled m - set (txs_this_replacement_removes m tx) \<and> set (direct_conflicts m tx) \<inter> pooled m' = {})"
proof -
  let ?d = "direct_conflicts m tx" and ?R = "set (txs_this_replacement_removes m tx)"
  have sub: "set ?d \<subseteq> pooled m" using conflict_pooled [OF assms(1)] by blast
  have direct: "set ?d \<subseteq> ?R"
    using root_in_package by (fastforce simp: txs_this_replacement_removes_def set_packages_of)
  have lost: "pooled m' \<noteq> pooled m \<and> r = Ok False \<and> pooled m' = pooled m - ?R"
    if "admission_checked P m tx wits us wired fee rate" "?d \<noteq> []" "displacement_set m ?d = Some D"
      "replacement_allowed P now m (policy m) tx wits us (fst (admit_vsize P m tx wits us)) ?d D = Ok True"
    for us wired fee rate D
  proof -
    have "r = Ok False" "m' = apply_replacement now (calculate_tx_id P tx) ?d D m"
      using assms(2,3) cleared_run [OF that] by (auto split: if_splits)
    moreover have "set D = ?R"
      by (simp add: displacement_setD(1) [OF that(3)] txs_this_replacement_removes_def set_packages_of)
    moreover have "hd ?d \<in> pooled m \<inter> ?R" using sub direct list.set_sel(1) [OF that(2)] by blast
    ultimately show ?thesis by (auto simp: apply_replacement_fields)
  qed
  have cleared: "\<exists>us wired fee rate D. admission_checked P m tx wits us wired fee rate \<and> ?d \<noteq> []
      \<and> displacement_set m ?d = Some D
      \<and> replacement_allowed P now m (policy m) tx wits us (fst (admit_vsize P m tx wits us)) ?d D = Ok True
      \<and> (check_ancestor_descendant_limits (apply_replacement now (calculate_tx_id P tx) ?d D m) tx (policy m)
            (fst (admit_vsize P m tx wits us)) \<longrightarrow> (\<exists>ws. wits = Some ws \<and> length ws \<noteq> length (inputs tx)))"
    if "pooled m' \<noteq> pooled m"
    using assms(2)
  proof (cases rule: add_transaction_cases)
    case (late us wired fee rate)
    have d: "?d \<noteq> []" using resolve_conflicts_spec(2) [OF late(2)] that by auto
    then obtain D where D: "displacement_set m ?d = Some D"
      "replacement_allowed P now m (policy m) tx wits us (fst (admit_vsize P m tx wits us)) ?d D = Ok True"
      using resolve_conflicts_spec(3) [OF late(2)] by auto
    note run = cleared_run [OF late(1) d D]
    have "\<exists>ws. wits = Some ws \<and> length ws \<noteq> length (inputs tx)"
      if "check_ancestor_descendant_limits (apply_replacement now (calculate_tx_id P tx) ?d D m) tx (policy m)
            (fst (admit_vsize P m tx wits us))"
      using run assms(2,3) that by (auto split: if_splits option.splits)
    with late(1) d D show ?thesis by blast
  qed (use that assms(3) in simp_all)
  show ?thesis
    using lost cleared sub direct by (intro conjI iffI impI) (blast | metis (no_types, lifting))+
qed

lemma remove_all_tracking:
  "g \<in> set hs \<Longrightarrow> g \<in> pooled m \<Longrightarrow> hm_get (rbf_tracking (remove_all hs m)) g = None"
proof (induction hs arbitrary: m)
  case (Cons h hs)
  have none: "hm_get (rbf_tracking (remove_all hs m)) g = None" if "hm_get (rbf_tracking m) g = None" for m
    using that
  proof (induction hs arbitrary: m)
    case (Cons h hs)
    have "hm_get (rbf_tracking (remove_tx h m)) g = None"
      using Cons.prems by (cases "hm_get (transactions m) h") (simp_all add: remove_tx_fields delete_conv')
    then show ?case using Cons.IH by simp
  qed simp
  show ?case
  proof (cases "g = h")
    case True
    then obtain tx where "hm_get (transactions m) h = Some tx" using Cons.prems by (auto simp: pooled_def mm_dom_iff)
    then show ?thesis using none [of "remove_tx h m"] True by (simp add: remove_tx_fields delete_conv')
  next
    case False
    with Cons show ?thesis using remove_all_pooled [of m "[h]"] by simp
  qed
qed simp

text \<open>
  The replacement counter never grows: the removal of the displaced transactions has deleted their
  counters before they are read, so a transaction that replaces a replacement is recorded with one
  replacement and itself as the start of the chain, whatever was recorded before.
\<close>

lemma replacement_count_restarts:
  assumes "pool_inv P m" "add_transaction_with_witness P now tx wits m = (Ok True, m')"
    and "direct_conflicts m tx \<noteq> []"
  shows "hm_get (rbf_tracking m') (calculate_tx_id P tx) =
    Some \<lparr> replacement_count = 1, last_replacement_time = now,
           original_tx_hash = hd (direct_conflicts m tx) \<rparr>"
  using assms(2)
proof (cases rule: add_transaction_cases)
  case (admitted us wired fee rate m1)
  let ?d = "direct_conflicts m tx" and ?h = "calculate_tx_id P tx"
  obtain D where D: "displacement_set m ?d = Some D" "m1 = apply_replacement now ?h ?d D m"
    using resolve_conflicts_spec(3) [OF admitted(2)] assms(3) by auto
  have sp: "spend_inv P m" using assms(1) by (simp add: pool_inv_def)
  have "?h \<notin> set D" using displaced_pooled [OF sp D(1)] checked_facts(1) [OF admitted(1)] by blast
  have gone: "hm_get (rbf_tracking (remove_all D m)) g = None" if "g \<in> set ?d" for g
    using that displacement_setD(2) [OF D(1)] displaced_pooled [OF sp D(1)] by (intro remove_all_tracking) auto
  have counts: "map (\<lambda>h. case hm_get (rbf_tracking (remove_all D m)) h of None \<Rightarrow> 0
      | Some t \<Rightarrow> replacement_count t) ?d = replicate (length ?d) 0"
    using gone by (intro replicate_eqI) auto
  have "foldl max 0 (replicate n 0) = (0 :: u32)" for n by (induction n) auto
  then have one: "next_replacement_count (replicate n 0) = 1" for n
    by (cases n) (simp_all add: next_replacement_count_def saturating_add_def)
  have "rbf_tracking m' = rbf_tracking m1"
    unfolding admitted(5) by (rule insert_admitted_fields(12))
  moreover have "hm_get (rbf_tracking m1) ?h = Some \<lparr> replacement_count = 1, last_replacement_time = now,
           original_tx_hash = hd ?d \<rparr>"
    using \<open>?h \<notin> set D\<close> gone [of "hd ?d"] assms(3) unfolding D(2) apply_replacement_def Let_def counts one
    by (simp add: get_foldl_remove update_conv')
  ultimately show ?thesis by simp
qed simp_all

text \<open>What an admission may add, and what it does when nothing pooled spends the inputs.\<close>

lemma add_pooled_bound:
  assumes "add_transaction_with_witness P now tx wits m = (r, m')"
  shows "pooled m' \<subseteq> (if r = Ok True then insert (calculate_tx_id P tx) (pooled m) else pooled m)"
  using assms
proof (cases rule: add_transaction_cases)
  case (late us wired fee rate)
  then show ?thesis using resolved_pooled by simp
next
  case (admitted us wired fee rate m1)
  then show ?thesis using resolved_pooled [OF admitted(2)] by (auto simp: insert_admitted_fields)
qed simp

lemma no_direct_conflicts:
  "direct_conflicts m tx = [] \<longleftrightarrow> (\<forall>op \<in> set (prevouts tx). hm_get (spenders m) op = None)"
  unfolding set_empty [symmetric] set_direct_conflicts by (auto simp flip: not_Some_eq)

lemma add_without_conflict:
  assumes "add_transaction_with_witness P now tx wits m = (r, m')"
    and "\<forall>op \<in> set (prevouts tx). hm_get (spenders m) op = None"
  shows "pooled m' = (if r = Ok True then insert (calculate_tx_id P tx) (pooled m) else pooled m)
    \<and> (r = Ok True \<longrightarrow> calculate_tx_id P tx \<notin> pooled m)
    \<and> mm_dom (spenders m') = (if r = Ok True then set (prevouts tx) else {}) \<union> mm_dom (spenders m)"
proof -
  have d: "direct_conflicts m tx = []" using assms(2) by (simp add: no_direct_conflicts)
  have dom: "mm_dom (foldl (\<lambda>s op. hm_insert op h s) t ops) = set ops \<union> mm_dom t" for h t and ops :: "outpoint list"
    by (induction ops arbitrary: t) auto
  show ?thesis
    using assms(1)
  proof (cases rule: add_transaction_cases)
    case (late us wired fee rate)
    then show ?thesis using resolve_conflicts_spec(2) [OF late(2) _ d] by simp
  next
    case (admitted us wired fee rate m1)
    then have "m1 = m" using resolve_conflicts_spec(2) [OF admitted(2) _ d] by simp
    with admitted checked_facts(1) [OF admitted(1)] show ?thesis
      by (simp add: insert_admitted_fields dom)
  qed simp
qed


section \<open>Value\<close>

lemma sums_agree:
  assumes "\<forall>op \<in> set ops. input_sats P m us op \<noteq> None"
  shows "strict_input_sum P m us acc ops = fee_input_sum P m us acc ops"
    and "prevout_sum_loop P m us acc ops \<longleftrightarrow> fee_input_sum P m us acc ops = None"
  using assms
  by (induction ops arbitrary: acc) (auto simp: input_sats_def split: option.splits)

text \<open>
  What \<^verbatim>\<open>check_transaction\<close> documents of the outputs: every value, and their sum, is in the money range.
\<close>

definition outputs_checked :: "'a protocol_scheme \<Rightarrow> bool" where
  "outputs_checked P \<longleftrightarrow> (\<forall>tx. check_transaction_valid P tx \<longrightarrow> output_sum_sats P tx \<noteq> None)"

lemma output_money:
  assumes "money_range P" "output_sum_sats P tx \<noteq> None" "out \<in> set (outputs tx)"
  shows "money_sats P (out_value out) \<noteq> None"
proof -
  have "output_sum_from P acc outs \<noteq> None \<Longrightarrow> out \<in> set outs \<Longrightarrow> money_sats P (out_value out) \<noteq> None" for acc outs
    by (induction outs arbitrary: acc) (auto split: option.splits)
  then show ?thesis using assms(2,3) by (auto simp: output_sum_sats_def)
qed

lemma admitted_inputs_known:
  assumes "money_range P" "outputs_checked P" "valid_inv P m" "admission_checked P m tx wits us True fee rate"
  shows "\<forall>op \<in> set (prevouts tx). input_sats P m us op \<noteq> None"
proof
  fix op assume op: "op \<in> set (prevouts tx)"
  have c: "\<not> chain_rejects P m tx us True" using assms(4) by (simp add: admission_checked_def)
  then have known: "hm_get us op \<noteq> None \<or> mempool_creates m op" and
    range: "hm_get us op = Some u \<Longrightarrow> money_sats P (utxo_value u) \<noteq> None" for u
    using op by (auto simp: chain_rejects_def unknown_prevout_def prevout_value_out_of_range_def list_ex_iff
      split: if_splits option.splits prod.splits)
  show "input_sats P m us op \<noteq> None"
  proof (cases "hm_get us op")
    case (Some u)
    then show ?thesis using range by (simp add: input_sats_def)
  next
    case None
    then obtain out where out: "pooled_output m op = Some out" using known by (auto simp: mempool_creates_def)
    then obtain parent where "hm_get (transactions m) (op_hash op) = Some parent" "out \<in> set (outputs parent)"
      by (auto simp: pooled_output_def bind_eq_Some_conv list_get_def split: if_splits)
    then have "money_sats P (out_value out) \<noteq> None"
      using assms(1-3) by (intro output_money) (auto simp: valid_inv_def outputs_checked_def)
    with None out show ?thesis by (simp add: input_sats_def mempool_input_value_def)
  qed
qed

lemma admitted_fee:
  assumes "money_range P" "outputs_checked P" "valid_inv P m" "admission_checked P m tx wits us True fee rate"
  shows "int (unat fee) = (\<Sum>op\<leftarrow>prevouts tx. int (known_value P m us op)) - (\<Sum>out\<leftarrow>outputs tx. out_value out)"
    and "fee = calculate_transaction_fee P m tx us" "min_tx_fee (policy m) \<le> fee"
    and "calculate_tx_id P tx \<in> set (relay_floor_waivers m)
      \<or> relay_price (min_relay_fee_rate (policy m)) (fst (admit_vsize P m tx wits us)) \<le> ucast fee"
proof -
  let ?v = "fst (admit_vsize P m tx wits us)"
  note known = admitted_inputs_known [OF assms]
  have gate: "fee_gate P m (policy m) tx us True ?v = Some (fee, rate)" and c: "\<not> chain_rejects P m tx us True"
    using assms(4) by (simp_all add: admission_checked_def)
  have sums: "\<not> prevout_sum_exceeds_money P m tx us" "\<not> outputs_exceed_inputs P m tx us"
    using c by (auto simp: chain_rejects_def Let_def split: if_splits prod.splits)
  obtain i where i: "fee_input_sum P m us 0 (prevouts tx) = Some i"
    using sums(1) sums_agree(2) [OF known] by (auto simp: prevout_sum_exceeds_money_def)
  obtain os where os: "output_sum_sats P tx = Some os"
    using checked_facts(5) [OF assms(4)] assms(2) by (auto simp: outputs_checked_def)
  have le: "os \<le> i" using sums(2) i os sums_agree(1) [OF known] by (simp add: outputs_exceed_inputs_def)
  show fee: "fee = calculate_transaction_fee P m tx us" "min_tx_fee (policy m) \<le> fee"
    "calculate_tx_id P tx \<in> set (relay_floor_waivers m) \<or> relay_price (min_relay_fee_rate (policy m)) ?v \<le> ucast fee"
    using gate by (auto simp: fee_gate_def Let_def split: if_splits)
  have "unat fee = unat i - unat os"
    unfolding fee(1) calculate_transaction_fee_def using i os le
    by (simp add: unat_saturating_sub word_le_nat_alt)
  moreover have "unat i = (\<Sum>op\<leftarrow>prevouts tx. known_value P m us op)"
    using fee_input_sum_Some_iff [OF assms(1), of 0 m us "prevouts tx" i] i by simp
  moreover have "int (unat os) = (\<Sum>out\<leftarrow>outputs tx. out_value out)"
    using output_sum_from_Some_iff [OF assms(1), of 0 "outputs tx" os] os by (simp add: output_sum_sats_def)
  moreover have "(\<Sum>op\<leftarrow>ops. int (known_value P m us op)) = int (\<Sum>op\<leftarrow>ops. known_value P m us op)" for ops
    by (induction ops) simp_all
  ultimately show "int (unat fee) = (\<Sum>op\<leftarrow>prevouts tx. int (known_value P m us op)) - (\<Sum>out\<leftarrow>outputs tx. out_value out)"
    using le by (simp add: word_le_nat_alt of_nat_diff del: of_nat_unat)
qed

text \<open>
  C5. With the UTXO set wired, an accepted transaction creates no money and pays the floor: all its
  inputs are known, they cover its outputs, the fee recorded for it is exactly the
  difference, and that fee covers the relay price of its size (unless the package it came with
  pays for it) and the absolute minimum. Stated for pools whose transactions passed the
  consensus checks, which admission guarantees.
\<close>

theorem admitted_conserves_value:
  assumes "money_range P" "outputs_checked P" "valid_inv P m"
    and "add_transaction_with_witness P now tx wits m = (Ok True, m')"
    and "admission_snapshot m tx = Some (us, True)"
  shows "valid_inv P m' \<and> (\<exists>fee vsize. hm_get (fee_basis m') (calculate_tx_id P tx) = Some (fee, vsize)
    \<and> int (unat fee) = (\<Sum>op\<leftarrow>prevouts tx. int (known_value P m us op)) - (\<Sum>out\<leftarrow>outputs tx. out_value out)
    \<and> (calculate_tx_id P tx \<in> set (relay_floor_waivers m)
        \<or> unat (min_relay_fee_rate (policy m)) * unat vsize \<le> 1000 * unat fee)
    \<and> min_tx_fee (policy m) \<le> fee)"
  using assms(4)
proof (cases rule: add_transaction_cases)
  case (admitted us' wired fee rate m1)
  let ?v = "fst (admit_vsize P m tx wits us)"
  have eq: "us' = us" "wired" using admitted(1) assms(5) by (auto simp: admission_checked_def)
  have chk: "admission_checked P m tx wits us True fee rate" using admitted(1) eq by simp
  note fee = admitted_fee [OF assms(1-3) chk]
  have "hm_get (fee_basis m') (calculate_tx_id P tx) = Some (fee, ?v)"
    unfolding admitted(5) eq insert_admitted_fields(10) by (simp add: update_conv')
  moreover have "unat (ucast fee :: u128) = unat fee" by (rule unat_ucast_up) simp
  ultimately show ?thesis
    using fee(1,3,4) valids.add_keeps_inv [OF assms(3), of now tx wits] assms(4)
      relay_price_le_iff [of "min_relay_fee_rate (policy m)" ?v "unat fee"]
    by (intro conjI exI [of _ fee] exI [of _ ?v]) (auto simp: word_le_nat_alt mult.commute)
qed simp_all


section \<open>A replacement pays for what it removes\<close>

text \<open>
  The value of a coin as the node finds it: in the wired UTXO set, else among the outputs of the pool, else in the
  snapshot lookup; and the fee a transaction pays by these values.
\<close>

definition coin_sats :: "'a tx_api_scheme \<Rightarrow> mempool_manager \<Rightarrow> utxo_set \<Rightarrow> outpoint \<Rightarrow> nat" where
  "coin_sats P m chain op =
     (case (case hm_get chain op of
              Some u \<Rightarrow> money_sats P (utxo_value u)
            | None \<Rightarrow>
                (case pooled_output m op of
                   Some out \<Rightarrow> money_sats P (out_value out)
                 | None \<Rightarrow> Option.bind (snapshot_prevout m op) (\<lambda>u. money_sats P (utxo_value u)))) of
        None \<Rightarrow> 0 | Some sats \<Rightarrow> unat sats)"

definition true_fee :: "'a tx_api_scheme \<Rightarrow> mempool_manager \<Rightarrow> utxo_set \<Rightarrow> transaction \<Rightarrow> int" where
  "true_fee P m chain tx = (\<Sum>op\<leftarrow>prevouts tx. int (coin_sats P m chain op)) - (\<Sum>out\<leftarrow>outputs tx. out_value out)"

text \<open>
  The snapshot an admission prices with holds the coins of the candidate only. A displaced transaction is priced in
  full when each of its inputs is spent by the candidate too or is an output of the pool.
\<close>

definition priced_in_full :: "mempool_manager \<Rightarrow> utxo_set \<Rightarrow> transaction \<Rightarrow> transaction \<Rightarrow> bool" where
  "priced_in_full m chain tx t \<longleftrightarrow>
     list_all (\<lambda>op. op \<in> set (prevouts tx) \<or> (mempool_creates m op \<and> hm_get chain op = None)) (prevouts t)"

lemma snapshot_get:
  assumes "admission_snapshot m tx = Some (us, True)" "utxo_set_arc m = Some (False, chain)"
  shows "hm_get us op =
    (if op \<in> set (prevouts tx)
     then case hm_get chain op of Some u \<Rightarrow> Some u | None \<Rightarrow> if mempool_creates m op then None else snapshot_prevout m op
     else None)"
proof -
  have fill: "hm_get (foldl (\<lambda>us op. if hm_contains us op \<or> mempool_creates m op then us
      else case snapshot_prevout m op of None \<Rightarrow> us | Some u \<Rightarrow> hm_insert op u us) us ops) op
    = (case hm_get us op of Some u \<Rightarrow> Some u
       | None \<Rightarrow> if op \<in> set ops \<and> \<not> mempool_creates m op then snapshot_prevout m op else None)" for us ops
    by (induction ops arbitrary: us)
      (auto simp: update_conv' hm_contains_def simp del: hm_contains_iff split: option.splits)
  have own: "(\<lambda>us op. case hm_get chain op of None \<Rightarrow> us | Some u \<Rightarrow> hm_insert op u us)
    = (\<lambda>us op. case hm_get chain op of Some u \<Rightarrow> hm_insert op u us | None \<Rightarrow> us)"
    by (intro ext) (simp split: option.split)
  show ?thesis
    using assms unfolding admission_snapshot_def own
    by (auto simp: fill_snapshot_misses_def fill get_insert_fold Let_def simp del: hm_contains_iff split: option.splits)
qed

lemma seen_value:
  assumes "admission_snapshot m tx = Some (us, True)" "utxo_set_arc m = Some (False, chain)"
  shows "op \<in> set (prevouts tx) \<or> (mempool_creates m op \<and> hm_get chain op = None) \<Longrightarrow>
      known_value P m us op = coin_sats P m chain op"
    and "op \<notin> set (prevouts tx) \<Longrightarrow> \<not> mempool_creates m op \<Longrightarrow> known_value P m us op = 0"
  using snapshot_get [OF assms, of op]
  by (auto simp: known_value_def coin_sats_def input_sats_def mempool_input_value_def mempool_creates_def split: option.splits)

lemma priced_fee:
  assumes "money_range P" "admission_snapshot m tx = Some (us, True)" "utxo_set_arc m = Some (False, chain)"
    and "priced_in_full m chain tx t" "output_sum_sats P t \<noteq> None"
    and "(\<Sum>op\<leftarrow>prevouts t. int (coin_sats P m chain op)) \<le> MAX_MONEY P"
  shows "true_fee P m chain t \<le> int (unat (calculate_transaction_fee P m t us))"
proof -
  have ins: "(\<Sum>op\<leftarrow>prevouts t. int (known_value P m us op)) = (\<Sum>op\<leftarrow>prevouts t. int (coin_sats P m chain op))"
    using assms(4) seen_value(1) [OF assms(2,3)]
    by (intro arg_cong [of _ _ sum_list] map_cong) (auto simp: priced_in_full_def list_all_iff)
  have "(\<forall>out \<in> set (outputs t). 0 \<le> out_value out) \<and> (\<Sum>out\<leftarrow>outputs t. out_value out) \<le> MAX_MONEY P"
    using assms(5) output_sum_from_Some_iff [OF assms(1), of 0 "outputs t"] by (auto simp: output_sum_sats_def)
  then show ?thesis
    using assms(6) by (simp add: calculate_transaction_fee_eq [OF assms(1)] ins true_fee_def Let_def del: of_nat_unat)
qed

lemma distinct_displacement:
  assumes "displacement_set m direct = Some D"
  shows "distinct D"
proof -
  have "foldl (displace m allow) acc hs = Some D \<Longrightarrow> (\<forall>a. acc = Some a \<longrightarrow> distinct a) \<Longrightarrow> distinct D" for allow acc hs
    by (induction hs arbitrary: acc)
      (force simp: displace_def Let_def split: option.splits if_splits)+
  then show ?thesis using assms by (fastforce simp: displacement_set_def Let_def)
qed

lemma package_fees_bound:
  assumes "money_range P" "finite S"
  shows "int (package_fees P m us S) \<le> int (card S) * MAX_MONEY P"
proof -
  have "int (case hm_get (transactions m) h of None \<Rightarrow> 0 | Some tx \<Rightarrow> unat (calculate_transaction_fee P m tx us)) \<le> MAX_MONEY P" for h
    using fee_le_money [OF assms(1)] assms(1) by (simp add: money_range_def del: of_nat_unat split: option.split)
  then show ?thesis unfolding package_fees_def of_nat_sum by (rule sum_bounded_above)
qed

lemma displaced_paid:
  assumes "money_range P" "displacement_set m (direct_conflicts m tx) = Some D"
    and "replacement_allowed P now m (policy m) tx wits us vsize (direct_conflicts m tx) D = Ok True"
    and "int (card (set D)) * MAX_MONEY P \<le> i64_max"
  shows "1000 * package_fees P m us (set D) + unat (incremental_relay_fee (policy m)) * unat vsize
    \<le> 1000 * unat (calculate_transaction_fee P m tx us)"
proof -
  let ?w = "calculate_transaction_fee P m tx us" and ?F = "package_fees P m us (set D)"
  let ?p = "relay_price (incremental_relay_fee (policy m)) vsize"
  have "int ?F \<le> i64_max" using package_fees_bound [OF assms(1), of "set D" m us] assms(4) by simp
  then have F: "fst (package_fee_and_vsize P m D us) = int ?F"
    using package_fee_fold [OF distinct_displacement [OF assms(2)], of 0 P m us 0] by (simp add: package_fee_and_vsize_def)
  have "int (unat ?w) \<le> MAX_MONEY P" by (rule fee_le_money [OF assms(1)])
  then have "int (unat ?w) < int (2 ^ 63)" using assms(1) by (simp add: money_range_def i64_max_def)
  then have "as_i64 ?w = int (unat ?w)" by (intro as_i64_id) (simp only: of_nat_less_iff)
  then have "int ?F + int (unat ?p) \<le> int (unat ?w)"
    using assms(3) F by (simp add: replacement_allowed_def relay_price_sint split: if_splits)
  then have "?F + unat ?p \<le> unat ?w" by linarith
  moreover have "unat (incremental_relay_fee (policy m)) * unat vsize \<le> unat ?p * 1000"
    using relay_price_le_iff [of _ vsize "unat ?p"] by blast
  ultimately show ?thesis by linarith
qed

text \<open>
  C4. An accepted replacement pays for what it removes, as far as the node sees it: its recorded fee is the fee it
  really pays, and this covers the true fees of every transaction it displaces whose inputs the candidate spends too or
  the pool creates, plus the incremental relay price of its own size. A displaced transaction with another
  confirmed input is left out: the node prices that input at nothing. Stated with the UTXO set wired, for a displaced
  set whose fees cannot overflow and whose coins are within the money supply.
\<close>

theorem replacement_pays_for_displaced:
  assumes "money_range P" "outputs_checked P" "valid_inv P m" "utxo_set_arc m = Some (False, chain)"
    and "add_transaction_with_witness P now tx wits m = (Ok True, m')" "direct_conflicts m tx \<noteq> []"
    and "int (card (set (txs_this_replacement_removes m tx))) * MAX_MONEY P \<le> i64_max"
    and "\<forall>h \<in> set (txs_this_replacement_removes m tx).
      (\<Sum>op\<leftarrow>prevouts (the (hm_get (transactions m) h)). int (coin_sats P m chain op)) \<le> MAX_MONEY P"
  shows "\<exists>fee vsize. hm_get (fee_basis m') (calculate_tx_id P tx) = Some (fee, vsize)
    \<and> int (unat fee) = true_fee P m chain tx
    \<and> 1000 * (\<Sum>h \<in> {h \<in> set (txs_this_replacement_removes m tx).
             priced_in_full m chain tx (the (hm_get (transactions m) h))}.
           true_fee P m chain (the (hm_get (transactions m) h)))
        + int (unat (incremental_relay_fee (policy m)) * unat vsize) \<le> 1000 * int (unat fee)"
  using assms(5)
proof (cases rule: add_transaction_cases)
  case (admitted us wired fee rate m1)
  let ?R = "set (txs_this_replacement_removes m tx)" and ?v = "fst (admit_vsize P m tx wits us)"
  let ?t = "\<lambda>h. the (hm_get (transactions m) h)" and ?seen = "package_fees P m us"
  let ?full = "{h \<in> ?R. priced_in_full m chain tx (?t h)}"
  have snap: "admission_snapshot m tx = Some (us, True)" and chk: "admission_checked P m tx wits us True fee rate"
    using admitted(1) assms(4) by (auto simp: admission_checked_def admission_snapshot_def Let_def)
  note fee = admitted_fee [OF assms(1-3) chk]
  have own: "int (unat fee) = true_fee P m chain tx"
    unfolding fee(1) true_fee_def using seen_value(1) [OF snap assms(4)]
    by (intro arg_cong2 [of _ _ _ _ minus] arg_cong [of _ _ sum_list] map_cong) auto
  obtain D where D: "displacement_set m (direct_conflicts m tx) = Some D"
    "replacement_allowed P now m (policy m) tx wits us ?v (direct_conflicts m tx) D = Ok True"
    using resolve_conflicts_spec(3) [OF admitted(2)] assms(6) by auto
  have R: "?R = set D" by (simp add: displacement_setD(1) [OF D(1)] txs_this_replacement_removes_def set_packages_of)
  have pooled: "\<exists>t. hm_get (transactions m) h = Some t" if "h \<in> ?R" for h
    using that subsetD [OF displaced_pooled [OF _ D(1)], of P h] assms(3) by (simp add: R valid_inv_def pooled_def mm_dom_iff)
  have "true_fee P m chain (?t h) \<le> int (unat (calculate_transaction_fee P m (?t h) us))" if "h \<in> ?full" for h
  proof (rule priced_fee [OF assms(1) snap assms(4)])
    show "output_sum_sats P (?t h) \<noteq> None"
      using that pooled [of h] assms(2,3) by (auto simp: valid_inv_def outputs_checked_def)
  qed (use that assms(8) in auto)
  then have "(\<Sum>h \<in> ?full. true_fee P m chain (?t h)) \<le> (\<Sum>h \<in> ?full. int (unat (calculate_transaction_fee P m (?t h) us)))"
    by (rule sum_mono)
  also have "\<dots> \<le> (\<Sum>h \<in> ?R. int (unat (calculate_transaction_fee P m (?t h) us)))"
    by (rule sum_mono2) (simp_all del: of_nat_unat)
  also have "\<dots> = int (?seen ?R)"
    unfolding package_fees_def of_nat_sum
    by (rule sum.cong [OF refl], drule pooled) (auto simp del: of_nat_unat)
  finally have "(\<Sum>h \<in> ?full. true_fee P m chain (?t h)) \<le> int (?seen ?R)" .
  moreover have "1000 * ?seen ?R + unat (incremental_relay_fee (policy m)) * unat ?v \<le> 1000 * unat fee"
    using displaced_paid [OF assms(1) D] assms(7) unfolding R fee(2) .
  moreover have "hm_get (fee_basis m') (calculate_tx_id P tx) = Some (fee, ?v)"
    unfolding admitted(5) insert_admitted_fields(10) by (simp add: update_conv')
  ultimately show ?thesis using own by (intro exI [of _ fee] exI [of _ ?v] conjI) linarith+
qed simp_all


section \<open>A concrete admission\<close>

text \<open>
  \<open>demo_pool\<close> with the UTXO set wired and standardness off; the rival replaces the parent and its
  child. The ancestor size limit is the argument.
\<close>

definition demo_live :: "u64 \<Rightarrow> mempool_manager" where
  "demo_live size_limit = demo_pool
     \<lparr> policy_config := Some (default_policy \<lparr> require_standard := False, max_ancestor_size := size_limit \<rparr>),
       utxo_set_arc := Some (False, demo_utxos) \<rparr>"

lemma demo_live_like: "demo_like (demo_live l)"
  by (simp add: demo_like_def demo_live_def default_policy_def)

lemma demo_live_fields [simp]:
  "transactions (demo_live l) = [(1, demo_parent), (2, demo_child)]" "spenders (demo_live l) = spenders demo_pool"
  "utxo_set_arc (demo_live l) = Some (False, demo_utxos)" "mgr_rbf_config (demo_live l) = None"
  "chain_tip (demo_live l) = None" "storage (demo_live l) = None" "tx_descendants (demo_live l) = tx_descendants demo_pool"
  "policy (demo_live l) = default_policy \<lparr> require_standard := False, max_ancestor_size := l \<rparr>"
  "policy_config (demo_live l) = Some (default_policy \<lparr> require_standard := False, max_ancestor_size := l \<rparr>)"
  by (simp_all add: demo_live_def policy_def)

lemma demo_live_pooled [simp]: "pooled (demo_live l) = {1, 2}"
  using demo_pool_fields(3) by (simp add: pooled_def)

lemma demo_live_inv: "pool_inv demo (demo_live l)"
  by (rule tables.inv_core [OF demo_pool_inv]) (simp add: demo_live_def same_core_def)

lemma demo_rival_fields:
  "inputs demo_rival = [demo_input demo_coin]" "version demo_rival = 2"
  "outputs demo_rival = [\<lparr> out_value = 50000, script_pubkey = [0, 1] \<rparr>]"
  by (simp_all add: demo_rival_def demo_spend_def)

lemma demo_utxo: "hm_get demo_utxos demo_coin =
    Some \<lparr> utxo_value = 100000, utxo_script = [], utxo_height = 5, utxo_is_coinbase = False \<rparr>"
  by (simp add: demo_utxos_def)

lemma demo_live_vsize: "admit_vsize demo (demo_live l) demo_rival (Some [[]]) demo_utxos = (100, 0)"
  by (simp add: admit_vsize_def Let_def transaction_weight_def demo_def div_ceil_def default_policy_def)

lemma demo_live_snapshot: "admission_snapshot (demo_live l) demo_rival = Some (demo_utxos, True)"
  by (simp add: admission_snapshot_def demo_utxo fill_snapshot_misses_def) (simp add: demo_utxos_def)

lemma demo_admission_checked:
  "admission_checked demo (demo_live l) demo_rival (Some [[]]) demo_utxos True 50000 500"
proof -
  have "\<not> structure_rejects demo (demo_live l) demo_rival (Some [[]])"
    by (simp add: structure_rejects_def demo_rival_fields max_mempool_bytes_of_def default_policy_def
      accounted_tx_bytes_def saturating_mul_def demo_api)
  moreover have "\<not> standardness_rejects demo (policy (demo_live l)) demo_rival (Some [[]])"
    by (simp add: standardness_rejects_def default_policy_def)
  moreover have "\<not> chain_rejects demo (demo_live l) demo_rival demo_utxos True"
    by (simp add: chain_rejects_def finality_context_def relative_lock_rejects_def demo_rival_fields demo_utxo
      immature_coinbase_spend_def unknown_prevout_def prevout_value_out_of_range_def
      prevout_sum_exceeds_money_def outputs_exceed_inputs_def output_is_dust_def money_sats_def demo_api
      saturating_mul_def as_i64_def as_u64_def add_money_def checked_add_def output_sum_sats_def input_sats_def)
  moreover have "\<not> spend_rejects demo (demo_live l) (policy (demo_live l)) demo_rival (Some [[]]) demo_utxos"
    by (simp add: spend_rejects_def Let_def demo_live_vsize default_policy_def
      consensus_checks_reject_def demo_rival_fields demo_api split: option.split)
  moreover have "fee_gate demo (demo_live l) (policy (demo_live l)) demo_rival demo_utxos True 100 = Some (50000, 500)"
    by (simp add: fee_gate_def demo_fees [OF demo_live_like] Let_def default_policy_def relay_price_def
      div_ceil_def saturating_mul_def)
  ultimately show ?thesis by (simp add: admission_checked_def demo_live_vsize demo_live_snapshot)
qed

lemma demo_live_conflicts: "direct_conflicts (demo_live l) demo_rival = [1]"
  by (simp add: direct_conflicts_def)

lemma demo_live_displaced: "displacement_set (demo_live l) [1] = Some [1, 2]"
  by (simp add: displacement_set_def displace_def demo_package [OF demo_live_like] hs_extend_def hs_insert_def)

lemma demo_live_allowed:
  "replacement_allowed demo 30 (demo_live l) (policy (demo_live l)) demo_rival (Some [[]]) demo_utxos 100 [1] [1, 2] = Ok True"
proof -
  have "package_fee_and_vsize demo (demo_live l) [1, 2] demo_utxos = (20000, 200)"
    by (simp add: package_fee_and_vsize_def demo_fees [OF demo_live_like] demo_vsizes [OF demo_live_like]
      i64_wrap_def as_i64_def)
  moreover have "conflicting_cluster_count (demo_live l) [1] = 1" by (simp add: conflicting_cluster_count_def)
  ultimately show ?thesis
    by (simp add: replacement_allowed_def demo_fees [OF demo_live_like] demo_replaces [OF demo_live_like] as_i64_def
      default_policy_def relay_price_def div_ceil_def saturating_mul_def)
qed

lemma demo_live_resolved:
  "resolve_conflicts demo 30 (demo_live l) (policy (demo_live l)) demo_rival (Some [[]]) demo_utxos 100
     = (Ok True, apply_replacement 30 3 [1] [1, 2] (demo_live l))"
  using demo_live_allowed by (simp add: resolve_conflicts_def demo_live_conflicts demo_live_displaced)

lemma demo_live_limits:
  "check_ancestor_descendant_limits (apply_replacement 30 3 [1] [1, 2] (demo_live l)) demo_rival
     (policy (demo_live l)) 100 \<longleftrightarrow> 100 \<le> l"
proof -
  let ?m = "apply_replacement 30 3 [1] [1, 2] (demo_live l)"
  have "pooled ?m = {}" by (simp add: apply_replacement_fields)
  then have tx: "transactions ?m = []" by (simp add: pooled_def mm_dom_fst [symmetric])
  have "spend_inv demo ?m"
    using tables.apply_replacement_keeps_inv [OF demo_live_inv] by (simp add: pool_inv_def)
  then have sp: "hm_get (spenders ?m) op = None" for op
    using tx by (cases "hm_get (spenders ?m) op") (auto simp: spend_inv_def)
  have "mgr_package_preview demo_pool = empty_preview"
    by (simp add: demo_pool_def demo_pool1_def insert_admitted_def Let_def update_dependency_graph_eq
      pool_insert_def invalidate_fee_ranking_def new_mempool_def with_rbf_config_def)
  then have pre: "mgr_package_preview ?m = empty_preview"
    by (simp add: apply_replacement_def Let_def demo_live_def)
  have "txs_this_replacement_removes ?m demo_rival = []"
    by (simp add: txs_this_replacement_removes_def packages_of_def direct_conflicts_def sp)
  then show ?thesis
    by (simp add: check_ancestor_descendant_limits_def Let_def limit_ancestors_def limit_seeds_def
      limit_known_def tx pre empty_preview_def default_policy_def walk_mark.simps hs_extend_def not_less not_le)
qed

lemma demo_add:
  "add_transaction_with_witness demo 30 demo_rival (Some [[]]) (demo_live l) =
    (let m1 = apply_replacement 30 3 [1] [1, 2] (demo_live l) in
     if 100 \<le> l then (Ok True, insert_admitted demo 30 3 (calculate_wtxid demo demo_rival (Some [[]]))
       demo_rival (Some [[]]) 50000 100 500 m1) else (Ok False, m1))"
  using demo_admission_checked [of l] demo_live_resolved [of l] demo_live_limits [of l]
  by (simp add: add_transaction_with_witness_def admission_checked_def Let_def demo_live_vsize demo_rival_fields)

theorem admission_effect_witness:
  "pooled (snd (add_transaction_with_witness demo 30 demo_rival (Some [[]]) (demo_live 101000))) = {3}"
proof -
  let ?a = "add_transaction_with_witness demo 30 demo_rival (Some [[]]) (demo_live 101000)"
  have "fst ?a = Ok True" by (simp add: demo_add Let_def)
  then have "?a = (Ok True, snd ?a)" by (metis prod.collapse)
  from admission_effect [OF demo_live_inv this]
  have "pooled (snd ?a) = insert 3 ({1, 2} - set (txs_this_replacement_removes (demo_live 101000) demo_rival))"
    by simp
  moreover have "set (txs_this_replacement_removes (demo_live 101000) demo_rival) = {1, 2}"
    by (simp add: txs_this_replacement_removes_def set_packages_of demo_live_conflicts
      demo_package [OF demo_live_like] insert_commute)
  ultimately show ?thesis by simp
qed

theorem rejection_effect_witness:
  "let m' = snd (add_transaction_with_witness demo 30 demo_rival (Some [[]]) (demo_live 50)) in
   m' = demo_live 50 \<or> pooled m' = pooled (demo_live 50) - set (txs_this_replacement_removes (demo_live 50) demo_rival)"
proof -
  let ?a = "add_transaction_with_witness demo 30 demo_rival (Some [[]]) (demo_live 50)"
  have "fst ?a = Ok False" by (simp add: demo_add Let_def)
  then have "?a = (Ok False, snd ?a)" by (metis prod.collapse)
  from rejection_effect [OF this] show ?thesis unfolding Let_def by blast
qed

lemma demo_live_removes: "set (txs_this_replacement_removes (demo_live l) demo_rival) = {1, 2}"
  by (simp add: txs_this_replacement_removes_def set_packages_of demo_live_conflicts
      demo_package [OF demo_live_like] insert_commute)

theorem failed_replacement_loses_conflicts_witness:
  "pooled (snd (add_transaction_with_witness demo 30 demo_rival (Some [[]]) (demo_live 50))) = {}"
proof -
  let ?m = "demo_live 50" and ?w = "Some [[]]"
  let ?a = "add_transaction_with_witness demo 30 demo_rival ?w ?m"
  have "fst ?a = Ok False" by (simp add: demo_add Let_def)
  then have a: "?a = (Ok False, snd ?a)" by (metis prod.collapse)
  have inv: "spend_inv demo ?m" using demo_live_inv [of 50] by (simp add: pool_inv_def)
  have "admission_checked demo ?m demo_rival ?w demo_utxos True 50000 500
      \<and> 100 = fst (admit_vsize demo ?m demo_rival ?w demo_utxos) \<and> direct_conflicts ?m demo_rival \<noteq> []
      \<and> displacement_set ?m (direct_conflicts ?m demo_rival) = Some [1, 2]
      \<and> replacement_allowed demo 30 ?m (policy ?m) demo_rival ?w demo_utxos 100 (direct_conflicts ?m demo_rival) [1, 2] = Ok True
      \<and> (check_ancestor_descendant_limits (apply_replacement 30 (calculate_tx_id demo demo_rival)
            (direct_conflicts ?m demo_rival) [1, 2] ?m) demo_rival (policy ?m) 100
          \<longrightarrow> (\<exists>ws. ?w = Some ws \<and> length ws \<noteq> length (inputs demo_rival)))"
    using demo_admission_checked [of 50] demo_live_allowed [of 50] demo_live_limits [of 50] demo_live_displaced [of 50]
    by (simp add: demo_live_conflicts demo_live_vsize del: demo_live_fields)
  then have "pooled (snd ?a) \<noteq> pooled ?m"
    using failed_replacement_loses_conflicts [OF inv a] by blast
  then have "pooled (snd ?a) = pooled ?m - set (txs_this_replacement_removes ?m demo_rival)"
    using failed_replacement_loses_conflicts [OF inv a] by blast
  then show ?thesis by (simp add: demo_live_removes)
qed

lemma demo_valid: "outputs_checked demo" "valid_inv demo (demo_live l)"
proof -
  show "outputs_checked demo"
    using output_sum_total [OF demo_money] by (auto simp: outputs_checked_def demo_api list_all_iff)
  show "valid_inv demo (demo_live l)"
    using demo_live_inv [of l]
    by (auto simp: valid_inv_def pool_inv_def demo_api demo_parent_def demo_child_def demo_spend_def split: if_splits)
qed

theorem replacement_pays_for_displaced_witness:
  "\<exists>fee vsize. hm_get (fee_basis (snd (add_transaction_with_witness demo 30 demo_rival (Some [[]]) (demo_live 101000)))) 3
     = Some (fee, vsize) \<and> int (unat fee) = 50000 \<and> 1000 * (10000 + 10000) + int (100 * unat vsize) \<le> 1000 * int (unat fee)"
proof -
  let ?m = "demo_live 101000"
  let ?a = "add_transaction_with_witness demo 30 demo_rival (Some [[]]) ?m"
  have "fst ?a = Ok True" by (simp add: demo_add Let_def)
  then have a: "?a = (Ok True, snd ?a)" by (metis prod.collapse)
  let ?R = "set (txs_this_replacement_removes ?m demo_rival)" and ?t = "\<lambda>h. the (hm_get (transactions ?m) h)"
  have coins: "coin_sats demo ?m demo_utxos demo_coin = 100000"
    "coin_sats demo ?m demo_utxos \<lparr> op_hash = 1, op_index = 0 \<rparr> = 90000"
    by (simp_all add: coin_sats_def demo_utxo money_sats_def as_u64_def)
      (simp add: demo_utxos_def demo_coin_def pooled_output_def list_get_def demo_parent_def demo_spend_def
        money_sats_def as_u64_def)
  have "true_fee demo ?m demo_utxos demo_parent = 10000" "true_fee demo ?m demo_utxos demo_child = 10000"
    "true_fee demo ?m demo_utxos demo_rival = 50000"
    by (simp_all add: true_fee_def coins) (simp_all add: demo_parent_def demo_child_def demo_rival_def demo_spend_def)
  moreover have "{h \<in> ?R. priced_in_full ?m demo_utxos demo_rival (?t h)} = {1, 2}"
  proof -
    have "mempool_creates ?m \<lparr> op_hash = 1, op_index = 0 \<rparr>" "hm_get demo_utxos \<lparr> op_hash = 1, op_index = 0 \<rparr> = None"
      by (simp_all add: mempool_creates_def pooled_output_def list_get_def demo_parent_def demo_spend_def demo_utxos_def demo_coin_def)
    then show ?thesis by (auto simp: demo_live_removes priced_in_full_def)
  qed
  moreover have "\<forall>h \<in> ?R. (\<Sum>op\<leftarrow>prevouts (?t h). int (coin_sats demo ?m demo_utxos op)) \<le> MAX_MONEY demo"
    by (simp add: demo_live_removes coins)
  moreover have "direct_conflicts ?m demo_rival \<noteq> []" "int (card ?R) * MAX_MONEY demo \<le> i64_max"
    by (simp_all add: demo_live_conflicts demo_live_removes i64_max_def)
  ultimately show ?thesis
    using replacement_pays_for_displaced [OF demo_money demo_valid _ a, of demo_utxos]
    by (auto simp: default_policy_def)
qed

lemma replacement_count_restarts_witness:
  "map_option replacement_count (hm_get (rbf_tracking
     (snd (add_transaction_with_witness demo 30 demo_rival (Some [[]]) (demo_live 101000)))) 3) = Some 1"
proof -
  let ?a = "add_transaction_with_witness demo 30 demo_rival (Some [[]]) (demo_live 101000)"
  have "fst ?a = Ok True" by (simp add: demo_add Let_def)
  then have "?a = (Ok True, snd ?a)" by (metis prod.collapse)
  from replacement_count_restarts [OF demo_live_inv this] show ?thesis
    by (simp add: demo_live_conflicts)
qed

theorem admitted_conserves_value_witness:
  "map_option (\<lambda>b. int (unat (fst b))) (hm_get (fee_basis
     (snd (add_transaction_with_witness demo 30 demo_rival (Some [[]]) (demo_live 101000)))) 3) = Some 50000"
proof -
  let ?m = "demo_live 101000"
  let ?a = "add_transaction_with_witness demo 30 demo_rival (Some [[]]) ?m"
  have "fst ?a = Ok True" by (simp add: demo_add Let_def)
  then have a: "?a = (Ok True, snd ?a)" by (metis prod.collapse)
  have "(\<Sum>op\<leftarrow>prevouts demo_rival. int (known_value demo ?m demo_utxos op)) = 100000"
    by (simp add: known_value_def input_sats_def demo_utxo money_sats_def as_u64_def)
  then show ?thesis
    using admitted_conserves_value [OF demo_money demo_valid a demo_live_snapshot] by (auto simp: demo_rival_fields)
qed

end
