(* ===== verification/Mempool_Package.thy ===== *)
theory Mempool_Package
  imports Mempool_Admit
begin

text \<open>
  Packages: the waivers an ordered package earns, its admission one transaction at a time with
  the two rollback passes, the preview a dry run keeps, and the dry run of one
  transaction.
\<close>

type_synonym package = "(transaction \<times> witness list option) list"


section \<open>Definitions\<close>

definition package_ids :: "'a tx_api_scheme \<Rightarrow> package \<Rightarrow> hash list" where
  "package_ids P txs = map (\<lambda>(tx, w). calculate_tx_id P tx) txs"

text \<open>The outputs of the package as coins.\<close>

definition add_package_outputs :: "'a tx_api_scheme \<Rightarrow> package \<Rightarrow> utxo_set \<Rightarrow> utxo_set" where
  "add_package_outputs P txs us =
     foldl (\<lambda>us (tx, w).
       foldl (\<lambda>us (index, out).
           hm_insert \<lparr> op_hash = calculate_tx_id P tx, op_index = of_nat index \<rparr> (pooled_coin out) us)
         us (enumerate 0 (outputs tx))) us txs"

text \<open>One transaction of the waiver loop, on the fee, the size and the transactions below the floor so far.\<close>

definition waiver_step ::
  "'a protocol_scheme \<Rightarrow> mempool_manager \<Rightarrow> utxo_set \<Rightarrow> u64 \<Rightarrow> u64 \<times> u64 \<times> hash list
    \<Rightarrow> transaction \<times> witness list option \<Rightarrow> u64 \<times> u64 \<times> hash list" where
  "waiver_step P m us rate acc e =
     (case acc of (fee, vsize, below) \<Rightarrow>
        let tx = fst e; tx_fee = calculate_transaction_fee P m tx us;
            tx_vsize = fst (admit_vsize P m tx (snd e) us)
        in (saturating_add fee tx_fee, saturating_add vsize tx_vsize,
            if (ucast tx_fee :: u128) < relay_price rate tx_vsize
            then below @ [calculate_tx_id P tx] else below))"

definition package_relay_waivers ::
  "'a protocol_scheme \<Rightarrow> mempool_manager \<Rightarrow> package \<Rightarrow> utxo_set \<Rightarrow> u64 \<Rightarrow> hash hset" where
  "package_relay_waivers P m txs us rate =
     (let spent_by_last = (if txs = [] then [] else map op_hash (prevouts (fst (last txs))));
          counted = filter (\<lambda>(index, tx, w). index + 1 = length txs
              \<or> calculate_tx_id P tx \<in> set spent_by_last) (enumerate 0 txs);
          (fee, vsize, below) = foldl (waiver_step P m us rate) (0, 0, []) (map snd counted)
      in if vsize = 0 \<or> (ucast fee :: u128) < relay_price rate vsize then []
         else hs_extend [] below)"

text \<open>\<^verbatim>\<open>package_descendants\<close>: one transaction, one pass over the package, and the passes until nothing joins.\<close>

definition join_member :: "'a tx_api_scheme \<Rightarrow> hash hset \<Rightarrow> transaction \<times> witness list option \<Rightarrow> hash hset" where
  "join_member P members e =
     (if calculate_tx_id P (fst e) \<in> set members then members
      else if list_ex (\<lambda>op. op_hash op \<in> set members) (prevouts (fst e))
      then hs_insert (calculate_tx_id P (fst e)) members else members)"

definition descendants_pass :: "'a tx_api_scheme \<Rightarrow> package \<Rightarrow> hash hset \<Rightarrow> hash hset" where
  "descendants_pass P txs members = foldl (join_member P) members txs"

lemma descendants_pass_grows:
  "\<exists>zs. descendants_pass P txs members = zs @ members \<and> set zs \<subseteq> set (package_ids P txs)
    \<and> set zs \<inter> set members = {}"
  unfolding descendants_pass_def package_ids_def
proof (induction txs arbitrary: members)
  case (Cons e txs)
  let ?id = "calculate_tx_id P (fst e)"
  have id: "set (map (\<lambda>(tx, w). calculate_tx_id P tx) (e # txs))
      = insert ?id (set (map (\<lambda>(tx, w). calculate_tx_id P tx) txs))"
    by (cases e) simp
  obtain zs where zs: "foldl (join_member P) (join_member P members e) txs = zs @ join_member P members e"
    "set zs \<subseteq> set (map (\<lambda>(tx, w). calculate_tx_id P tx) txs)" "set zs \<inter> set (join_member P members e) = {}"
    using Cons.IH [of "join_member P members e"] by blast
  have "join_member P members e = members \<or> (join_member P members e = [?id] @ members \<and> ?id \<notin> set members)"
    by (simp add: join_member_def hs_insert_def)
  then show ?case
  proof
    assume "join_member P members e = members"
    with zs show ?thesis unfolding id by (intro exI [of _ zs]) auto
  next
    assume "join_member P members e = [?id] @ members \<and> ?id \<notin> set members"
    with zs show ?thesis unfolding id by (intro exI [of _ "zs @ [?id]"]) auto
  qed
qed simp

function descendants_loop :: "'a tx_api_scheme \<Rightarrow> package \<Rightarrow> hash hset \<Rightarrow> hash hset" where
  "descendants_loop P txs members =
     (let members' = descendants_pass P txs members
      in if length members' = length members then members' else descendants_loop P txs members')"
  by pat_completeness auto
termination
proof (relation "measure (\<lambda>(P, txs, members). card (set (package_ids P txs) - set members))")
  fix P :: "'a tx_api_scheme" and txs and members members' :: "hash list"
  assume "members' = descendants_pass P txs members" "length members' \<noteq> length members"
  then obtain zs where zs: "members' = zs @ members" "set zs \<subseteq> set (package_ids P txs)"
    "set zs \<inter> set members = {}" "zs \<noteq> []"
    using descendants_pass_grows [of P txs members] by auto
  then obtain z where "z \<in> set zs" by (cases zs) auto
  with zs have "set (package_ids P txs) - set members' \<subset> set (package_ids P txs) - set members" by auto
  then show "((P, txs, members'), P, txs, members) \<in> measure (\<lambda>(P, txs, members). card (set (package_ids P txs) - set members))"
    by (simp add: psubset_card_mono)
qed simp

declare descendants_loop.simps [simp del]

definition package_descendants :: "'a tx_api_scheme \<Rightarrow> package \<Rightarrow> nat \<Rightarrow> hash hset" where
  "package_descendants P txs start =
     (let ids = package_ids P txs in
      if start \<ge> length ids then [] else descendants_loop P txs [ids ! start])"

definition ephemeral_dust_parent ::
  "'a protocol_scheme \<Rightarrow> mempool_manager \<Rightarrow> package \<Rightarrow> utxo_set \<Rightarrow> nat \<Rightarrow> transaction \<Rightarrow> bool" where
  "ephemeral_dust_parent P m txs us index tx =
     (if calculate_transaction_fee P m tx us \<noteq> 0 then False
      else
        let dust = filter (\<lambda>(i, out). output_is_dust P out) (enumerate 0 (outputs tx)) in
        if length dust \<noteq> 1 then False
        else
          let spent = \<lparr> op_hash = calculate_tx_id P tx, op_index = of_nat (fst (dust ! 0)) \<rparr>
          in list_ex (\<lambda>(later, w). spent \<in> set (prevouts later)) (drop (index + 1) txs))"

definition ephemeral_dust_parents ::
  "'a protocol_scheme \<Rightarrow> mempool_manager \<Rightarrow> package \<Rightarrow> utxo_set \<Rightarrow> hash hset" where
  "ephemeral_dust_parents P m txs us =
     foldl (\<lambda>waive (index, tx, w).
       if ephemeral_dust_parent P m txs us index tx then hs_insert (calculate_tx_id P tx) waive else waive)
       [] (enumerate 0 txs)"

definition package_rate :: "mempool_manager \<Rightarrow> u64" where
  "package_rate m = (case policy_config m of None \<Rightarrow> 100 | Some p \<Rightarrow> min_relay_fee_rate p)"

definition set_waivers :: "'a protocol_scheme \<Rightarrow> package \<Rightarrow> utxo_set \<Rightarrow> mempool_manager \<Rightarrow> mempool_manager" where
  "set_waivers P txs us m =
     m \<lparr> relay_floor_waivers := package_relay_waivers P m txs us (package_rate m),
         ephemeral_dust_waivers := ephemeral_dust_parents P m txs us \<rparr>"

definition clear_waivers :: "mempool_manager \<Rightarrow> mempool_manager" where
  "clear_waivers m = m \<lparr> relay_floor_waivers := [], ephemeral_dust_waivers := [] \<rparr>"

definition arm_package_preview ::
  "'a protocol_scheme \<Rightarrow> package \<Rightarrow> utxo_set \<Rightarrow> mempool_manager \<Rightarrow> mempool_manager" where
  "arm_package_preview P txs chain_utxo m = set_waivers P txs (add_package_outputs P txs chain_utxo) m"

definition clear_package_preview :: "mempool_manager \<Rightarrow> mempool_manager" where
  "clear_package_preview m = (clear_waivers m) \<lparr> mgr_package_preview := empty_preview \<rparr>"

definition note_package_preview ::
  "'a protocol_scheme \<Rightarrow> transaction \<Rightarrow> witness list option \<Rightarrow> utxo_set \<Rightarrow> mempool_manager \<Rightarrow> mempool_manager" where
  "note_package_preview P tx wits us m =
     (let txid = calculate_tx_id P tx;
          vsize = fst (admit_vsize P m tx wits us);
          pv = mgr_package_preview m;
          parents = filter (\<lambda>h. hm_contains (transactions m) h \<or> hm_contains (preview_txs pv) h)
            (map op_hash (prevouts tx));
          descendants = foldl (\<lambda>d h. hm_entry_insert h txid d) (preview_descendants pv) parents
      in m \<lparr> mgr_package_preview := \<lparr> preview_txs = hm_insert txid (vsize, parents) (preview_txs pv),
                                      preview_descendants = descendants \<rparr> \<rparr>)"

text \<open>The coins the package spends; \<open>None\<close> when the UTXO set is locked.\<close>

definition package_snapshot :: "package \<Rightarrow> mempool_manager \<Rightarrow> utxo_set option" where
  "package_snapshot txs m =
     (case utxo_set_arc m of
        None \<Rightarrow> None
      | Some (locked, chain) \<Rightarrow>
          if locked then None
          else Some (foldl (\<lambda>us op. case hm_get chain op of None \<Rightarrow> us | Some u \<Rightarrow> hm_insert op u us)
            [] (concat (map (\<lambda>(tx, w). prevouts tx) txs))))"

text \<open>The admissions in order; an error stops them and is returned after the rollback.\<close>

fun admit_each ::
  "'a protocol_scheme \<Rightarrow> u64 \<Rightarrow> package \<Rightarrow> mempool_manager \<Rightarrow> bool list \<times> string option \<times> mempool_manager" where
  "admit_each P now [] m = ([], None, m)"
| "admit_each P now ((tx, wits) # txs) m =
     (case add_transaction_with_witness P now tx wits m of
        (Err e, m1) \<Rightarrow> ([], Some e, m1)
      | (Ok admitted, m1) \<Rightarrow>
          (case admit_each P now txs m1 of (flags, outcome, m2) \<Rightarrow> (admitted # flags, outcome, m2)))"

fun list_position :: "hash \<Rightarrow> hash list \<Rightarrow> nat option" where
  "list_position x [] = None"
| "list_position x (y # ys) = (if y = x then Some 0 else map_option Suc (list_position x ys))"

text \<open>The first rollback: a waived transaction whose package descendants were not all admitted goes, with them.\<close>

definition drop_member ::
  "hash list \<Rightarrow> hash set \<Rightarrow> bool list \<times> mempool_manager \<Rightarrow> hash \<Rightarrow> bool list \<times> mempool_manager" where
  "drop_member ids admitted s member =
     (case s of (flags, m) \<Rightarrow>
        if member \<notin> admitted then (flags, m)
        else
          (case list_position member ids of
             None \<Rightarrow> (flags, remove_tx member m)
           | Some i \<Rightarrow> (if i < length flags then flags[i := False] else flags, remove_tx member m)))"

definition drop_unpaid ::
  "hash list \<Rightarrow> hash set \<Rightarrow> hash hset \<Rightarrow> (hash \<times> hash hset) list \<Rightarrow> bool list \<times> mempool_manager
    \<Rightarrow> bool list \<times> mempool_manager" where
  "drop_unpaid ids admitted waived closures s =
     foldl (\<lambda>s (id, closure).
       if id \<notin> set waived \<or> id \<notin> admitted then s
       else if list_ex (\<lambda>member. member \<notin> admitted) closure
       then foldl (drop_member ids admitted) s closure else s) s closures"

text \<open>The second rollback: a transaction whose package parent is not admitted goes, until none is left.\<close>

definition parent_missing :: "hash list \<Rightarrow> bool list \<Rightarrow> hash list \<Rightarrow> bool" where
  "parent_missing ids flags parents =
     list_ex (\<lambda>parent. case list_position parent ids of
         None \<Rightarrow> False
       | Some i \<Rightarrow> i \<ge> length flags \<or> \<not> flags ! i) parents"

definition drop_orphan ::
  "hash list \<Rightarrow> bool list \<times> mempool_manager \<Rightarrow> nat \<times> hash list \<Rightarrow> bool list \<times> mempool_manager" where
  "drop_orphan ids s e =
     (case s of (flags, m) \<Rightarrow>
        let index = fst e in
        if index \<ge> length flags \<or> \<not> flags ! index then (flags, m)
        else if parent_missing ids flags (snd e) then (flags[index := False], remove_tx (ids ! index) m)
        else (flags, m))"

definition orphan_pass ::
  "hash list \<Rightarrow> hash list list \<Rightarrow> bool list \<times> mempool_manager \<Rightarrow> bool list \<times> mempool_manager" where
  "orphan_pass ids spends s = foldl (drop_orphan ids) s (enumerate 0 spends)"

lemma drop_orphan_flags:
  "fst (drop_orphan ids s e) = fst s \<or>
    (fst e < length (fst s) \<and> fst s ! fst e \<and> fst (drop_orphan ids s e) = (fst s)[fst e := False])"
  by (cases s) (simp add: drop_orphan_def Let_def)

lemma count_flag_cleared:
  "i < length flags \<Longrightarrow> flags ! i \<Longrightarrow> length (filter (\<lambda>f. f) (flags[i := False])) < length (filter (\<lambda>f. f) flags)"
proof (induction flags arbitrary: i)
  case (Cons f flags)
  then show ?case by (cases i) auto
qed simp

lemma orphan_fold_flags:
  "fst (foldl (drop_orphan ids) s es) = fst s
    \<or> length (filter (\<lambda>f. f) (fst (foldl (drop_orphan ids) s es))) < length (filter (\<lambda>f. f) (fst s))"
proof (induction es arbitrary: s)
  case (Cons e es)
  have "length (filter (\<lambda>f. f) (fst (drop_orphan ids s e))) < length (filter (\<lambda>f. f) (fst s))"
    if "fst (drop_orphan ids s e) \<noteq> fst s"
    using drop_orphan_flags [of ids s e] that count_flag_cleared [of "fst e" "fst s"] by auto
  note step = this and IH = Cons.IH [of "drop_orphan ids s e"]
  show ?case
  proof (cases "fst (drop_orphan ids s e) = fst s")
    case True
    then show ?thesis using IH by simp
  next
    case False
    from IH step [OF False] show ?thesis by (auto intro: less_trans)
  qed
qed simp

function orphan_loop ::
  "hash list \<Rightarrow> hash list list \<Rightarrow> bool list \<times> mempool_manager \<Rightarrow> bool list \<times> mempool_manager" where
  "orphan_loop ids spends s =
     (let s' = orphan_pass ids spends s in if fst s' = fst s then s' else orphan_loop ids spends s')"
  by pat_completeness auto
termination
proof (relation "measure (\<lambda>(ids, spends, s). length (filter (\<lambda>f. f) (fst s)))")
  fix ids spends and s s' :: "bool list \<times> mempool_manager"
  assume "s' = orphan_pass ids spends s" "fst s' \<noteq> fst s"
  then have "length (filter (\<lambda>f. f) (fst s')) < length (filter (\<lambda>f. f) (fst s))"
    using orphan_fold_flags [of ids s "enumerate 0 spends"] by (simp add: orphan_pass_def)
  then show "((ids, spends, s'), ids, spends, s) \<in> measure (\<lambda>(ids, spends, s). length (filter (\<lambda>f. f) (fst s)))"
    by simp
qed simp

declare orphan_loop.simps [simp del]

definition admitted_ids :: "hash list \<Rightarrow> bool list \<Rightarrow> hash set" where
  "admitted_ids ids flags = set (map fst (filter snd (zip ids flags)))"

definition admit_package ::
  "'a protocol_scheme \<Rightarrow> u64 \<Rightarrow> package \<Rightarrow> mempool_manager \<Rightarrow> (bool list, string) result \<times> mempool_manager" where
  "admit_package P now txs m =
     (let ids = package_ids P txs;
          closures = map (package_descendants P txs) [0..<length txs];
          spends = map (\<lambda>(tx, w). filter (\<lambda>h. h \<in> set ids) (map op_hash (prevouts tx))) txs;
          waived = hs_extend (relay_floor_waivers m) (ephemeral_dust_waivers m);
          (flags, outcome, m1) = admit_each P now txs m;
          m2 = clear_waivers m1;
          s = drop_unpaid ids (admitted_ids ids flags) waived (zip ids closures) (flags, m2);
          (flags', m3) = orphan_loop ids spends s
      in (case outcome of None \<Rightarrow> Ok flags' | Some e \<Rightarrow> Err e, m3))"

definition add_package_with_witnesses ::
  "'a protocol_scheme \<Rightarrow> u64 \<Rightarrow> package \<Rightarrow> mempool_manager \<Rightarrow> (bool list, string) result \<times> mempool_manager" where
  "add_package_with_witnesses P now txs m =
     (if txs = [] then (Ok [], m)
      else if utxo_set_arc m = None then admit_package P now txs m
      else case package_snapshot txs m of
        None \<Rightarrow> (Ok (replicate (length txs) False), m)
      | Some us \<Rightarrow> admit_package P now txs (set_waivers P txs (add_package_outputs P txs us) m))"

definition add_package ::
  "'a protocol_scheme \<Rightarrow> u64 \<Rightarrow> transaction list \<Rightarrow> mempool_manager \<Rightarrow> (bool, string) result \<times> mempool_manager" where
  "add_package P now txs m =
     (case add_package_with_witnesses P now (map (\<lambda>tx. (tx, None)) txs) m of
        (Err e, m1) \<Rightarrow> (Err e, m1)
      | (Ok flags, m1) \<Rightarrow> (Ok (flags \<noteq> [] \<and> list_all id flags), m1))"


section \<open>Dry run\<close>

definition replacement_rejects ::
  "'a protocol_scheme \<Rightarrow> u64 \<Rightarrow> mempool_manager \<Rightarrow> transaction \<Rightarrow> witness list option \<Rightarrow> utxo_set \<Rightarrow> u64 \<Rightarrow> bool" where
  "replacement_rejects P now m tx wits us vsize =
     (let direct = direct_conflicts m tx in
      if direct = [] then False
      else
        let displaced = packages_of m direct in
        if conflicting_cluster_count m direct > 100 then True
        else if as_i64 (calculate_transaction_fee P m tx us)
            < fst (package_fee_and_vsize P m displaced us) + sint (relay_bandwidth m vsize) then True
        else conflicts_allow P now m tx wits us direct \<noteq> Ok True)"

definition preview_standard_error ::
  "'a protocol_scheme \<Rightarrow> bool \<Rightarrow> transaction \<Rightarrow> witness list option \<Rightarrow> string option" where
  "preview_standard_error P require_std tx wits =
     (if require_std \<and> \<not> (1 \<le> version tx \<and> version tx \<le> 2) then Some ''version''
      else if require_std \<and> transaction_weight P tx wits > MAX_STANDARD_TX_WEIGHT then Some ''tx-size''
      else if require_std
        \<and> list_ex (\<lambda>out. \<not> output_script_is_standard P (script_pubkey out)) (outputs tx)
        then Some ''scriptpubkey''
      else if require_std
        \<and> list_ex (\<lambda>inp. length (script_sig inp) > MAX_STANDARD_SCRIPTSIG_SIZE) (inputs tx)
        then Some ''scriptsig-size''
      else if require_std
        \<and> list_ex (\<lambda>inp. \<not> p2sh_push_only_check P (script_sig inp)) (inputs tx)
        then Some ''scriptsig-not-pushonly''
      else if require_std \<and> nonwitness_size P tx < MIN_STANDARD_TX_NONWITNESS_SIZE
        then Some ''tx-size-small''
      else None)"

definition preview_chain_error ::
  "'a protocol_scheme \<Rightarrow> mempool_manager \<Rightarrow> bool \<Rightarrow> transaction \<Rightarrow> utxo_set \<Rightarrow> string option" where
  "preview_chain_error P m require_std tx us =
     (let (height, mtp) = unwrap_or (finality_context P m) (0, 0) in
      if \<not> is_final_tx P tx height mtp then Some ''non-final''
      else if relative_lock_rejects P m tx us then Some ''non-BIP68-final''
      else if immature_coinbase_spend P m tx us then Some ''bad-txns-premature-spend-of-coinbase''
      else if list_ex (\<lambda>op. hm_get us op = None \<and> \<not> mempool_creates m op) (prevouts tx)
        then Some ''missing-inputs''
      else if require_std \<and> nonstandard_spend P (script_prevouts m tx us)
        then Some ''bad-txns-nonstandard-inputs''
      else if require_std \<and> p2sh_redeem_sigops_exceed P tx (script_prevouts m tx us)
        then Some ''bad-txns-nonstandard-inputs''
      else if prevout_sum_exceeds_money P m tx us then Some ''bad-txns-in-belowout''
      else if outputs_exceed_inputs P m tx us then Some ''bad-txns-in-belowout''
      else None)"

definition preview_accept ::
  "'a protocol_scheme \<Rightarrow> u64 \<Rightarrow> mempool_manager \<Rightarrow> transaction \<Rightarrow> witness list option \<Rightarrow> utxo_set
    \<Rightarrow> (u64, string) result" where
  "preview_accept P now m tx wits us =
     (let tx_hash = calculate_tx_id P tx;
          require_std = (case policy_config m of None \<Rightarrow> True | Some p \<Rightarrow> require_standard p)
      in if inputs tx = [] \<or> outputs tx = [] then Err ''bad-txns-vin-empty''
         else if list_ex (output_is_dust P) (outputs tx) \<and> \<not> ephemeral_dust_allowed P m tx tx_hash
           then Err ''dust''
         else case preview_standard_error P require_std tx wits of
           Some e \<Rightarrow> Err e
         | None \<Rightarrow>
             (case preview_chain_error P m require_std tx us of
                Some e \<Rightarrow> Err e
              | None \<Rightarrow>
                  let fee = calculate_transaction_fee P m tx us;
                      vsize = fst (admit_vsize P m tx wits us)
                  in if tx_hash \<notin> set (relay_floor_waivers m)
                       \<and> (ucast fee :: u128) < relay_price (package_rate m) vsize
                     then Err ''min relay fee not met''
                     else if fee < min_tx_fee (policy m) then Err ''min relay fee not met''
                     else if \<not> check_ancestor_descendant_limits m tx (policy m) vsize
                     then Err ''too-long-mempool-chain''
                     else if replacement_rejects P now m tx wits us vsize then Err ''insufficient fee''
                     else Ok fee))"


section \<open>The closure of a package member\<close>

text \<open>In the package, \<open>b\<close> spends an output of \<open>a\<close>.\<close>

definition package_edges :: "'a tx_api_scheme \<Rightarrow> package \<Rightarrow> (hash \<times> hash) set" where
  "package_edges P txs =
     {(a, b). \<exists>(tx, w) \<in> set txs. b = calculate_tx_id P tx \<and> a \<in> op_hash ` set (prevouts tx)}"

lemma reach_idem: "r\<^sup>* `` (r\<^sup>* `` A) = r\<^sup>* `` A"
  by (auto intro: rtrancl_trans)

lemma join_member_reach:
  assumes "e \<in> set txs"
  shows "set (join_member P members e) \<subseteq> (package_edges P txs)\<^sup>* `` set members"
proof -
  have "calculate_tx_id P (fst e) \<in> (package_edges P txs)\<^sup>* `` set members"
    if "op \<in> set (prevouts (fst e))" "op_hash op \<in> set members" for op
  proof -
    have "(op_hash op, calculate_tx_id P (fst e)) \<in> package_edges P txs"
      using assms that by (auto simp: package_edges_def intro!: bexI [of _ e])
    then show ?thesis using that(2) by blast
  qed
  then show ?thesis by (auto simp: join_member_def list_ex_iff)
qed

lemma descendants_pass_reach: "set (descendants_pass P txs members) \<subseteq> (package_edges P txs)\<^sup>* `` set members"
proof -
  have "set es \<subseteq> set txs \<Longrightarrow> set (foldl (join_member P) ms es) \<subseteq> (package_edges P txs)\<^sup>* `` set ms" for es ms
  proof (induction es arbitrary: ms)
    case (Cons e es)
    have "set (foldl (join_member P) (join_member P ms e) es) \<subseteq> (package_edges P txs)\<^sup>* `` set (join_member P ms e)"
      using Cons by simp
    also have "\<dots> \<subseteq> (package_edges P txs)\<^sup>* `` ((package_edges P txs)\<^sup>* `` set ms)"
      using join_member_reach [of e txs P ms] Cons.prems by (intro Image_mono) auto
    also have "\<dots> = (package_edges P txs)\<^sup>* `` set ms"
      by (rule reach_idem)
    finally show ?case by simp
  qed auto
  then show ?thesis by (simp add: descendants_pass_def)
qed

lemma descendants_pass_fixed:
  assumes "descendants_pass P txs members = members"
  shows "package_edges P txs `` set members \<subseteq> set members"
proof -
  have "foldl (join_member P) ms es = ms \<Longrightarrow> \<forall>e \<in> set es. join_member P ms e = ms" for ms es
  proof (induction es)
    case (Cons e es)
    have len: "length ms \<le> length (join_member P ms e)" for ms e
      by (simp add: join_member_def hs_insert_def)
    have mono: "length ms \<le> length (foldl (join_member P) ms es)" for ms es
      by (induction es arbitrary: ms) (auto intro: order_trans [OF len])
    have "length (join_member P ms e) = length ms"
      using mono [of "join_member P ms e" es] Cons.prems len [of ms e] by simp
    then have "join_member P ms e = ms" by (auto simp: join_member_def hs_insert_def split: if_splits)
    with Cons show ?case by simp
  qed simp
  from this [OF assms [unfolded descendants_pass_def]]
  have fixed: "join_member P members e = members" if "e \<in> set txs" for e using that by blast
  show ?thesis
  proof
    fix b assume "b \<in> package_edges P txs `` set members"
    then obtain tx w op where e: "(tx, w) \<in> set txs" "b = calculate_tx_id P tx" "op \<in> set (prevouts tx)"
      "op_hash op \<in> set members"
      by (auto simp: package_edges_def)
    with fixed [OF e(1)] show "b \<in> set members"
      by (auto simp: join_member_def hs_insert_def list_ex_iff split: if_splits)
  qed
qed

lemma set_descendants_loop: "set (descendants_loop P txs members) = (package_edges P txs)\<^sup>* `` set members"
proof (induction P txs members rule: descendants_loop.induct)
  case (1 P txs members)
  let ?m = "descendants_pass P txs members"
  obtain zs where zs: "?m = zs @ members" using descendants_pass_grows by blast
  show ?case
  proof (cases "length ?m = length members")
    case True
    then have fixed: "?m = members" using zs by simp
    have "descendants_loop P txs members = members"
      by (subst descendants_loop.simps) (simp add: Let_def fixed)
    moreover have "(package_edges P txs)\<^sup>* `` set members = set members"
      using descendants_pass_fixed [OF fixed] by (rule Image_closed_trancl)
    ultimately show ?thesis by simp
  next
    case False
    then have "descendants_loop P txs members = descendants_loop P txs ?m"
      by (subst descendants_loop.simps) (simp add: Let_def)
    moreover have "set (descendants_loop P txs ?m) = (package_edges P txs)\<^sup>* `` set ?m"
      using "1.IH" [OF refl False] .
    moreover have "(package_edges P txs)\<^sup>* `` set ?m = (package_edges P txs)\<^sup>* `` set members"
    proof
      have "(package_edges P txs)\<^sup>* `` set ?m \<subseteq> (package_edges P txs)\<^sup>* `` ((package_edges P txs)\<^sup>* `` set members)"
        by (rule Image_mono [OF subset_refl descendants_pass_reach])
      then show "(package_edges P txs)\<^sup>* `` set ?m \<subseteq> (package_edges P txs)\<^sup>* `` set members"
        unfolding reach_idem .
    qed (simp add: zs Image_Un)
    ultimately show ?thesis by simp
  qed
qed

text \<open>
  The passes over a package end, and what they collect for a member is exactly that member and
  everything in the package that spends it, directly or through other members.
\<close>

lemma package_descendants_spec:
  "set (package_descendants P txs start) =
    (if start < length txs
     then (package_edges P txs)\<^sup>* `` {calculate_tx_id P (fst (txs ! start))} else {})"
  by (simp add: package_descendants_def Let_def package_ids_def set_descendants_loop case_prod_unfold)



section \<open>The result of a package\<close>

text \<open>The flag decision of one transaction reads only the flags.\<close>

lemma fst_drop_orphan:
  "fst (drop_orphan ids s e) =
    (if fst e < length (fst s) \<and> fst s ! fst e \<and> parent_missing ids (fst s) (snd e)
     then (fst s)[fst e := False] else fst s)"
  by (cases s) (simp add: drop_orphan_def Let_def)

lemma orphan_fold_fixed:
  "fst (foldl (drop_orphan ids) s es) = fst s \<Longrightarrow> \<forall>e \<in> set es. fst (drop_orphan ids s e) = fst s"
proof (induction es arbitrary: s)
  case (Cons e es)
  have "fst (drop_orphan ids s e) = fst s"
  proof (rule ccontr)
    assume ne: "fst (drop_orphan ids s e) \<noteq> fst s"
    then have "length (filter (\<lambda>f. f) (fst (drop_orphan ids s e))) < length (filter (\<lambda>f. f) (fst s))"
      using drop_orphan_flags [of ids s e] count_flag_cleared [of "fst e" "fst s"] by auto
    moreover have "length (filter (\<lambda>f. f) (fst (foldl (drop_orphan ids) (drop_orphan ids s e) es)))
        \<le> length (filter (\<lambda>f. f) (fst (drop_orphan ids s e)))"
      using orphan_fold_flags [of ids "drop_orphan ids s e" es] by auto
    ultimately show False using Cons.prems by simp
  qed
  moreover from this have "\<forall>e' \<in> set es. fst (drop_orphan ids (drop_orphan ids s e) e') = fst (drop_orphan ids s e)"
    using Cons.IH [of "drop_orphan ids s e"] Cons.prems by simp
  moreover have "fst (drop_orphan ids (drop_orphan ids s e) e') = fst (drop_orphan ids s e')" for e'
    using calculation(1) by (simp add: fst_drop_orphan)
  ultimately show ?case by simp
qed simp

lemma orphan_loop_closed:
  "\<forall>(i, parents) \<in> set (enumerate 0 spends). i < length (fst (orphan_loop ids spends s)) \<longrightarrow>
     fst (orphan_loop ids spends s) ! i \<longrightarrow> \<not> parent_missing ids (fst (orphan_loop ids spends s)) parents"
proof (induction ids spends s rule: orphan_loop.induct)
  case (1 ids spends s)
  let ?s = "orphan_pass ids spends s"
  show ?case
  proof (cases "fst ?s = fst s")
    case True
    then have eq: "orphan_loop ids spends s = ?s" by (subst orphan_loop.simps) (simp add: Let_def)
    have "\<forall>e \<in> set (enumerate 0 spends). fst (drop_orphan ids s e) = fst s"
      by (rule orphan_fold_fixed) (use True in \<open>simp add: orphan_pass_def\<close>)
    then have "\<not> parent_missing ids (fst s) parents"
      if "(i, parents) \<in> set (enumerate 0 spends)" "i < length (fst s)" "fst s ! i" for i parents
      using that by (fastforce simp: fst_drop_orphan list_update_same_conv split: if_splits)
    then show ?thesis unfolding eq True by blast
  next
    case False
    then have eq: "orphan_loop ids spends s = orphan_loop ids spends ?s"
      by (subst orphan_loop.simps) (simp add: Let_def)
    show ?thesis unfolding eq by (rule "1.IH" [OF refl False])
  qed
qed

lemma length_orphan_loop: "length (fst (orphan_loop ids spends s)) = length (fst s)"
proof (induction ids spends s rule: orphan_loop.induct)
  case (1 ids spends s)
  have "length (fst (foldl (drop_orphan ids) s es)) = length (fst s)" for s es
    by (induction es arbitrary: s) (auto simp: fst_drop_orphan)
  then have "length (fst (orphan_pass ids spends s)) = length (fst s)" by (simp add: orphan_pass_def)
  with 1 show ?case by (subst orphan_loop.simps) (auto simp: Let_def)
qed

lemma length_drop_unpaid: "length (fst (drop_unpaid ids admitted waived closures s)) = length (fst s)"
proof -
  have m: "length (fst (drop_member ids admitted s x)) = length (fst s)" for s x
    by (cases s) (simp add: drop_member_def split: option.split)
  have f: "length (fst (foldl (drop_member ids admitted) s xs)) = length (fst s)" for s xs
    by (induction xs arbitrary: s) (simp_all add: m)
  show ?thesis
    unfolding drop_unpaid_def
    by (induction closures arbitrary: s) (auto simp: f split: prod.split)
qed

lemma length_admit_each: "admit_each P now txs m = (flags, None, m') \<Longrightarrow> length flags = length txs"
proof (induction txs arbitrary: m flags m')
  case (Cons e txs)
  obtain tx w where e: "e = (tx, w)" by (cases e)
  from Cons show ?case by (auto simp: e split: prod.splits sum.splits)
qed simp

text \<open>The operations of a package are removals and admissions.\<close>

context pool_invariant
begin

lemma admit_each_keeps_inv: "inv m \<Longrightarrow> inv (snd (snd (admit_each P now txs m)))"
proof (induction txs arbitrary: m)
  case (Cons e txs)
  obtain tx w where e: "e = (tx, w)" by (cases e)
  have "inv (snd (add_transaction_with_witness P now tx w m))" by (rule add_keeps_inv [OF Cons.prems])
  with Cons.IH show ?case by (fastforce simp: e split: prod.splits sum.splits)
qed simp

lemma drop_unpaid_keeps_inv:
  "inv (snd s) \<Longrightarrow> inv (snd (drop_unpaid ids admitted waived closures s))"
proof -
  have m: "inv (snd s) \<Longrightarrow> inv (snd (drop_member ids admitted s x))" for s x
    by (cases s) (simp add: drop_member_def inv_remove split: option.split)
  have f: "inv (snd s) \<Longrightarrow> inv (snd (foldl (drop_member ids admitted) s xs))" for s xs
    by (rule foldl_invariant [where I = "\<lambda>s. inv (snd s)"]) (rule m)
  show "inv (snd s) \<Longrightarrow> inv (snd (drop_unpaid ids admitted waived closures s))"
    unfolding drop_unpaid_def
    by (rule foldl_invariant [where I = "\<lambda>s. inv (snd s)"]) (auto intro: f split: prod.split)
qed

lemma orphan_loop_keeps_inv: "inv (snd s) \<Longrightarrow> inv (snd (orphan_loop ids spends s))"
proof (induction ids spends s rule: orphan_loop.induct)
  case (1 ids spends s)
  have o: "inv (snd s) \<Longrightarrow> inv (snd (drop_orphan ids s e))" for s e
    by (cases s) (simp add: drop_orphan_def Let_def inv_remove)
  have "inv (snd s) \<Longrightarrow> inv (snd (foldl (drop_orphan ids) s es))" for s es
    by (rule foldl_invariant [where I = "\<lambda>s. inv (snd s)"]) (rule o)
  then have "inv (snd (orphan_pass ids spends s))" using "1.prems" by (simp add: orphan_pass_def)
  with 1 show ?case by (subst orphan_loop.simps) (auto simp: Let_def)
qed

lemma admit_package_keeps_inv:
  assumes "inv m"
  shows "inv (snd (admit_package P now txs m))"
proof -
  let ?a = "admit_each P now txs m" and ?ids = "package_ids P txs"
  have "inv (clear_waivers (snd (snd ?a)))"
    by (rule inv_core [OF admit_each_keeps_inv [OF assms]]) (simp add: same_core_def clear_waivers_def)
  then have "inv (snd (orphan_loop ids spends (drop_unpaid ids' adm wv cl (flags, clear_waivers (snd (snd ?a))))))"
    for ids spends ids' adm wv cl flags
    by (intro orphan_loop_keeps_inv drop_unpaid_keeps_inv) simp
  then show ?thesis
    by (simp add: admit_package_def Let_def case_prod_unfold)
qed

lemma package_keeps_inv: "inv m \<Longrightarrow> inv (snd (add_package_with_witnesses P now txs m))"
  unfolding add_package_with_witnesses_def set_waivers_def
  by (auto split: option.split intro!: admit_package_keeps_inv inv_core [of m] simp: same_core_def)

end

text \<open>Which transactions the flags name, and how the rollback clears them.\<close>

lemma in_admitted_ids:
  "h \<in> admitted_ids ids flags \<longleftrightarrow> (\<exists>i. i < length ids \<and> i < length flags \<and> ids ! i = h \<and> flags ! i)"
proof -
  have "h \<in> admitted_ids ids flags \<longleftrightarrow> (h, True) \<in> set (zip ids flags)" by (force simp: admitted_ids_def)
  then show ?thesis by (auto simp: in_set_zip)
qed

lemma list_position_Some: "list_position x ys = Some i \<Longrightarrow> i < length ys \<and> ys ! i = x"
  by (induction ys arbitrary: i) (auto split: if_splits)

lemma list_position_None: "list_position x ys = None \<longleftrightarrow> x \<notin> set ys"
  by (induction ys) auto

lemma admitted_ids_clear:
  assumes "length flags = length ids" "i < length ids"
  shows "admitted_ids ids flags - {ids ! i} \<subseteq> admitted_ids ids (flags[i := False])"
    "admitted_ids ids (flags[i := False]) \<subseteq> admitted_ids ids flags"
    "distinct ids \<Longrightarrow> ids ! i \<notin> admitted_ids ids (flags[i := False])"
proof -
  show "admitted_ids ids flags - {ids ! i} \<subseteq> admitted_ids ids (flags[i := False])"
  proof
    fix h assume "h \<in> admitted_ids ids flags - {ids ! i}"
    then obtain j where "j < length ids" "ids ! j = h" "flags ! j" "j \<noteq> i" using assms by (auto simp: in_admitted_ids)
    then show "h \<in> admitted_ids ids (flags[i := False])" using assms by (auto simp: in_admitted_ids)
  qed
  show "admitted_ids ids (flags[i := False]) \<subseteq> admitted_ids ids flags"
    using assms by (auto simp: in_admitted_ids nth_list_update split: if_splits)
  show "ids ! i \<notin> admitted_ids ids (flags[i := False])" if "distinct ids"
    using assms that by (auto simp: in_admitted_ids nth_list_update nth_eq_iff_index_eq split: if_splits)
qed

text \<open>
  The state of the rollback: what is pooled was pooled before or is flagged, and exactly so when the package competes
  with nothing.
\<close>

definition flags_match :: "hash list \<Rightarrow> hash set \<Rightarrow> bool \<Rightarrow> bool list \<times> mempool_manager \<Rightarrow> bool" where
  "flags_match ids before exact s \<longleftrightarrow>
     length (fst s) = length ids \<and> pooled (snd s) \<subseteq> before \<union> admitted_ids ids (fst s)
   \<and> (exact \<longrightarrow> distinct ids \<and> pooled (snd s) = before \<union> admitted_ids ids (fst s) \<and> admitted_ids ids (fst s) \<inter> before = {})"

lemma flags_match_clear:
  assumes "flags_match ids before exact (flags, m)" "i < length ids" "exact \<longrightarrow> ids ! i \<notin> before"
  shows "flags_match ids before exact (flags[i := False], remove_tx (ids ! i) m)"
proof -
  have "length flags = length ids" using assms(1) by (simp add: flags_match_def)
  note C = admitted_ids_clear [OF this assms(2)]
  have "pooled (remove_tx (ids ! i) m) = pooled m - {ids ! i}" using remove_all_pooled [of m "[ids ! i]"] by simp
  then show ?thesis using assms(1,3) C by (simp add: flags_match_def) blast
qed

lemma drop_unpaid_match:
  assumes "flags_match ids before exact s" "admitted \<subseteq> set ids" "exact \<longrightarrow> admitted \<inter> before = {}"
  shows "flags_match ids before exact (drop_unpaid ids admitted waived closures s)"
proof -
  have one: "flags_match ids before exact (drop_member ids admitted s x)" if "flags_match ids before exact s" for s x
  proof (cases "x \<in> admitted")
    case True
    then obtain i where i: "list_position x ids = Some i" using assms(2) list_position_None [of x ids] by auto
    with list_position_Some [OF i] that True assms(3) show ?thesis
      using flags_match_clear [of ids before exact "fst s" "snd s" i]
      by (cases s) (auto simp: drop_member_def flags_match_def)
  qed (use that in \<open>simp add: drop_member_def split: prod.split\<close>)
  have "flags_match ids before exact (foldl (drop_member ids admitted) s xs)" if "flags_match ids before exact s" for s xs
    using that by (rule foldl_invariant [rotated]) (rule one)
  then show ?thesis
    unfolding drop_unpaid_def using assms(1)
    by (intro foldl_invariant [where I = "flags_match ids before exact"]) (auto split: prod.split)
qed

lemma orphan_loop_match:
  assumes "length spends = length ids" "flags_match ids before exact s"
  shows "flags_match ids before exact (orphan_loop ids spends s)"
  using assms
proof (induction ids spends s rule: orphan_loop.induct)
  case (1 ids spends s)
  have one: "flags_match ids before exact (drop_orphan ids s e)" if "flags_match ids before exact s" for s e
  proof (cases s)
    case (Pair flags m)
    have "exact \<longrightarrow> ids ! fst e \<notin> before" if "fst e < length flags" "flags ! fst e"
    proof -
      have "length flags = length ids" using \<open>flags_match ids before exact s\<close> Pair by (simp add: flags_match_def)
      with that have "ids ! fst e \<in> admitted_ids ids flags" by (auto simp: in_admitted_ids)
      then show ?thesis using \<open>flags_match ids before exact s\<close> Pair by (auto simp: flags_match_def)
    qed
    with that Pair show ?thesis
      using flags_match_clear [of ids before exact flags m "fst e"]
      by (auto simp: drop_orphan_def Let_def flags_match_def)
  qed
  have "flags_match ids before exact (orphan_pass ids spends s)"
    unfolding orphan_pass_def using "1.prems"(2) by (rule foldl_invariant [rotated]) (rule one)
  with 1 show ?case by (subst orphan_loop.simps) (auto simp: Let_def)
qed

text \<open>
  A package whose transactions differ, spend nothing that another of them spends and, unless they are in the pool
  already, nothing that the pool spends.
\<close>

definition no_contest :: "'a tx_api_scheme \<Rightarrow> package \<Rightarrow> mempool_manager \<Rightarrow> bool" where
  "no_contest P txs m \<longleftrightarrow>
     distinct (package_ids P txs)
   \<and> sorted_wrt (\<lambda>x y. set (prevouts (fst x)) \<inter> set (prevouts (fst y)) = {}) txs
   \<and> (\<forall>x \<in> set txs. calculate_tx_id P (fst x) \<in> pooled m
        \<or> (\<forall>op \<in> set (prevouts (fst x)). hm_get (spenders m) op = None))"

lemma admitted_ids_Cons: "admitted_ids (h # ids) (f # flags) = (if f then insert h (admitted_ids ids flags) else admitted_ids ids flags)"
  by (simp add: admitted_ids_def)

lemma admit_each_bound:
  "admit_each P now txs m = (flags, outcome, m') \<Longrightarrow> pooled m' \<subseteq> pooled m \<union> admitted_ids (package_ids P txs) flags"
proof (induction txs arbitrary: m flags)
  case (Cons e txs)
  obtain tx w where e: "e = (tx, w)" by (cases e)
  obtain r m1 where add: "add_transaction_with_witness P now tx w m = (r, m1)" by fastforce
  have bound: "pooled m1 \<subseteq> (if r = Ok True then insert (calculate_tx_id P tx) (pooled m) else pooled m)"
    by (rule add_pooled_bound [OF add])
  show ?case
  proof (cases r)
    case (Inr f)
    then obtain fs where fs: "admit_each P now txs m1 = (fs, outcome, m')" "flags = f # fs"
      using Cons.prems by (auto simp: e add split: prod.splits)
    show ?thesis
      using Cons.IH [OF fs(1)] bound Inr by (auto simp: fs(2) e package_ids_def admitted_ids_Cons split: if_splits)
  qed (use Cons.prems bound in \<open>auto simp: e add admitted_ids_def\<close>)
qed (simp add: admitted_ids_def)

text \<open>One admission of such a package: a pooled transaction is refused, another one finds its inputs free.\<close>

lemma member_step:
  assumes "add_transaction_with_witness P now tx w m = (Ok f, m1)" "no_contest P ((tx, w) # txs) m"
  shows "pooled m1 = (if f then insert (calculate_tx_id P tx) (pooled m) else pooled m)"
    "f \<Longrightarrow> calculate_tx_id P tx \<notin> pooled m" "no_contest P txs m1"
proof -
  have step: "pooled m1 = (if f then insert (calculate_tx_id P tx) (pooled m) else pooled m)
      \<and> (f \<longrightarrow> calculate_tx_id P tx \<notin> pooled m)
      \<and> mm_dom (spenders m1) \<subseteq> set (prevouts tx) \<union> mm_dom (spenders m)"
  proof (cases "calculate_tx_id P tx \<in> pooled m")
    case True
    then have "(f, m1) = (False, m)"
      using assms(1) by (simp add: add_transaction_with_witness_def structure_rejects_def pooled_def mm_dom_fst Let_def)
    then show ?thesis by simp
  next
    case False
    then have "\<forall>op \<in> set (prevouts tx). hm_get (spenders m) op = None" using assms(2) by (simp add: no_contest_def)
    from add_without_conflict [OF assms(1) this] show ?thesis by auto
  qed
  then show "pooled m1 = (if f then insert (calculate_tx_id P tx) (pooled m) else pooled m)"
    "f \<Longrightarrow> calculate_tx_id P tx \<notin> pooled m" by blast+
  have "calculate_tx_id P (fst x) \<in> pooled m1 \<or> (\<forall>op \<in> set (prevouts (fst x)). hm_get (spenders m1) op = None)"
    if "x \<in> set txs" for x
  proof (cases "calculate_tx_id P (fst x) \<in> pooled m")
    case False
    then have "\<forall>op \<in> set (prevouts (fst x)). hm_get (spenders m) op = None \<and> op \<notin> set (prevouts tx)"
      using assms(2) that by (auto simp: no_contest_def)
    then have "\<forall>op \<in> set (prevouts (fst x)). op \<notin> mm_dom (spenders m1)" using step by (auto simp: mm_dom_def)
    then show ?thesis by (simp add: mm_dom_def domIff)
  qed (use step in simp)
  then show "no_contest P txs m1" using assms(2) by (simp add: no_contest_def package_ids_def)
qed

lemma admit_each_exact:
  "admit_each P now txs m = (flags, None, m') \<Longrightarrow> no_contest P txs m \<Longrightarrow>
    pooled m' = pooled m \<union> admitted_ids (package_ids P txs) flags
    \<and> admitted_ids (package_ids P txs) flags \<inter> pooled m = {}"
proof (induction txs arbitrary: m flags)
  case (Cons e txs)
  obtain tx w where e: "e = (tx, w)" by (cases e)
  then obtain f m1 fs where add: "add_transaction_with_witness P now tx w m = (Ok f, m1)"
    and fs: "admit_each P now txs m1 = (fs, None, m')" "flags = f # fs"
    using Cons.prems(1) by (auto split: prod.splits sum.splits)
  note A = member_step [OF add Cons.prems(2) [unfolded e]]
  have "calculate_tx_id P tx \<notin> set (package_ids P txs)" using Cons.prems(2) by (simp add: no_contest_def e package_ids_def)
  then have "calculate_tx_id P tx \<notin> admitted_ids (package_ids P txs) fs"
    by (auto simp: in_admitted_ids in_set_conv_nth)
  then show ?case
    using Cons.IH [OF fs(1) A(3)] A(1,2) by (auto simp: fs(2) e package_ids_def admitted_ids_Cons split: if_splits)
qed (simp add: admitted_ids_def)

lemma admit_package_result:
  assumes "admit_package P now txs m = (Ok flags, m')"
  shows "flags_match (package_ids P txs) (pooled m) (no_contest P txs m) (flags, m')"
    and "\<forall>i < length txs. flags ! i \<longrightarrow> \<not> parent_missing (package_ids P txs) flags
      (filter (\<lambda>h. h \<in> set (package_ids P txs)) (map op_hash (prevouts (fst (txs ! i)))))"
proof -
  let ?ids = "package_ids P txs"
  let ?spends = "map (\<lambda>(tx, w). filter (\<lambda>h. h \<in> set ?ids) (map op_hash (prevouts tx))) txs"
  obtain f0 outcome m1 where a: "admit_each P now txs m = (f0, outcome, m1)" by (metis prod.exhaust)
  let ?s = "drop_unpaid ?ids (admitted_ids ?ids f0) (hs_extend (relay_floor_waivers m) (ephemeral_dust_waivers m))
    (zip ?ids (map (package_descendants P txs) [0..<length txs])) (f0, clear_waivers m1)"
  have o: "outcome = None" and result: "(flags, m') = orphan_loop ?ids ?spends ?s"
    using assms by (auto simp: admit_package_def Let_def a case_prod_unfold split: option.splits)
  have len: "length f0 = length ?ids" using length_admit_each a o by (auto simp: package_ids_def)
  have start: "flags_match ?ids (pooled m) (no_contest P txs m) (f0, clear_waivers m1)"
    using len admit_each_bound [OF a] admit_each_exact [OF a [unfolded o]]
    by (simp add: flags_match_def clear_waivers_def pooled_def no_contest_def)
  then show matched: "flags_match ?ids (pooled m) (no_contest P txs m) (flags, m')"
    unfolding result
    by (intro orphan_loop_match drop_unpaid_match) (auto simp: flags_match_def in_admitted_ids package_ids_def)
  then have "length flags = length txs" by (simp add: flags_match_def package_ids_def)
  moreover have "(i, ?spends ! i) \<in> set (enumerate 0 ?spends)" if "i < length txs" for i
    using that by (simp add: in_set_enumerate_eq)
  moreover have "flags = fst (orphan_loop ?ids ?spends ?s)" unfolding result [symmetric] by simp
  ultimately show "\<forall>i < length txs. flags ! i \<longrightarrow> \<not> parent_missing ?ids flags
      (filter (\<lambda>h. h \<in> set ?ids) (map op_hash (prevouts (fst (txs ! i)))))"
    using orphan_loop_closed [of ?spends ?ids ?s] by (fastforce simp: case_prod_unfold)
qed

lemma parent_flagged:
  assumes "\<not> parent_missing ids flags parents" "p \<in> set parents" "p \<in> set ids"
  shows "p \<in> admitted_ids ids flags"
proof -
  obtain i where i: "list_position p ids = Some i" using assms(3) list_position_None [of p ids] by auto
  with assms(1,2) have "i < length flags" "flags ! i" by (fastforce simp: parent_missing_def list_ex_iff)+
  with list_position_Some [OF i] show ?thesis by (auto simp: in_admitted_ids)
qed

lemma package_cases:
  assumes "add_package_with_witnesses P now txs m = (Ok flags, m')"
  obtains (refused) "flags = replicate (length txs) False" "m' = m"
  | (run) m0 where "admit_package P now txs m0 = (Ok flags, m')" "pooled m0 = pooled m" "spenders m0 = spenders m"
proof (cases "txs = [] \<or> utxo_set_arc m = None")
  case True
  then show thesis
    using assms refused run [of m] by (cases "txs = []") (simp_all add: add_package_with_witnesses_def)
next
  case False
  then have wired: "txs \<noteq> []" "(utxo_set_arc m = None) = False" by simp_all
  show thesis
  proof (cases "package_snapshot txs m")
    case None
    then show thesis using assms wired by (intro refused) (simp_all add: add_package_with_witnesses_def)
  next
    case (Some us)
    then show thesis
      using assms wired
      by (intro run [of "set_waivers P txs (add_package_outputs P txs us) m"])
        (simp_all add: add_package_with_witnesses_def set_waivers_def pooled_def)
  qed
qed

text \<open>
  C7. Admitting a package ends and keeps the pool invariant. When it returns flags there is one for every transaction,
  and they tell the truth about the pool: whatever is pooled afterwards was pooled before or is flagged. No transaction is
  flagged while one of the package that it spends is not. When the package spends nothing twice and its new
  transactions nothing a pooled one spends, the flagged transactions are exactly the ones that came into the pool, and
  nothing left it; but then a transaction is also refused whenever a parent in the package was in the pool already.
\<close>

theorem package_result_closed:
  assumes "pool_inv P m" "add_package_with_witnesses P now txs m = (Ok flags, m')"
  shows "pool_inv P m' \<and> length flags = length txs
    \<and> pooled m' \<subseteq> pooled m \<union> admitted_ids (package_ids P txs) flags
    \<and> (\<forall>i < length txs. flags ! i \<longrightarrow>
        (\<forall>op \<in> set (prevouts (fst (txs ! i))). op_hash op \<in> set (package_ids P txs) \<longrightarrow>
           op_hash op \<in> admitted_ids (package_ids P txs) flags))
    \<and> (no_contest P txs m \<longrightarrow> pooled m' = pooled m \<union> admitted_ids (package_ids P txs) flags
        \<and> admitted_ids (package_ids P txs) flags \<inter> pooled m = {}
        \<and> (\<forall>i < length txs. (\<exists>op \<in> set (prevouts (fst (txs ! i))). op_hash op \<in> set (package_ids P txs) \<inter> pooled m)
             \<longrightarrow> \<not> flags ! i))"
proof -
  have inv: "pool_inv P m'" using tables.package_keeps_inv [OF assms(1), of now txs] assms(2) by simp
  show ?thesis
    using assms(2)
  proof (cases rule: package_cases)
    case refused
    then have "admitted_ids ids flags = {}" for ids by (auto simp: in_admitted_ids)
    with inv refused show ?thesis by simp
  next
    case (run m0)
    note R = admit_package_result [OF run(1)]
    have "no_contest P txs m0 = no_contest P txs m" by (simp add: no_contest_def run(2,3))
    with R(1) run(2) have "flags_match (package_ids P txs) (pooled m) (no_contest P txs m) (flags, m')" by simp
    moreover have "op_hash op \<in> admitted_ids (package_ids P txs) flags"
      if "i < length txs" "flags ! i" "op \<in> set (prevouts (fst (txs ! i)))" "op_hash op \<in> set (package_ids P txs)" for i op
    proof (rule parent_flagged)
      show "\<not> parent_missing (package_ids P txs) flags
          (filter (\<lambda>h. h \<in> set (package_ids P txs)) (map op_hash (prevouts (fst (txs ! i)))))"
        using R(2) that(1,2) by blast
    qed (use that in simp_all)
    ultimately show ?thesis using inv by (simp add: flags_match_def package_ids_def) blast
  qed
qed

text \<open>
  A pool without transactions whose UTXO set holds one coin, with any waivers: it admits the parent, and then the child.
\<close>

definition demo_open :: "hash list \<Rightarrow> hash list \<Rightarrow> mempool_manager" where
  "demo_open relay dust = new_mempool
     \<lparr> policy_config := Some (default_policy \<lparr> require_standard := False \<rparr>), utxo_set_arc := Some (False, demo_utxos),
       relay_floor_waivers := relay, ephemeral_dust_waivers := dust \<rparr>"

definition demo_opened :: "hash list \<Rightarrow> hash list \<Rightarrow> mempool_manager" where
  "demo_opened relay dust =
     insert_admitted demo 30 1 (calculate_wtxid demo demo_parent (Some [[]])) demo_parent (Some [[]]) 10000 100 100 (demo_open relay dust)"

lemma demo_open_fields:
  "transactions (demo_open a b) = []" "spenders (demo_open a b) = []" "spent_outputs (demo_open a b) = []"
  "chain_tip (demo_open a b) = None" "storage (demo_open a b) = None" "mgr_rbf_config (demo_open a b) = None"
  "utxo_set_arc (demo_open a b) = Some (False, demo_utxos)" "snapshot_lookup (demo_open a b) = None"
  "policy (demo_open a b) = default_policy \<lparr> require_standard := False \<rparr>"
  "policy_config (demo_open a b) = Some (default_policy \<lparr> require_standard := False \<rparr>)"
  "adjusted_vsize (demo_open a b) = []" "tx_dependencies (demo_open a b) = []" "tx_descendants (demo_open a b) = []"
  "mgr_package_preview (demo_open a b) = empty_preview" "pooled (demo_open a b) = {}"
  by (simp_all add: demo_open_def policy_def pooled_def) (simp add: new_mempool_def with_rbf_config_def)

lemma demo_opened_fields:
  "transactions (demo_opened a b) = [(1, demo_parent)]" "spenders (demo_opened a b) = [(demo_coin, 1)]"
  "spent_outputs (demo_opened a b) = [demo_coin]"
  "chain_tip (demo_opened a b) = None" "storage (demo_opened a b) = None" "mgr_rbf_config (demo_opened a b) = None"
  "utxo_set_arc (demo_opened a b) = Some (False, demo_utxos)" "snapshot_lookup (demo_opened a b) = None"
  "policy_config (demo_opened a b) = Some (default_policy \<lparr> require_standard := False \<rparr>)"
  "policy (demo_opened a b) = default_policy \<lparr> require_standard := False \<rparr>"
  "adjusted_vsize (demo_opened a b) = [(1, 100)]"
  "tx_dependencies (demo_opened a b) = [(1, [])]" "tx_descendants (demo_opened a b) = [(1, [])]"
  "mgr_package_preview (demo_opened a b) = empty_preview"
  by (simp_all add: demo_opened_def policy_def insert_admitted_fields demo_open_fields hs_insert_def demo_coin_def
      hm_entry_default_def)
    (simp add: insert_admitted_def Let_def update_dependency_graph_eq pool_insert_def invalidate_fee_ranking_def
      demo_open_fields)

lemma demo_package_fields:
  "inputs demo_parent = [demo_input demo_coin]" "version demo_parent = 2"
  "outputs demo_parent = [\<lparr> out_value = 90000, script_pubkey = [0, 1] \<rparr>]"
  "inputs demo_child = [demo_input \<lparr> op_hash = 1, op_index = 0 \<rparr>]" "version demo_child = 2"
  "outputs demo_child = [\<lparr> out_value = 80000, script_pubkey = [0, 1] \<rparr>]"
  by (simp_all add: demo_parent_def demo_child_def demo_spend_def)

lemma demo_parent_joins:
  "add_transaction_with_witness demo 30 demo_parent (Some [[]]) (demo_open a b) = (Ok True, demo_opened a b)"
proof -
  let ?m = "demo_open a b" and ?w = "Some [[]]"
  note m = demo_open_fields and tx = demo_package_fields
  have snap: "admission_snapshot ?m demo_parent = Some (demo_utxos, True)"
    by (simp add: admission_snapshot_def demo_utxo fill_snapshot_misses_def m) (simp add: demo_utxos_def)
  have size: "admit_vsize demo ?m demo_parent ?w demo_utxos = (100, 0)"
    by (simp add: admit_vsize_def Let_def transaction_weight_def demo_def div_ceil_def default_policy_def m)
  have fee: "calculate_transaction_fee demo ?m demo_parent demo_utxos = 10000"
    by (rule unat_eqI, subst calculate_transaction_fee_eq [OF demo_money])
      (simp add: Let_def known_value_def input_sats_def money_sats_def as_u64_def demo_utxo tx)
  have "\<not> structure_rejects demo ?m demo_parent ?w"
    by (simp add: structure_rejects_def tx m max_mempool_bytes_of_def default_policy_def
      accounted_tx_bytes_def saturating_mul_def saturating_add_def demo_api)
  moreover have "\<not> standardness_rejects demo (policy ?m) demo_parent ?w"
    by (simp add: standardness_rejects_def default_policy_def m)
  moreover have "\<not> chain_rejects demo ?m demo_parent demo_utxos True"
    by (simp add: chain_rejects_def finality_context_def relative_lock_rejects_def tx m demo_utxo
      immature_coinbase_spend_def unknown_prevout_def prevout_value_out_of_range_def
      prevout_sum_exceeds_money_def outputs_exceed_inputs_def output_is_dust_def money_sats_def demo_api
      saturating_mul_def as_i64_def as_u64_def add_money_def checked_add_def output_sum_sats_def input_sats_def)
  moreover have "\<not> spend_rejects demo ?m (policy ?m) demo_parent ?w demo_utxos"
    by (simp add: spend_rejects_def Let_def size default_policy_def m
      consensus_checks_reject_def tx demo_api split: option.split)
  moreover have "fee_gate demo ?m (policy ?m) demo_parent demo_utxos True 100 = Some (10000, 100)"
    by (simp add: fee_gate_def fee Let_def default_policy_def relay_price_def m div_ceil_def saturating_mul_def)
  moreover have "resolve_conflicts demo 30 ?m (policy ?m) demo_parent ?w demo_utxos 100 = (Ok True, ?m)"
    by (simp add: resolve_conflicts_def direct_conflicts_def displacement_set_def Let_def m)
  moreover have "check_ancestor_descendant_limits ?m demo_parent (policy ?m) 100"
    by (simp add: check_ancestor_descendant_limits_def txs_this_replacement_removes_def packages_of_def direct_conflicts_def
        Let_def limit_ancestors_def limit_seeds_def m limit_known_def empty_preview_def default_policy_def walk_mark.simps
        hs_extend_def not_less not_le)
  ultimately show ?thesis
    by (simp add: add_transaction_with_witness_def Let_def size snap tx demo_opened_def)
qed

lemma demo_child_joins:
  "\<exists>m'. add_transaction_with_witness demo 30 demo_child (Some [[]]) (demo_opened a b) = (Ok True, m')"
proof -
  let ?m = "demo_opened a b" and ?w = "Some [[]]"
  note m = demo_opened_fields and tx = demo_package_fields
  have out: "pooled_output ?m \<lparr> op_hash = 1, op_index = 0 \<rparr> = Some \<lparr> out_value = 90000, script_pubkey = [0, 1] \<rparr>"
    by (simp add: pooled_output_def list_get_def m tx)
  have none: "hm_get demo_utxos \<lparr> op_hash = 1, op_index = 0 \<rparr> = None" by (simp add: demo_utxos_def demo_coin_def)
  have snap: "admission_snapshot ?m demo_child = Some ([], True)"
    by (simp add: admission_snapshot_def fill_snapshot_misses_def mempool_creates_def out none m)
  have size: "admit_vsize demo ?m demo_child ?w [] = (100, 0)"
    by (simp add: admit_vsize_def Let_def transaction_weight_def demo_def div_ceil_def default_policy_def m)
  have fee: "calculate_transaction_fee demo ?m demo_child [] = 10000"
    by (rule unat_eqI, subst calculate_transaction_fee_eq [OF demo_money])
      (simp add: Let_def known_value_def input_sats_def mempool_input_value_def out money_sats_def as_u64_def tx)
  have "\<not> structure_rejects demo ?m demo_child ?w"
    by (simp add: structure_rejects_def tx m max_mempool_bytes_of_def default_policy_def
      accounted_tx_bytes_def saturating_mul_def saturating_add_def demo_api)
  moreover have "\<not> standardness_rejects demo (policy ?m) demo_child ?w"
    by (simp add: standardness_rejects_def default_policy_def m)
  moreover have "\<not> chain_rejects demo ?m demo_child [] True"
    by (simp add: chain_rejects_def finality_context_def relative_lock_rejects_def tx m mempool_creates_def out
      mempool_input_value_def
      immature_coinbase_spend_def unknown_prevout_def prevout_value_out_of_range_def
      prevout_sum_exceeds_money_def outputs_exceed_inputs_def output_is_dust_def money_sats_def demo_api
      saturating_mul_def as_i64_def as_u64_def add_money_def checked_add_def output_sum_sats_def input_sats_def)
  moreover have "\<not> spend_rejects demo ?m (policy ?m) demo_child ?w []"
    by (simp add: spend_rejects_def Let_def size default_policy_def m
      consensus_checks_reject_def tx demo_api split: option.split)
  moreover have "fee_gate demo ?m (policy ?m) demo_child [] True 100 = Some (10000, 100)"
    by (simp add: fee_gate_def fee Let_def default_policy_def relay_price_def m div_ceil_def saturating_mul_def)
  moreover have "resolve_conflicts demo 30 ?m (policy ?m) demo_child ?w [] 100 = (Ok True, ?m)"
    by (simp add: resolve_conflicts_def direct_conflicts_def displacement_set_def Let_def m demo_coin_def)
  moreover have "check_ancestor_descendant_limits ?m demo_child (policy ?m) 100"
  proof -
    have parents: "limit_parents ?m [] 1 = []" by (simp add: limit_parents_def limit_known_def m empty_preview_def demo_coin_def)
    have "limit_ancestors ?m [] demo_child = [1]"
      by (simp add: limit_ancestors_def limit_seeds_def limit_known_def m hs_extend_def hs_insert_def walk_mark.simps parents)
    moreover have "limit_descendants ?m [] 1 = []"
      by (simp add: limit_descendants_def descendant_closure_def m empty_preview_def walk_push.simps hm_get_or_def hs_extend_def)
    moreover have "txs_this_replacement_removes ?m demo_child = []"
      by (simp add: txs_this_replacement_removes_def packages_of_def direct_conflicts_def m demo_coin_def)
    ultimately show ?thesis
      by (simp add: check_ancestor_descendant_limits_def limit_vsize_def m default_policy_def)
  qed
  ultimately show ?thesis
    by (simp add: add_transaction_with_witness_def Let_def size snap tx)
qed

lemma package_descendants_members: "set (package_descendants P txs i) \<subseteq> set (package_ids P txs)"
proof
  fix h assume h: "h \<in> set (package_descendants P txs i)"
  then have i: "i < length txs" and "(calculate_tx_id P (fst (txs ! i)), h) \<in> (package_edges P txs)\<^sup>*"
    by (auto simp: package_descendants_spec split: if_splits)
  from this(2) show "h \<in> set (package_ids P txs)"
  proof (cases rule: rtranclE)
    case base
    with i show ?thesis by (auto simp: package_ids_def case_prod_unfold)
  qed (force simp: package_edges_def package_ids_def)
qed

lemma drop_unpaid_all_admitted:
  assumes "\<forall>(h, closure) \<in> set closures. set closure \<subseteq> admitted"
  shows "drop_unpaid ids admitted waived closures s = s"
  unfolding drop_unpaid_def using assms by (induction closures arbitrary: s) (auto simp: list_ex_iff)

lemma demo_package_flags:
  "fst (add_package_with_witnesses demo 30 [(demo_parent, Some [[]]), (demo_child, Some [[]])] (demo_open [] [])) = Ok [True, True]"
proof -
  let ?txs = "[(demo_parent, Some [[]]), (demo_child, Some [[]])]"
  obtain us where us: "package_snapshot ?txs (demo_open [] []) = Some us" by (simp add: package_snapshot_def demo_open_fields)
  obtain a b where ab: "set_waivers demo ?txs (add_package_outputs demo ?txs us) (demo_open [] []) = demo_open a b"
    by (simp add: set_waivers_def demo_open_def)
  obtain m2 where each: "admit_each demo 30 ?txs (demo_open a b) = ([True, True], None, m2)"
    using demo_child_joins [of a b] by (auto simp: demo_parent_joins)
  have ids: "package_ids demo ?txs = [1, 2]" by (simp add: package_ids_def)
  have all: "admitted_ids [1, 2] [True, True] = {1, 2}" by (simp add: admitted_ids_def)
  have drop: "drop_unpaid [1, 2] {1, 2} waived (zip [1, 2] (map (package_descendants demo ?txs) [0..<length ?txs])) s = s" for waived s
    using subsetD [OF package_descendants_members [of demo ?txs]]
    by (intro drop_unpaid_all_admitted) (fastforce simp: ids set_zip)
  have loop: "fst (orphan_loop [1, 2] [[], [1]] ([True, True], m)) = [True, True]" for m
    by (subst orphan_loop.simps) (simp add: orphan_pass_def drop_orphan_def parent_missing_def Let_def)
  have "fst (admit_package demo 30 ?txs (demo_open a b)) = Ok [True, True]"
    unfolding admit_package_def Let_def each ids prod.case all
    using drop loop by (simp add: case_prod_unfold demo_coin_def)
  then show ?thesis by (simp add: add_package_with_witnesses_def us ab) (simp add: demo_open_fields)
qed

theorem package_result_closed_witness:
  "let r = add_package_with_witnesses demo 30 [(demo_parent, Some [[]]), (demo_child, Some [[]])] (demo_open [] [])
   in fst r = Ok [True, True] \<and> pool_inv demo (snd r) \<and> pooled (snd r) = {1, 2}"
proof -
  let ?txs = "[(demo_parent, Some [[]]), (demo_child, Some [[]])]"
  let ?r = "add_package_with_witnesses demo 30 ?txs (demo_open [] [])"
  have r: "?r = (Ok [True, True], snd ?r)" using demo_package_flags by (metis prod.collapse)
  have new: "pool_inv demo new_mempool" using new_pool_inv [of demo None] by (simp add: new_mempool_def)
  have inv: "pool_inv demo (demo_open [] [])"
    by (rule tables.inv_core [OF new]) (simp add: demo_open_def same_core_def)
  have "no_contest demo ?txs (demo_open [] [])"
    by (simp add: no_contest_def package_ids_def demo_open_fields demo_coin_def)
  moreover have "admitted_ids (package_ids demo ?txs) [True, True] = {1, 2}"
    by (simp add: admitted_ids_def package_ids_def insert_commute)
  ultimately show ?thesis
    using package_result_closed [OF inv r] demo_package_flags by (simp add: demo_open_fields Let_def)
qed

end
