(* ===== verification/Mempool_Fees.thy ===== *)
theory Mempool_Fees
  imports Mempool_Rbf
begin

text \<open>
  The fee ranking: the fingerprint of the UTXO set that decides whether the ranking is stale,
  the rebuild of the fee index, cache and basis from the pooled transactions, and the reads
  that go through it (the prioritised transactions for a block template, the pooled fee rates).
\<close>


section \<open>Definitions\<close>

unbundle bit_operations_syntax

text \<open>\<^verbatim>\<open>DefaultHasher\<close> over one entry is the parameter \<open>outpoint_value_hash\<close>.\<close>

definition calculate_utxo_set_hash :: "'a protocol_scheme \<Rightarrow> utxo_set \<Rightarrow> u64" where
  "calculate_utxo_set_hash P us =
     foldl (\<lambda>acc (op, u). acc XOR outpoint_value_hash P op (utxo_value u)) (of_nat (length us)) us"

text \<open>One step of the batched prevout lookup: the chain's coin first, then a pooled parent's output.\<close>

definition cache_prevout ::
  "'a tx_api_scheme \<Rightarrow> utxo_set \<Rightarrow> (hash, transaction) hmap \<Rightarrow> (outpoint, u64) hmap \<Rightarrow> outpoint
    \<Rightarrow> (outpoint, u64) hmap" where
  "cache_prevout P us parents cache op =
     (case hm_get us op of
        Some u \<Rightarrow> (case money_sats P (utxo_value u) of
                    Some sats \<Rightarrow> hm_insert op sats cache | None \<Rightarrow> cache)
      | None \<Rightarrow>
          (case hm_get parents (op_hash op) of
             None \<Rightarrow> cache
           | Some parent \<Rightarrow>
               (case list_get (outputs parent) (unat (op_index op)) of
                  None \<Rightarrow> cache
                | Some out \<Rightarrow>
                    (case money_sats P (out_value out) of
                       Some sats \<Rightarrow> hm_insert op sats cache | None \<Rightarrow> cache))))"

definition prevout_cache ::
  "'a tx_api_scheme \<Rightarrow> utxo_set \<Rightarrow> (hash, transaction) hmap \<Rightarrow> (outpoint, u64) hmap" where
  "prevout_cache P us snapshot =
     foldl (cache_prevout P us snapshot) [] (concat (map (\<lambda>(h, tx). prevouts tx) snapshot))"

text \<open>The input loop of the rebuild, with the two ways it stops early.\<close>

datatype input_total = FeeUnknown | OutsideMoney | InputTotal u64

fun ranked_input_total ::
  "'a tx_api_scheme \<Rightarrow> (outpoint, u64) hmap \<Rightarrow> u64 \<Rightarrow> outpoint list \<Rightarrow> input_total" where
  "ranked_input_total P cache acc [] = InputTotal acc"
| "ranked_input_total P cache acc (op # ops) =
     (case hm_get cache op of
        None \<Rightarrow> FeeUnknown
      | Some value \<Rightarrow>
          (case add_money P acc value of
             Some s \<Rightarrow> ranked_input_total P cache s ops
           | None \<Rightarrow> OutsideMoney))"

definition ranked_fee :: "'a tx_api_scheme \<Rightarrow> (outpoint, u64) hmap \<Rightarrow> transaction \<Rightarrow> u64 option" where
  "ranked_fee P cache tx =
     (case ranked_input_total P cache 0 (prevouts tx) of
        FeeUnknown \<Rightarrow> None
      | OutsideMoney \<Rightarrow> Some 0
      | InputTotal input_total \<Rightarrow>
          (case output_sum_sats P tx of
             Some output_total \<Rightarrow> Some (saturating_sub input_total output_total)
           | None \<Rightarrow> Some 0))"

text \<open>\<^verbatim>\<open>(fee as i64 + delta).max(0) as u64\<close>; the release profile has no overflow checks.\<close>

definition effective_fee :: "u64 \<Rightarrow> int \<Rightarrow> u64" where
  "effective_fee fee delta = as_u64 (max 0 (i64_wrap (as_i64 fee + delta)))"

definition rank_of ::
  "'a protocol_scheme \<Rightarrow> utxo_set \<Rightarrow> (outpoint, u64) hmap \<Rightarrow> mempool_manager \<Rightarrow> hash \<Rightarrow> transaction
    \<Rightarrow> (u64 \<times> u64) option" where
  "rank_of P us cache m h tx =
     map_option (\<lambda>fee. (effective_fee fee (hm_get_or (fee_deltas m) h 0), pooled_vsize P m h tx us))
       (ranked_fee P cache tx)"

definition record_rank :: "hash \<Rightarrow> u64 \<Rightarrow> u64 \<Rightarrow> mempool_manager \<Rightarrow> mempool_manager" where
  "record_rank h fee vsize m =
     (let fee_rate = (if vsize > 0 then fee div vsize else 0)
      in m \<lparr> fee_cache := hm_insert h fee_rate (fee_cache m),
             fee_basis := hm_insert h (fee, vsize) (fee_basis m),
             fee_index := push_fee_index fee_rate h (fee_index m) \<rparr>)"

definition index_transaction ::
  "'a protocol_scheme \<Rightarrow> utxo_set \<Rightarrow> (outpoint, u64) hmap \<Rightarrow> mempool_manager \<Rightarrow> hash \<times> transaction
    \<Rightarrow> mempool_manager" where
  "index_transaction P us cache m e =
     (case rank_of P us cache m (fst e) (snd e) of
        None \<Rightarrow> m
      | Some (fee, vsize) \<Rightarrow> record_rank (fst e) fee vsize m)"

definition update_fee_index :: "'a protocol_scheme \<Rightarrow> utxo_set \<Rightarrow> mempool_manager \<Rightarrow> mempool_manager" where
  "update_fee_index P us m =
     (let current_hash = calculate_utxo_set_hash P us in
      if Some current_hash = utxo_set_hash m then m
      else
        let m1 = m \<lparr> utxo_set_hash := Some current_hash, fee_index := [], fee_cache := [],
                     fee_basis := [] \<rparr>;
            cache = prevout_cache P us (transactions m1)
        in foldl (index_transaction P us cache) m1 (transactions m1))"

text \<open>A \<^verbatim>\<open>BTreeMap<Reverse<u64>, Vec<Hash>>\<close> is read from its highest rate to its lowest.\<close>

definition fee_index_rows :: "mempool_manager \<Rightarrow> (u64 \<times> hash list) list" where
  "fee_index_rows m = sort_key (\<lambda>(rate, hs). - uint rate) (fee_index m)"

fun take_ranked_row :: "nat \<Rightarrow> hash list \<Rightarrow> hash list \<Rightarrow> hash list" where
  "take_ranked_row limit acc [] = acc"
| "take_ranked_row limit acc (h # hs) =
     (let acc' = acc @ [h] in if length acc' \<ge> limit then acc' else take_ranked_row limit acc' hs)"

fun take_ranked :: "nat \<Rightarrow> hash list \<Rightarrow> (u64 \<times> hash list) list \<Rightarrow> hash list" where
  "take_ranked limit acc [] = acc"
| "take_ranked limit acc ((rate, hs) # rows) =
     (let acc' = take_ranked_row limit acc hs
      in if length acc' \<ge> limit then acc' else take_ranked limit acc' rows)"

fun collect_ranked :: "mempool_manager \<Rightarrow> nat \<Rightarrow> transaction list \<Rightarrow> hash list \<Rightarrow> transaction list" where
  "collect_ranked m limit result [] = result"
| "collect_ranked m limit result (h # hs) =
     (case hm_get (transactions m) h of
        None \<Rightarrow> collect_ranked m limit result hs
      | Some tx \<Rightarrow>
          let result' = result @ [tx]
          in if length result' \<ge> limit then result' else collect_ranked m limit result' hs)"

definition get_prioritized_transactions ::
  "'a protocol_scheme \<Rightarrow> nat \<Rightarrow> utxo_set \<Rightarrow> mempool_manager \<Rightarrow> transaction list \<times> mempool_manager" where
  "get_prioritized_transactions P limit us m =
     (let m1 = update_fee_index P us m;
          ordered_hashes = take_ranked limit [] (fee_index_rows m1)
      in (collect_ranked m1 limit [] ordered_hashes, m1))"

definition fee_rates_sat_vb ::
  "'a protocol_scheme \<Rightarrow> utxo_set \<Rightarrow> mempool_manager \<Rightarrow> u64 list \<times> mempool_manager" where
  "fee_rates_sat_vb P us m =
     (let m1 = update_fee_index P us m in (map snd (fee_cache m1), m1))"

definition fee_rates_for_storage ::
  "'a protocol_scheme \<Rightarrow> storage_reads option \<Rightarrow> mempool_manager \<Rightarrow> u64 list \<times> mempool_manager" where
  "fee_rates_for_storage P st m =
     (if mempool_size m = 0 then ([], m)
      else
        let us = (case st of
              None \<Rightarrow> []
            | Some s \<Rightarrow>
                foldl (\<lambda>us op. case read_chain_prevout s op of
                    None \<Rightarrow> us | Some u \<Rightarrow> hm_insert op u us)
                  [] (concat (map (\<lambda>(h, tx). prevouts tx) (transactions m))))
        in fee_rates_sat_vb P us m)"


section \<open>The batched lookup is the lookup of the fee calculation\<close>

lemma cache_prevout_eq:
  "cache_prevout P us (transactions m) cache op =
    (case input_sats P m us op of None \<Rightarrow> cache | Some sats \<Rightarrow> hm_insert op sats cache)"
  by (auto simp: cache_prevout_def input_sats_def mempool_input_value_def pooled_output_def
      list_get_def split: option.splits)

lemma get_prevout_cache:
  "hm_get (prevout_cache P us (transactions m)) op =
    (if \<exists>(h, tx) \<in> set (transactions m). op \<in> set (prevouts tx) then input_sats P m us op else None)"
  by (auto simp: prevout_cache_def cache_prevout_eq [abs_def] get_insert_fold split: option.splits)

text \<open>What the rebuild ranks a transaction by, read off the pool directly.\<close>

lemma ranked_input_total_eq:
  assumes "\<forall>op \<in> set ops. hm_get cache op = input_sats P m us op \<and> input_sats P m us op \<noteq> None"
  shows "ranked_input_total P cache acc ops =
    (case fee_input_sum P m us acc ops of None \<Rightarrow> OutsideMoney | Some s \<Rightarrow> InputTotal s)"
  using assms
  by (induction ops arbitrary: acc) (auto split: option.split)

lemma ranked_fee_eq:
  assumes "(h, tx) \<in> set (transactions m)" "\<forall>op \<in> set (prevouts tx). input_sats P m us op \<noteq> None"
  shows "ranked_fee P (prevout_cache P us (transactions m)) tx = Some (calculate_transaction_fee P m tx us)"
proof -
  let ?c = "prevout_cache P us (transactions m)"
  have "ranked_input_total P ?c 0 (prevouts tx) =
    (case fee_input_sum P m us 0 (prevouts tx) of None \<Rightarrow> OutsideMoney | Some s \<Rightarrow> InputTotal s)"
    using assms by (intro ranked_input_total_eq) (auto simp: get_prevout_cache)
  then show ?thesis
    by (simp add: ranked_fee_def calculate_transaction_fee_def split: option.split)
qed

lemma ranked_input_total_unknown:
  assumes "money_range P" "\<forall>op \<in> set ops. hm_get cache op = input_sats P m us op"
    and "\<exists>op \<in> set ops. input_sats P m us op = None"
    and "unat acc + (\<Sum>op\<leftarrow>ops. known_value P m us op) \<le> nat (MAX_MONEY P)"
  shows "ranked_input_total P cache acc ops = FeeUnknown"
  using assms(2-)
proof (induction ops arbitrary: acc)
  case (Cons op ops)
  show ?case
  proof (cases "input_sats P m us op")
    case (Some sats)
    moreover have bound: "unat acc + unat sats + (\<Sum>op\<leftarrow>ops. known_value P m us op) \<le> nat (MAX_MONEY P)"
      using Cons.prems(3) Some by (simp add: known_value_def)
    moreover obtain s where s: "add_money P acc sats = Some s" "unat s = unat acc + unat sats"
      using bound add_money_None_iff [OF assms(1), of acc sats] add_money_Some_iff [OF assms(1), of acc sats]
      by (cases "add_money P acc sats") auto
    moreover have "ranked_input_total P cache s ops = FeeUnknown"
      by (rule Cons.IH) (use Cons.prems Some bound s in auto)
    ultimately show ?thesis using Cons.prems(1) by simp
  qed (use Cons.prems in simp)
qed simp

lemma ranked_fee_unknown:
  assumes "money_range P" "(h, tx) \<in> set (transactions m)" "\<exists>op \<in> set (prevouts tx). input_sats P m us op = None"
    and "(\<Sum>op\<leftarrow>prevouts tx. known_value P m us op) \<le> nat (MAX_MONEY P)"
  shows "ranked_fee P (prevout_cache P us (transactions m)) tx = None"
proof -
  have "ranked_input_total P (prevout_cache P us (transactions m)) 0 (prevouts tx) = FeeUnknown"
    by (rule ranked_input_total_unknown [OF assms(1)]) (use assms(2-) in \<open>auto simp: get_prevout_cache\<close>)
  then show ?thesis by (simp add: ranked_fee_def)
qed


section \<open>The rebuild\<close>

lemma record_rank_fields [simp]:
  fixes h fee vsize m
  defines "m' \<equiv> record_rank h fee vsize m"
  shows "transactions m' = transactions m" "adjusted_vsize m' = adjusted_vsize m"
    "tx_witnesses m' = tx_witnesses m" "fee_deltas m' = fee_deltas m" "policy_config m' = policy_config m"
    "pooled m' = pooled m" "hm_get (fee_basis m') g = (if g = h then Some (fee, vsize) else hm_get (fee_basis m) g)"
    "hm_get (fee_cache m') g =
       (if g = h then Some (if vsize > 0 then fee div vsize else 0) else hm_get (fee_cache m) g)"
  by (simp_all add: m'_def record_rank_def pooled_def Let_def update_conv')

lemma rank_of_cong:
  assumes "transactions m' = transactions m" "adjusted_vsize m' = adjusted_vsize m"
    "tx_witnesses m' = tx_witnesses m" "fee_deltas m' = fee_deltas m" "policy_config m' = policy_config m"
  shows "rank_of P us cache m' h tx = rank_of P us cache m h tx"
proof -
  have "sigop_coin m' = sigop_coin m"
    by (simp add: fun_eq_iff sigop_coin_def pooled_output_def assms split: option.split)
  then have "admit_vsize P m' = admit_vsize P m"
    by (intro ext) (simp add: admit_vsize_def assms)
  then have "pooled_vsize P m' h tx us = pooled_vsize P m h tx us"
    by (simp add: pooled_vsize_def assms split: option.split)
  then show ?thesis by (simp add: rank_of_def assms)
qed

lemma fee_inv_record:
  assumes "fee_inv m" "h \<in> pooled m" "hm_get (fee_cache m) h = None"
  shows "fee_inv (record_rank h fee vsize m)"
proof -
  note I = fee_invD [OF assms(1)]
  let ?r = "if vsize > 0 then fee div vsize else 0"
  have no: "h \<notin> mm_set (fee_index m) r" for r using I(1) [of h r] assms(3) by simp
  have ix: "fee_index (record_rank h fee vsize m) = push_fee_index ?r h (fee_index m)"
    by (simp add: record_rank_def Let_def)
  show ?thesis
    unfolding fee_inv_def ix
  proof (intro conjI allI)
    fix g r
    show "hm_get (fee_cache (record_rank h fee vsize m)) g = Some r
        \<longleftrightarrow> g \<in> mm_set (push_fee_index ?r h (fee_index m)) r"
      using I(1) [of g r] no by (cases "g = h") (auto simp del: if_split)
  next
    fix r
    show "distinct (hm_get_or (push_fee_index ?r h (fee_index m)) r [])"
      using I(3) [of r] I(3) [of ?r] no [of ?r] by (simp add: mm_set_def)
  next
    show "mm_dom (fee_basis (record_rank h fee vsize m)) = mm_dom (fee_cache (record_rank h fee vsize m))"
      using I(5) by (simp add: record_rank_def Let_def)
    show "mm_dom (fee_cache (record_rank h fee vsize m)) \<subseteq> pooled (record_rank h fee vsize m)"
      using I(6) assms(2) by (simp add: record_rank_def Let_def pooled_def)
  qed (use I(2,4) in auto)
qed

text \<open>The fields the rebuild leaves alone.\<close>

definition same_pool :: "mempool_manager \<Rightarrow> mempool_manager \<Rightarrow> bool" where
  "same_pool m m' \<longleftrightarrow>
     m' = m \<lparr> fee_index := fee_index m', fee_cache := fee_cache m', fee_basis := fee_basis m',
              utxo_set_hash := utxo_set_hash m' \<rparr>"

lemma same_pool_refl [simp]: "same_pool m m"
  by (simp add: same_pool_def)

lemma same_pool_trans: "same_pool m m' \<Longrightarrow> same_pool m' m'' \<Longrightarrow> same_pool m m''"
  by (cases m, cases m', cases m'') (simp add: same_pool_def)

lemma same_pool_fields:
  assumes "same_pool m m'"
  shows "transactions m' = transactions m" "adjusted_vsize m' = adjusted_vsize m"
    "tx_witnesses m' = tx_witnesses m" "fee_deltas m' = fee_deltas m" "policy_config m' = policy_config m"
    "pooled m' = pooled m" "spend_inv P m' = spend_inv P m" "table_inv m' = table_inv m"
    "graph_inv m' = graph_inv m"
  using assms by (cases m, cases m',
      simp add: same_pool_def pooled_def spend_inv_def table_inv_def graph_inv_def)+

lemma index_transaction_step:
  fixes P us cache tx
  assumes "fee_inv m" "h \<in> pooled m" "hm_get (fee_cache m) h = None"
  defines "m' \<equiv> index_transaction P us cache m (h, tx)"
  shows "fee_inv m'" "same_pool m m'"
    "hm_get (fee_basis m') g =
       (if g = h \<and> rank_of P us cache m h tx \<noteq> None then rank_of P us cache m h tx
        else hm_get (fee_basis m) g)"
    "g \<noteq> h \<Longrightarrow> hm_get (fee_cache m') g = hm_get (fee_cache m) g"
  using assms fee_inv_record [OF assms(1-3)]
  by (auto simp: index_transaction_def same_pool_def record_rank_def Let_def update_conv' split: option.splits)

lemma index_fold:
  assumes "fee_inv m" "fst ` set es \<subseteq> pooled m" "distinct (map fst es)"
    "\<forall>h \<in> fst ` set es. hm_get (fee_cache m) h = None \<and> hm_get (fee_basis m) h = None"
  shows "let m' = foldl (index_transaction P us cache) m es in fee_inv m' \<and> same_pool m m'
    \<and> (\<forall>h. hm_get (fee_basis m') h =
          (case map_of es h of None \<Rightarrow> hm_get (fee_basis m) h | Some tx \<Rightarrow> rank_of P us cache m h tx))"
  using assms
proof (induction es arbitrary: m)
  case Nil
  then show ?case by simp
next
  case (Cons e es)
  obtain h tx where e: "e = (h, tx)" by (cases e)
  let ?m = "index_transaction P us cache m (h, tx)"
  note S = index_transaction_step [where m = m and h = h and P = P and us = us and cache = cache and tx = tx]
  have pre: "fee_inv m" "h \<in> pooled m" "hm_get (fee_cache m) h = None" "hm_get (fee_basis m) h = None"
    using Cons.prems e by auto
  note F = same_pool_fields [OF S(2) [OF pre(1-3)]]
  have r: "rank_of P us cache ?m g t = rank_of P us cache m g t" for g t
    by (rule rank_of_cong) (use F in auto)
  have new: "h \<notin> fst ` set es" using Cons.prems(3) e by auto
  have "let m' = foldl (index_transaction P us cache) ?m es in fee_inv m' \<and> same_pool ?m m'
    \<and> (\<forall>h. hm_get (fee_basis m') h =
          (case map_of es h of None \<Rightarrow> hm_get (fee_basis ?m) h | Some tx \<Rightarrow> rank_of P us cache ?m h tx))"
  proof (rule Cons.IH)
    show "\<forall>g \<in> fst ` set es. hm_get (fee_cache ?m) g = None \<and> hm_get (fee_basis ?m) g = None"
    proof
      fix g assume g: "g \<in> fst ` set es"
      with new have "g \<noteq> h" by blast
      moreover have "hm_get (fee_cache m) g = None \<and> hm_get (fee_basis m) g = None"
        using g Cons.prems(4) by auto
      ultimately show "hm_get (fee_cache ?m) g = None \<and> hm_get (fee_basis ?m) g = None"
        using S(3) [OF pre(1-3), of g] S(4) [OF pre(1-3), of g] by simp
    qed
  qed (use S(1) [OF pre(1-3)] F Cons.prems e in auto)
  moreover have "map_of es h = None" using new by (simp add: map_of_eq_None_iff)
  ultimately show ?case
    using S(3) [OF pre(1-3)] pre(4) same_pool_trans [OF S(2) [OF pre(1-3)]] e
    by (cases "rank_of P us cache m h tx") (auto simp: Let_def r split: option.splits)
qed

lemma update_fee_index_spec:
  fixes us
  assumes "pool_inv P m"
  defines "m' \<equiv> update_fee_index P us m"
  shows "pool_inv P m' \<and> same_pool m m' \<and> utxo_set_hash m' = Some (calculate_utxo_set_hash P us)"
    and "utxo_set_hash m \<noteq> Some (calculate_utxo_set_hash P us) \<Longrightarrow> hm_get (fee_basis m') h =
      Option.bind (hm_get (transactions m) h)
        (rank_of P us (prevout_cache P us (transactions m)) m h)"
proof -
  let ?H = "calculate_utxo_set_hash P us" and ?c = "prevout_cache P us (transactions m)"
  let ?m = "m \<lparr> utxo_set_hash := Some ?H, fee_index := [], fee_cache := [], fee_basis := [] \<rparr>"
  have I: "spend_inv P m" "table_inv m" "graph_inv m" using assms(1) by (simp_all add: pool_inv_def)
  have fi: "fee_inv ?m" by (simp add: fee_inv_def hm_get_or_def)
  have sp: "same_pool m ?m" by (simp add: same_pool_def)
  have "distinct (map fst (transactions m))" using I(1) by (simp add: spend_inv_def hm_wf_def)
  then have F: "let m' = foldl (index_transaction P us ?c) ?m (transactions m) in
      fee_inv m' \<and> same_pool ?m m' \<and> (\<forall>h. hm_get (fee_basis m') h =
        (case hm_get (transactions m) h of None \<Rightarrow> None | Some tx \<Rightarrow> rank_of P us ?c ?m h tx))"
    using index_fold [OF fi, of "transactions m" P us ?c] by (simp add: pooled_def mm_dom_fst cong: option.case_cong)
  have r: "rank_of P us ?c ?m = rank_of P us ?c m" by (intro ext rank_of_cong) simp_all
  have unfold: "m' = (if Some ?H = utxo_set_hash m then m else foldl (index_transaction P us ?c) ?m (transactions m))"
    by (simp add: m'_def update_fee_index_def Let_def)
  have "utxo_set_hash (foldl (index_transaction P us ?c) n es) = utxo_set_hash n" for n es
    by (induction es arbitrary: n)
      (auto simp: index_transaction_def record_rank_def Let_def split: option.splits)
  then have "utxo_set_hash m' = Some ?H" by (simp add: unfold)
  moreover have "fee_inv m'" "same_pool m m'"
    using F same_pool_trans [OF sp] assms(1) unfolding unfold by (auto simp: Let_def pool_inv_def)
  ultimately show "pool_inv P m' \<and> same_pool m m' \<and> utxo_set_hash m' = Some ?H"
    using I by (simp add: pool_inv_def same_pool_fields)
  show "hm_get (fee_basis m') h = Option.bind (hm_get (transactions m) h) (rank_of P us ?c m h)"
    if "utxo_set_hash m \<noteq> Some ?H"
    using that F unfolding unfold r by (auto simp: Let_def split: option.split)
qed

text \<open>The rate a rebuilt ranking files a transaction under is that of its recorded fee and size.\<close>

definition basis_rate :: "u64 \<times> u64 \<Rightarrow> u64" where
  "basis_rate b = (if snd b > 0 then fst b div snd b else 0)"

lemma index_fold_cache:
  assumes "\<forall>h. hm_get (fee_cache m) h = map_option basis_rate (hm_get (fee_basis m) h)"
  shows "hm_get (fee_cache (foldl (index_transaction P us cache) m es)) h =
    map_option basis_rate (hm_get (fee_basis (foldl (index_transaction P us cache) m es)) h)"
  using assms
  by (induction es arbitrary: m) (simp_all add: index_transaction_def basis_rate_def split: option.split)

lemma update_fee_index_cache:
  assumes "utxo_set_hash m \<noteq> Some (calculate_utxo_set_hash P us)"
  shows "hm_get (fee_cache (update_fee_index P us m)) h =
    map_option basis_rate (hm_get (fee_basis (update_fee_index P us m)) h)"
  using assms by (auto simp: update_fee_index_def Let_def intro!: index_fold_cache)

lemma effective_fee_exact:
  assumes "unat fee < 2 ^ 63" "i64_min \<le> int (unat fee) + delta" "int (unat fee) + delta \<le> i64_max"
  shows "int (unat (effective_fee fee delta)) = max 0 (int (unat fee) + delta)"
  using assms unat_as_u64 [of "max 0 (int (unat fee) + delta)"]
  unfolding effective_fee_def as_i64_id [OF assms(1)]
  by (simp add: i64_wrap_id i64_max_def del: of_nat_unat)

lemma i64_wrap_over: "2 ^ 63 \<le> x \<Longrightarrow> x < 2 ^ 64 \<Longrightarrow> i64_wrap x = x - 2 ^ 64"
proof -
  assume x: "2 ^ 63 \<le> x" "x < 2 ^ 64"
  have "(word_of_int x :: u64) = word_of_int (x - 2 ^ 64)"
    by (simp add: word.abs_eq_iff take_bit_eq_mod)
  then have "i64_wrap x = i64_wrap (x - 2 ^ 64)" by (simp only: i64_wrap_def)
  also have "\<dots> = x - 2 ^ 64" using x by (intro i64_wrap_id) (simp_all add: i64_min_def i64_max_def)
  finally show ?thesis .
qed

text \<open>
  The priority of a transaction saturates but its effective fee does not: once the accumulated
  delta has reached the largest \<^verbatim>\<open>i64\<close>, the sum with any positive fee wraps to a
  negative number and the transaction is ranked as if it paid nothing, although a smaller
  delta ranks it above everything.
\<close>

lemma maximal_priority_wraps:
  assumes "0 < fee" "unat fee < 2 ^ 63"
  shows "effective_fee fee i64_max = 0 \<and> effective_fee fee (i64_max - int (unat fee)) = as_u64 i64_max"
proof -
  have "0 < int (unat fee)" "int (unat fee) < int (2 ^ 63)"
    using assms by (simp_all add: word_less_nat_alt unat_gt_0 del: of_nat_unat)
  then have "i64_wrap (int (unat fee) + i64_max) = int (unat fee) + i64_max - 2 ^ 64"
    by (intro i64_wrap_over) (simp_all add: i64_max_def del: of_nat_unat)
  then have "i64_wrap (int (unat fee) + i64_max) < 0"
    using \<open>int (unat fee) < int (2 ^ 63)\<close> by (simp add: i64_max_def del: of_nat_unat)
  then show ?thesis
    unfolding effective_fee_def as_i64_id [OF assms(2)]
    by (simp add: i64_wrap_id i64_max_def i64_min_def as_u64_def del: of_nat_unat)
qed

lemma maximal_priority_wraps_witness: "effective_fee 1 i64_max = 0"
  using maximal_priority_wraps [of 1] by simp



section \<open>The prioritised transactions\<close>

lemma take_ranked_row_eq:
  "length acc < max 1 limit \<Longrightarrow> take_ranked_row limit acc hs = take (max 1 limit) (acc @ hs)"
proof (induction hs arbitrary: acc)
  case (Cons h hs)
  show ?case
  proof (cases "length (acc @ [h]) \<ge> limit")
    case True
    with Cons.prems have "max 1 limit = length (acc @ [h])" by auto
    then show ?thesis using True by (simp add: Let_def)
  next
    case False
    with Cons.IH [of "acc @ [h]"] show ?thesis by (simp add: Let_def)
  qed
qed simp

lemma take_ranked_eq:
  "length acc < max 1 limit \<Longrightarrow> \<forall>(r, hs) \<in> set rows. hs \<noteq> [] \<Longrightarrow>
    take_ranked limit acc rows = take (max 1 limit) (acc @ concat (map snd rows))"
proof (induction rows arbitrary: acc)
  case (Cons row rows)
  obtain r hs where row: "row = (r, hs)" by (cases row)
  let ?acc = "take (max 1 limit) (acc @ hs)"
  have "hs \<noteq> []" using Cons.prems row by auto
  then have full: "length ?acc \<ge> limit \<longleftrightarrow> max 1 limit \<le> length (acc @ hs)"
    by (cases hs) auto
  show ?case
  proof (cases "length ?acc \<ge> limit")
    case True
    with full have "max 1 limit \<le> length (acc @ hs)" by blast
    then have "take (max 1 limit) (acc @ hs @ xs) = ?acc" for xs by simp
    with True show ?thesis using row take_ranked_row_eq [OF Cons.prems(1)] by (simp only: take_ranked.simps
      Let_def if_True list.map snd_conv concat.simps)
  next
    case False
    with full have "?acc = acc @ hs" "length (acc @ hs) < max 1 limit" by auto
    with False Cons.IH [of "acc @ hs"] Cons.prems show ?thesis
      by (simp add: row take_ranked_row_eq Let_def)
  qed
qed simp

lemma collect_ranked_eq:
  assumes "\<forall>h \<in> set hs. hm_get (transactions m) h \<noteq> None"
  shows "length result + length hs \<le> max 1 limit \<Longrightarrow>
    collect_ranked m limit result hs = result @ map (\<lambda>h. the (hm_get (transactions m) h)) hs"
  using assms
proof (induction hs arbitrary: result)
  case (Cons h hs)
  then obtain tx where tx: "hm_get (transactions m) h = Some tx" by auto
  show ?case
  proof (cases "length (result @ [tx]) \<ge> limit")
    case True
    with Cons.prems(1) have "hs = []" by (cases hs) auto
    with tx show ?thesis by (simp add: Let_def)
  next
    case False
    with Cons.IH [of "result @ [tx]"] Cons.prems tx show ?thesis by (simp add: Let_def)
  qed
qed simp

text \<open>The ranked hashes, best rate first.\<close>

definition ranked_hashes :: "mempool_manager \<Rightarrow> hash list" where
  "ranked_hashes m = concat (map snd (fee_index_rows m))"

lemma fee_index_row:
  assumes "fee_inv m" "(r, hs) \<in> set (fee_index_rows m)"
  shows "hs \<noteq> []" "distinct hs" "\<forall>h \<in> set hs. hm_get (fee_cache m) h = Some r"
proof -
  have "hm_get (fee_index m) r = Some hs"
    using assms fee_invD(4) [OF assms(1)] by (simp add: fee_index_rows_def hm_wf_def)
  then show "hs \<noteq> []" "distinct hs" "\<forall>h \<in> set hs. hm_get (fee_cache m) h = Some r"
    using fee_invD(1) [OF assms(1)] fee_invD(2) [OF assms(1), of r] fee_invD(3) [OF assms(1), of r]
    by (auto simp: mm_set_def hm_get_or_def)
qed

lemma rows_concat:
  fixes rate :: "hash \<Rightarrow> u64"
  assumes "sorted_wrt (\<lambda>(r, hs) (r', hs'). r' < r) rows"
    "\<forall>(r, hs) \<in> set rows. distinct hs \<and> (\<forall>h \<in> set hs. rate h = r)"
  shows "distinct (concat (map snd rows)) \<and> sorted_wrt (\<lambda>g h. rate h \<le> rate g) (concat (map snd rows))"
  using assms
proof (induction rows)
  case (Cons row rows)
  obtain r hs where row: "row = (r, hs)" by (cases row)
  have less: "rate g < r" if "g \<in> set (concat (map snd rows))" for g
    using that Cons.prems row by fastforce
  have eq: "rate h = r" if "h \<in> set hs" for h using that Cons.prems row by auto
  then have "sorted_wrt (\<lambda>g h. rate h \<le> rate g) hs" by (simp add: sorted_wrt_iff_nth_less)
  moreover have "set hs \<inter> set (concat (map snd rows)) = {}" using less eq by fastforce
  ultimately show ?case
    using Cons less eq row by (auto simp: sorted_wrt_append intro: less_imp_le)
qed simp

lemma fee_index_rows_sorted:
  assumes "hm_wf (fee_index m)"
  shows "sorted_wrt (\<lambda>(r, hs) (r', hs'). r' < r) (fee_index_rows m)"
proof -
  let ?k = "\<lambda>(r :: u64, hs :: hash list). - uint r"
  have "distinct (map fst (fee_index_rows m))"
    using assms by (simp add: fee_index_rows_def hm_wf_def distinct_map)
  then have "distinct (map ?k (fee_index_rows m))"
    by (auto simp: distinct_map inj_on_def word_uint_eq_iff) (metis fst_conv snd_conv word_uint_eq_iff)
  moreover have "sorted (map ?k (fee_index_rows m))" by (simp add: fee_index_rows_def)
  ultimately have "sorted_wrt (<) (map ?k (fee_index_rows m))" by (simp add: strict_sorted_iff)
  then show ?thesis
    by (simp add: sorted_wrt_map case_prod_unfold word_less_def)
qed

lemma ranked_hashes_spec:
  assumes "fee_inv m"
  shows "distinct (ranked_hashes m)" "set (ranked_hashes m) = mm_dom (fee_cache m)"
    "sorted_wrt (\<lambda>g h. hm_get_or (fee_cache m) h 0 \<le> hm_get_or (fee_cache m) g 0) (ranked_hashes m)"
proof -
  have "\<forall>(r, hs) \<in> set (fee_index_rows m). distinct hs \<and> (\<forall>h \<in> set hs. hm_get_or (fee_cache m) h 0 = r)"
    using fee_index_row [OF assms] by (fastforce simp: hm_get_or_def)
  from rows_concat [OF fee_index_rows_sorted [OF fee_invD(4) [OF assms]] this]
  show "distinct (ranked_hashes m)"
    "sorted_wrt (\<lambda>g h. hm_get_or (fee_cache m) h 0 \<le> hm_get_or (fee_cache m) g 0) (ranked_hashes m)"
    by (simp_all add: ranked_hashes_def)
  have "h \<in> set (ranked_hashes m) \<longleftrightarrow> (\<exists>r. hm_get (fee_cache m) h = Some r)" for h
  proof
    assume "\<exists>r. hm_get (fee_cache m) h = Some r"
    then obtain r where "h \<in> mm_set (fee_index m) r" using fee_invD(1) [OF assms] by auto
    then obtain hs where "hm_get (fee_index m) r = Some hs" "h \<in> set hs"
      by (cases "hm_get (fee_index m) r") (auto simp: mm_set_def hm_get_or_def)
    then show "h \<in> set (ranked_hashes m)"
      by (force simp: ranked_hashes_def fee_index_rows_def dest: map_of_SomeD)
  qed (use fee_index_row(3) [OF assms] in \<open>force simp: ranked_hashes_def\<close>)
  then show "set (ranked_hashes m) = mm_dom (fee_cache m)" by (auto simp: mm_dom_iff)
qed

text \<open>
  What the fee calculation for one transaction gives a pooled one: its fee with its priority delta, its pooled size,
  and the rate of the two. Its inputs are all known when the calculation skips none.
\<close>

definition pool_basis :: "'a protocol_scheme \<Rightarrow> mempool_manager \<Rightarrow> utxo_set \<Rightarrow> hash \<Rightarrow> u64 \<times> u64" where
  "pool_basis P m us h =
     (let tx = the (hm_get (transactions m) h)
      in (effective_fee (calculate_transaction_fee P m tx us) (get_fee_delta m h), pooled_vsize P m h tx us))"

definition inputs_known :: "'a protocol_scheme \<Rightarrow> mempool_manager \<Rightarrow> utxo_set \<Rightarrow> hash \<Rightarrow> bool" where
  "inputs_known P m us h \<longleftrightarrow>
     (\<forall>op \<in> set (prevouts (the (hm_get (transactions m) h))). input_sats P m us op \<noteq> None)"

lemma rebuilt_known:
  assumes "pool_inv P m" "utxo_set_hash m \<noteq> Some (calculate_utxo_set_hash P us)"
    and "h \<in> pooled m" "inputs_known P m us h"
  shows "hm_get (fee_basis (update_fee_index P us m)) h = Some (pool_basis P m us h)"
proof -
  obtain tx where tx: "hm_get (transactions m) h = Some tx" using assms(3) by (auto simp: pooled_def mm_dom_iff)
  then have "(h, tx) \<in> set (transactions m)" by (rule map_of_SomeD)
  then show ?thesis
    using update_fee_index_spec(2) [OF assms(1,2), of h] tx ranked_fee_eq [of h tx m P us] assms(4)
    by (simp add: rank_of_def get_fee_delta_def inputs_known_def pool_basis_def)
qed

lemma rebuilt_unknown:
  assumes "pool_inv P m" "utxo_set_hash m \<noteq> Some (calculate_utxo_set_hash P us)"
    and "h \<in> pooled m" "\<not> inputs_known P m us h" "money_range P"
    and "(\<Sum>op\<leftarrow>prevouts (the (hm_get (transactions m) h)). known_value P m us op) \<le> nat (MAX_MONEY P)"
  shows "hm_get (fee_basis (update_fee_index P us m)) h = None"
proof -
  obtain tx where tx: "hm_get (transactions m) h = Some tx" using assms(3) by (auto simp: pooled_def mm_dom_iff)
  then have "(h, tx) \<in> set (transactions m)" by (rule map_of_SomeD)
  then show ?thesis
    using update_fee_index_spec(2) [OF assms(1,2), of h] tx ranked_fee_unknown [OF assms(5), of h tx m us] assms(4,6)
    by (simp add: rank_of_def inputs_known_def)
qed

text \<open>
  C26. A stale ranking is rebuilt from the pool: the pool invariant holds afterwards, nothing but the ranking changes,
  and the batched lookup of all prevouts ranks the pool as the calculation for one transaction does. Every pooled
  transaction whose inputs all have a known value is in the ranking, recorded with the fee of that calculation plus
  its priority delta and its pooled size, and filed under the rate of the two; one with an unknown input is in it
  only if its known inputs exceed the money supply. The ranking lists each transaction once, highest of these rates
  first.
\<close>

theorem update_fee_index_ranks:
  fixes us
  assumes "pool_inv P m" "utxo_set_hash m \<noteq> Some (calculate_utxo_set_hash P us)" "money_range P"
  defines "m' \<equiv> update_fee_index P us m"
  shows "pool_inv P m' \<and> same_pool m m'
    \<and> (\<forall>h \<in> pooled m. inputs_known P m us h \<longrightarrow>
         hm_get (fee_basis m') h = Some (pool_basis P m us h)
         \<and> hm_get (fee_cache m') h = Some (basis_rate (pool_basis P m us h))
         \<and> h \<in> mm_set (fee_index m') (basis_rate (pool_basis P m us h)))
    \<and> (\<forall>h \<in> pooled m. \<not> inputs_known P m us h \<longrightarrow> h \<in> set (ranked_hashes m') \<longrightarrow>
         nat (MAX_MONEY P) < (\<Sum>op\<leftarrow>prevouts (the (hm_get (transactions m) h)). known_value P m us op))
    \<and> distinct (ranked_hashes m') \<and> {h \<in> pooled m. inputs_known P m us h} \<subseteq> set (ranked_hashes m')
    \<and> set (ranked_hashes m') \<subseteq> pooled m
    \<and> sorted_wrt (\<lambda>g h. basis_rate (pool_basis P m us h) \<le> basis_rate (pool_basis P m us g))
        (filter (inputs_known P m us) (ranked_hashes m'))"
proof -
  have U: "pool_inv P m'" "same_pool m m'" using update_fee_index_spec(1) [OF assms(1)] by (simp_all add: m'_def)
  then have fi: "fee_inv m'" by (simp add: pool_inv_def)
  note R = ranked_hashes_spec [OF fi]
  have cache: "hm_get (fee_cache m') h = map_option basis_rate (hm_get (fee_basis m') h)" for h
    using update_fee_index_cache [OF assms(2)] by (simp add: m'_def)
  have known: "hm_get (fee_basis m') h = Some (pool_basis P m us h)" if "h \<in> pooled m" "inputs_known P m us h" for h
    using rebuilt_known [OF assms(1,2) that] by (simp add: m'_def)
  have rate: "hm_get (fee_cache m') h = Some (basis_rate (pool_basis P m us h))"
    if "h \<in> pooled m" "inputs_known P m us h" for h
    using cache known [OF that] by simp
  have sub: "set (ranked_hashes m') \<subseteq> pooled m"
    using fee_invD(6) [OF fi] same_pool_fields(6) [OF U(2)] by (simp add: R(2))
  have "sorted_wrt (\<lambda>g h. hm_get_or (fee_cache m') h 0 \<le> hm_get_or (fee_cache m') g 0)
      (filter (inputs_known P m us) (ranked_hashes m'))"
    using R(3) by (rule sorted_wrt_filter)
  then have sorted: "sorted_wrt (\<lambda>g h. basis_rate (pool_basis P m us h) \<le> basis_rate (pool_basis P m us g))
      (filter (inputs_known P m us) (ranked_hashes m'))"
    by (rule sorted_wrt_mono_rel [rotated]) (use rate subsetD [OF sub] in \<open>simp add: hm_get_or_def\<close>)
  have unknown: "nat (MAX_MONEY P) < (\<Sum>op\<leftarrow>prevouts (the (hm_get (transactions m) h)). known_value P m us op)"
    if "h \<in> pooled m" "\<not> inputs_known P m us h" "h \<in> set (ranked_hashes m')" for h
  proof (rule ccontr)
    assume "\<not> ?thesis"
    then have "hm_get (fee_basis m') h = None"
      using rebuilt_unknown [OF assms(1,2) that(1,2) assms(3)] by (simp add: m'_def not_less)
    with that(3) cache [of h] show False by (simp add: R(2) mm_dom_iff)
  qed
  have "{h \<in> pooled m. inputs_known P m us h} \<subseteq> set (ranked_hashes m')"
    using rate by (auto simp: R(2) mm_dom_iff)
  moreover have "h \<in> mm_set (fee_index m') (basis_rate (pool_basis P m us h))"
    if "h \<in> pooled m" "inputs_known P m us h" for h
    using rate [OF that] fee_invD(1) [OF fi] by simp
  ultimately show ?thesis using U known rate R(1) sub sorted unknown by blast
qed

lemma demo_pool_ranking:
  "utxo_set_hash demo_pool \<noteq> Some (calculate_utxo_set_hash P us)"
  "1 \<in> pooled demo_pool" "inputs_known demo demo_pool demo_utxos 1"
  "pool_basis demo demo_pool demo_utxos 1 = (10000, 100)"
proof -
  have tx: "hm_get (transactions demo_pool) 1 = Some demo_parent"
    by (simp add: demo_pool_def demo_pool1_def mp_fields update_conv')
  show "utxo_set_hash demo_pool \<noteq> Some (calculate_utxo_set_hash P us)"
    by (simp add: demo_pool_def insert_admitted_def Let_def invalidate_fee_ranking_def)
  show "1 \<in> pooled demo_pool" using tx by (auto simp: pooled_def mm_dom_iff)
  show "inputs_known demo demo_pool demo_utxos 1"
    by (simp add: inputs_known_def tx input_sats_def demo_utxos_def money_sats_def)
  have "fee_deltas demo_pool = []" by (simp add: demo_pool_def demo_pool1_def mp_fields)
  then show "pool_basis demo demo_pool demo_utxos 1 = (10000, 100)"
    by (simp add: pool_basis_def tx demo_fees [OF demo_pool_like] demo_vsizes [OF demo_pool_like] get_fee_delta_def
        hm_get_or_def effective_fee_def as_u64_def as_i64_def i64_wrap_def)
qed

theorem update_fee_index_ranks_witness:
  "hm_get (fee_basis (update_fee_index demo demo_utxos demo_pool)) 1 = Some (10000, 100)
   \<and> 1 \<in> mm_set (fee_index (update_fee_index demo demo_utxos demo_pool)) 100
   \<and> 1 \<in> set (ranked_hashes (update_fee_index demo demo_utxos demo_pool))"
proof -
  from update_fee_index_ranks [OF demo_pool_inv demo_pool_ranking(1) demo_money, of demo_utxos]
  show ?thesis using demo_pool_ranking(2-) by (auto simp: basis_rate_def)
qed

lemma sorted_take_drop:
  assumes "sorted_wrt R xs"
  shows "sorted_wrt R (take n xs) \<and> (\<forall>x \<in> set (take n xs). \<forall>y \<in> set xs - set (take n xs). R x y)"
proof -
  have "xs = take n xs @ drop n xs" by simp
  then have "sorted_wrt R (take n xs @ drop n xs)" "set xs = set (take n xs) \<union> set (drop n xs)"
    using assms by (simp, metis set_append)
  then show ?thesis by (auto simp only: sorted_wrt_append)
qed

text \<open>
  The prioritised transactions are pooled transactions in order of their fee rate, highest
  first and each once; there are as many as asked for, or all ranked ones when the pool has
  fewer; and nothing left out has a higher rate than anything returned. A limit of zero
  is treated as one.
\<close>

lemma get_prioritized_transactions_spec:
  assumes "pool_inv P m"
  shows "case get_prioritized_transactions P limit us m of (txs, m') \<Rightarrow>
    pool_inv P m' \<and> same_pool m m' \<and>
    (\<exists>hs. txs = map (\<lambda>h. the (hm_get (transactions m) h)) hs \<and> distinct hs
      \<and> set hs \<subseteq> mm_dom (fee_cache m')
      \<and> length hs = min (max 1 limit) (card (mm_dom (fee_cache m')))
      \<and> sorted_wrt (\<lambda>g h. hm_get_or (fee_cache m') h 0 \<le> hm_get_or (fee_cache m') g 0) hs
      \<and> (\<forall>g \<in> set hs. \<forall>h \<in> mm_dom (fee_cache m') - set hs.
            hm_get_or (fee_cache m') h 0 \<le> hm_get_or (fee_cache m') g 0))"
proof -
  let ?m = "update_fee_index P us m" and ?n = "max 1 limit"
  let ?le = "\<lambda>g h. hm_get_or (fee_cache ?m) h 0 \<le> hm_get_or (fee_cache ?m) g 0"
  have U: "pool_inv P ?m" "same_pool m ?m" using update_fee_index_spec(1) [OF assms] by simp_all
  then have fi: "fee_inv ?m" by (simp add: pool_inv_def)
  note R = ranked_hashes_spec [OF fi]
  define hs where "hs = take ?n (ranked_hashes ?m)"
  have taken: "take_ranked limit [] (fee_index_rows ?m) = hs"
    using take_ranked_eq [of "[]" limit "fee_index_rows ?m"] fee_index_row(1) [OF fi]
    by (fastforce simp: hs_def ranked_hashes_def)
  have sub: "set hs \<subseteq> mm_dom (fee_cache ?m)" using R(2) set_take_subset by (fastforce simp: hs_def)
  then have "\<forall>h \<in> set hs. hm_get (transactions ?m) h \<noteq> None"
    using fee_invD(6) [OF fi] by (auto simp: pooled_def mm_dom_iff)
  then have "collect_ranked ?m limit [] hs = map (\<lambda>h. the (hm_get (transactions m) h)) hs"
    using same_pool_fields(1) [OF U(2)] by (subst collect_ranked_eq) (auto simp: hs_def)
  moreover have "length hs = min ?n (card (mm_dom (fee_cache ?m)))"
    using R(2) distinct_card [OF R(1)] by (simp add: hs_def)
  moreover have "distinct hs" using R(1) by (simp add: hs_def)
  moreover have "sorted_wrt ?le hs \<and> (\<forall>g \<in> set hs. \<forall>h \<in> mm_dom (fee_cache ?m) - set hs. ?le g h)"
    using sorted_take_drop [OF R(3), of ?n] unfolding R(2) hs_def .
  ultimately show ?thesis
    using U sub taken by (auto simp: get_prioritized_transactions_def Let_def)
qed

theorem get_prioritized_transactions_witness:
  "pool_inv demo (snd (get_prioritized_transactions demo 5 demo_utxos demo_pool))
   \<and> length (fst (get_prioritized_transactions demo 5 demo_utxos demo_pool))
      = min 5 (card (mm_dom (fee_cache (snd (get_prioritized_transactions demo 5 demo_utxos demo_pool)))))"
  using get_prioritized_transactions_spec [OF demo_pool_inv, of 5 demo_utxos]
  by (auto split: prod.splits)

end
