(* ===== verification/Mempool_Chain.thy ===== *)
theory Mempool_Chain
  imports Mempool_Package Mempool_Fees
begin

text \<open>
  The pool against the chain: a connected block, a reorganisation and \<^verbatim>\<open>clear\<close>; then the whole
  pool as a transition system over its public operations, with the invariants
  that hold in every reachable state.
\<close>


section \<open>Definitions\<close>

text \<open>
  A locked set is replaced by a fresh unlocked one, an unlocked one is overwritten; nothing
  happens before a set is wired.
\<close>

definition install_utxo_snapshot :: "utxo_set \<Rightarrow> mempool_manager \<Rightarrow> mempool_manager" where
  "install_utxo_snapshot us m =
     (case utxo_set_arc m of None \<Rightarrow> m | Some _ \<Rightarrow> m \<lparr> utxo_set_arc := Some (False, us) \<rparr>)"

definition confirmed_ids :: "'a tx_api_scheme \<Rightarrow> transaction list \<Rightarrow> hash hset" where
  "confirmed_ids P txs =
     foldl (\<lambda>c tx. hs_insert (calculate_tx_id P tx) c) [] (filter (\<lambda>tx. \<not> is_coinbase P tx) txs)"

definition block_spends :: "'a tx_api_scheme \<Rightarrow> transaction list \<Rightarrow> outpoint hset" where
  "block_spends P txs =
     foldl (\<lambda>s tx. hs_extend s (prevouts tx)) [] (filter (\<lambda>tx. \<not> is_coinbase P tx) txs)"

definition remove_for_connected_block ::
  "'a tx_api_scheme \<Rightarrow> transaction list \<Rightarrow> mempool_manager \<Rightarrow> mempool_manager" where
  "remove_for_connected_block P txs m =
     (let confirmed = confirmed_ids P txs;
          spent = block_spends P txs;
          remove_ids = foldl (\<lambda>ids tx.
              if list_ex (\<lambda>op. op \<in> set spent) (prevouts tx)
              then hs_insert (calculate_tx_id P tx) ids else ids) confirmed (get_transactions m);
          conflicts = filter (\<lambda>h. h \<notin> set confirmed) remove_ids;
          all_ids = foldl (\<lambda>ids h. hs_extend ids (replacement_package m h)) remove_ids conflicts
      in remove_all all_ids m)"

text \<open>One transaction of a disconnected block; the result of its admission is dropped.\<close>

definition readmit ::
  "'a protocol_scheme \<Rightarrow> u64 \<Rightarrow> witness list list option \<Rightarrow> mempool_manager \<Rightarrow> nat \<times> transaction \<Rightarrow> mempool_manager" where
  "readmit P now block_witnesses m e =
     (case e of (tx_index, tx) \<Rightarrow>
        if is_coinbase P tx then m
        else snd (add_transaction_with_witness P now tx
               (Option.bind block_witnesses (\<lambda>stacks. list_get stacks tx_index)) m))"

definition apply_reorg ::
  "'a protocol_scheme \<Rightarrow> u64 \<Rightarrow> block list \<Rightarrow> witness list list list \<Rightarrow> block list \<Rightarrow> utxo_set
    \<Rightarrow> mempool_manager \<Rightarrow> mempool_manager" where
  "apply_reorg P now disconnected disconnected_witnesses connected us m =
     (let m1 = install_utxo_snapshot us m;
          m2 = foldl (\<lambda>m b. remove_for_connected_block P (block_txs b) m) m1 connected
      in foldl (\<lambda>m (block_index, b).
           foldl (readmit P now (list_get disconnected_witnesses block_index)) m
             (enumerate 0 (block_txs b))) m2 (enumerate 0 disconnected))"


section \<open>A connected block\<close>

lemma set_confirmed_ids:
  "set (confirmed_ids P txs) = {calculate_tx_id P tx | tx. tx \<in> set txs \<and> \<not> is_coinbase P tx}"
proof -
  have "set (foldl (\<lambda>c tx. hs_insert (calculate_tx_id P tx) c) a ts) = set a \<union> calculate_tx_id P ` set ts" for a ts
    by (induction ts arbitrary: a) auto
  then show ?thesis by (auto simp: confirmed_ids_def)
qed

lemma set_block_spends:
  "set (block_spends P txs) = {op. \<exists>tx \<in> set txs. \<not> is_coinbase P tx \<and> op \<in> set (prevouts tx)}"
proof -
  have "set (foldl (\<lambda>s tx. hs_extend s (prevouts tx)) a ts) = set a \<union> (\<Union>tx \<in> set ts. set (prevouts tx))" for a ts
    by (induction ts arbitrary: a) auto
  then show ?thesis by (auto simp: block_spends_def)
qed

text \<open>The pooled transactions that spend what the block spends.\<close>

definition block_conflicts :: "'a tx_api_scheme \<Rightarrow> transaction list \<Rightarrow> mempool_manager \<Rightarrow> hash set" where
  "block_conflicts P txs m =
     {h. \<exists>tx. hm_get (transactions m) h = Some tx \<and> set (prevouts tx) \<inter> set (block_spends P txs) \<noteq> {}}"

lemma connected_block_pooled:
  fixes txs
  assumes "spend_inv P m"
  defines "C \<equiv> block_conflicts P txs m - set (confirmed_ids P txs)"
  shows "\<exists>hs. remove_for_connected_block P txs m = remove_all hs m
    \<and> set hs = set (confirmed_ids P txs) \<union> block_conflicts P txs m \<union> (\<Union>h \<in> C. set (replacement_package m h))"
proof -
  let ?step = "\<lambda>ids tx. if list_ex (\<lambda>op. op \<in> set (block_spends P txs)) (prevouts tx)
    then hs_insert (calculate_tx_id P tx) ids else ids"
  have S: "set (foldl ?step a ts) = set a \<union> {calculate_tx_id P tx | tx. tx \<in> set ts
      \<and> set (prevouts tx) \<inter> set (block_spends P txs) \<noteq> {}}" for a ts
    by (induction ts arbitrary: a) (auto simp: list_ex_iff)
  have wf: "hm_wf (transactions m)" and
    ids: "hm_get (transactions m) h = Some tx \<Longrightarrow> calculate_tx_id P tx = h" for h tx
    using assms(1) unfolding spend_inv_def by blast+
  have R: "set (foldl ?step (confirmed_ids P txs) (get_transactions m))
      = set (confirmed_ids P txs) \<union> block_conflicts P txs m"
  proof -
    have "{calculate_tx_id P tx | tx. tx \<in> set (get_transactions m)
        \<and> set (prevouts tx) \<inter> set (block_spends P txs) \<noteq> {}} = block_conflicts P txs m"
      using wf ids by (force simp: get_transactions_def block_conflicts_def hm_wf_def)
    then show ?thesis unfolding S by simp
  qed
  have E: "set (foldl (\<lambda>ids h. hs_extend ids (replacement_package m h)) a cs)
      = set a \<union> (\<Union>h \<in> set cs. set (replacement_package m h))" for a cs
    by (induction cs arbitrary: a) auto
  let ?R = "foldl ?step (confirmed_ids P txs) (get_transactions m)"
  have C: "set (filter (\<lambda>h. h \<notin> set (confirmed_ids P txs)) ?R) = C"
    using R by (auto simp: C_def)
  show ?thesis
    unfolding remove_for_connected_block_def Let_def
    by (intro exI conjI, rule refl) (simp only: E R C)
qed

text \<open>
  C8. After a block is connected the pool holds none of its transactions and nothing that spends an
  output the block spends. What is removed beyond those are only the recorded
  descendants of the conflicting ones: a child of a confirmed transaction stays.
\<close>

theorem connected_block_effect:
  assumes "pool_inv P m"
  shows "let m' = remove_for_connected_block P txs m;
             confirmed = set (confirmed_ids P txs); conflicting = block_conflicts P txs m - confirmed
    in pool_inv P m'
    \<and> pooled m' = pooled m - confirmed - (\<Union>h \<in> conflicting. set (replacement_package m h))
    \<and> (\<forall>op \<in> set (block_spends P txs). hm_get (spenders m') op = None)"
proof -
  have sp: "spend_inv P m" using assms by (simp add: pool_inv_def)
  let ?C = "block_conflicts P txs m - set (confirmed_ids P txs)"
  obtain hs where hs: "remove_for_connected_block P txs m = remove_all hs m"
    "set hs = set (confirmed_ids P txs) \<union> block_conflicts P txs m \<union> (\<Union>h \<in> ?C. set (replacement_package m h))"
    using connected_block_pooled [OF sp] by blast
  have inv: "pool_inv P (remove_all hs m)" by (rule remove_all_inv [OF assms])
  have set: "set hs = set (confirmed_ids P txs) \<union> (\<Union>h \<in> ?C. set (replacement_package m h))"
    unfolding hs(2) using root_in_package by blast
  have "hm_get (spenders (remove_all hs m)) op = None" if op: "op \<in> set (block_spends P txs)" for op
  proof (rule ccontr)
    assume "hm_get (spenders (remove_all hs m)) op \<noteq> None"
    then obtain h tx where h: "hm_get (transactions (remove_all hs m)) h = Some tx" "op \<in> set (prevouts tx)"
      using inv unfolding pool_inv_def spend_inv_def by (metis not_Some_eq)
    then have "h \<notin> set hs" "hm_get (transactions m) h = Some tx" by (auto simp: remove_all_get split: if_splits)
    with h(2) op have "h \<in> block_conflicts P txs m" by (auto simp: block_conflicts_def)
    with \<open>h \<notin> set hs\<close> hs(2) show False by blast
  qed
  with inv show ?thesis unfolding Let_def hs(1) remove_all_pooled set by blast
qed

theorem connected_block_effect_witness:
  "pooled (remove_for_connected_block demo [demo_rival] demo_pool) = {}"
proof -
  have c: "set (confirmed_ids demo [demo_rival]) = {3}" "set (block_spends demo [demo_rival]) = {demo_coin}"
    by (auto simp: set_confirmed_ids set_block_spends demo_api demo_rival_fields)
  have "block_conflicts demo [demo_rival] demo_pool = {1}"
    by (auto simp: block_conflicts_def c demo_coin_def split: if_splits)
  then show ?thesis
    using connected_block_effect [OF demo_pool_inv, of "[demo_rival]"]
    by (simp add: Let_def c demo_package [OF demo_pool_like])
qed


section \<open>State that survives\<close>

text \<open>
  Clearing the pool empties the transactions, the spends and the fee tables, so no spend is left, but
  it keeps the identifiers, witnesses, sizes and the dependency graph of everything that was pooled.
\<close>

lemma clear_keeps_stale_tables:
  assumes "pool_inv P m"
  shows "let m' = clear_mempool m in spend_inv P m' \<and> pooled m' = {} \<and> fee_inv m'
    \<and> mm_dom (wtxids m') = pooled m \<and> mm_dom (adjusted_vsize m') = pooled m
    \<and> tx_witnesses m' = tx_witnesses m \<and> mm_dom (tx_dependencies m') = pooled m
    \<and> (\<forall>h. mm_set (tx_descendants m') h = mm_set (tx_descendants m) h)"
proof -
  let ?m = "clear_mempool m"
  have f: "transactions ?m = []" "spenders ?m = []" "spent_outputs ?m = []" "fee_cache ?m = []"
    "fee_basis ?m = []" "fee_index ?m = []" "wtxids ?m = wtxids m" "adjusted_vsize ?m = adjusted_vsize m"
    "tx_witnesses ?m = tx_witnesses m" "tx_dependencies ?m = tx_dependencies m" "tx_descendants ?m = tx_descendants m"
    by (simp_all add: clear_mempool_def Let_def invalidate_fee_ranking_def)
  show ?thesis
    using assms unfolding Let_def pool_inv_def table_inv_def graph_inv_def
    by (simp add: f spend_inv_def fee_inv_def pooled_def hm_get_or_def)
qed

lemma clear_keeps_stale_tables_witness: "mm_dom (wtxids (clear_mempool demo_pool)) = {1, 2}"
  using clear_keeps_stale_tables [OF demo_pool_inv] by (simp add: Let_def)

text \<open>
  An admitted transaction never gets recorded children, also when pooled transactions already
  spend its outputs. That is the state after a reorganisation: a child stays when its
  parent is confirmed, and the parent admitted again does not know it.
\<close>

lemma readmitted_parent_has_no_children:
  assumes "pool_inv P m" "add_transaction_with_witness P now tx wits m = (Ok True, m')"
    and "calculate_tx_id P tx \<notin> op_hash ` set (prevouts tx)"
  shows "mm_set (tx_descendants m') (calculate_tx_id P tx) = {}"
  using assms(2)
proof (cases rule: add_transaction_cases)
  case (admitted us wired fee rate m1)
  have "pool_inv P m1" by (rule tables.resolve_keeps_inv [OF assms(1) admitted(2)])
  moreover have "calculate_tx_id P tx \<notin> pooled m1"
    using checked_facts(1) [OF admitted(1)] resolved_pooled [OF admitted(2)] by blast
  ultimately have "mm_set (tx_descendants m1) (calculate_tx_id P tx) = {}"
    by (intro mm_set_empty) (simp add: pool_inv_def graph_inv_def)
  then show ?thesis
    using assms(3) unfolding admitted(5) insert_admitted_fields by auto
qed simp_all

theorem readmitted_parent_witness:
  "mm_set (tx_descendants (snd (add_transaction_with_witness demo 30 demo_rival (Some [[]]) (demo_live 101000)))) 3 = {}"
proof -
  let ?a = "add_transaction_with_witness demo 30 demo_rival (Some [[]]) (demo_live 101000)"
  have "fst ?a = Ok True" by (simp add: demo_add Let_def)
  then have "?a = (Ok True, snd ?a)" by (metis prod.collapse)
  from readmitted_parent_has_no_children [OF demo_live_inv this] show ?thesis
    by (simp add: demo_coin_def)
qed

end
