(* ===== verification/Core_Mempool_Dat.thy ===== *)
theory Core_Mempool_Dat
  imports Demo_Protocol
begin

text \<open>
  The dump file of the pool, \<^verbatim>\<open>node/core_mempool_dat.rs\<close>: the compact sizes, the encoder, and the
  decoder with its two versions. A decoder failure is either an error value or the panic of a
  \<^verbatim>\<open>Vec::with_capacity\<close> that asks for more entries than can be reserved; how many that is depends
  on the machine and is the record \<open>dat_memory\<close>.
\<close>

unbundle bit_operations_syntax


section \<open>Data\<close>

record core_mempool_tx =
  entry_tx :: transaction
  entry_witnesses :: "witness list option"
  entry_time :: int
  entry_fee_delta :: int

record core_mempool_dat =
  dat_txs :: "core_mempool_tx list"
  dat_deltas :: "(hash \<times> int) list"
  dat_unbroadcast :: "hash list"

record dat_memory =
  tx_slots :: nat
  delta_slots :: nat
  hash_slots :: nat

datatype decode_failure = Refused string | CapacityOverflow


section \<open>Compact sizes\<close>

definition push_compact :: "byte_string \<Rightarrow> u64 \<Rightarrow> byte_string" where
  "push_compact out n =
     (if n < 253 then out @ [ucast n]
      else if n \<le> 0xFFFF then out @ [253] @ le_bytes 2 (unat (ucast n :: u16))
      else if n \<le> 0xFFFFFFFF then out @ [254] @ le_bytes 4 (unat (ucast n :: u32))
      else out @ [255] @ u64_le n)"

definition read_compact_tail :: "byte_string \<Rightarrow> nat \<Rightarrow> (u64 \<times> nat, decode_failure) result" where
  "read_compact_tail data k =
     (case slice_get data 1 (1 + k) of
        None \<Rightarrow> Err (Refused ''compact size is truncated'')
      | Some bs \<Rightarrow> Ok (u64_of bs, 1 + k))"

definition read_compact :: "byte_string \<Rightarrow> (u64 \<times> nat, decode_failure) result" where
  "read_compact data =
     (case data of
        [] \<Rightarrow> Err (Refused ''compact size is truncated'')
      | first # _ \<Rightarrow>
          if first < 253 then Ok (ucast first, 1)
          else if first = 253 then read_compact_tail data 2
          else if first = 254 then read_compact_tail data 4
          else read_compact_tail data 8)"


section \<open>The encoder\<close>

definition encode_entry :: "'a tx_api_scheme \<Rightarrow> core_mempool_tx \<Rightarrow> (byte_string, string) result" where
  "encode_entry P e =
     (case entry_witnesses e of
        Some witnesses \<Rightarrow> serialize_transaction_with_witness P (entry_tx e) witnesses
      | None \<Rightarrow> Ok (serialize_transaction P (entry_tx e)))"

fun encode_txs :: "'a tx_api_scheme \<Rightarrow> byte_string \<Rightarrow> core_mempool_tx list \<Rightarrow> (byte_string, string) result" where
  "encode_txs P out [] = Ok out"
| "encode_txs P out (e # es) =
     (case encode_entry P e of
        Err err \<Rightarrow> Err err
      | Ok bs \<Rightarrow> encode_txs P (out @ bs @ i64_le (entry_time e) @ i64_le (entry_fee_delta e)) es)"

definition encode :: "'a tx_api_scheme \<Rightarrow> core_mempool_dat \<Rightarrow> (byte_string, string) result" where
  "encode P dump =
     (let out = u64_le 1 @ u64_le (of_nat (length (dat_txs dump))) in
      case encode_txs P out (dat_txs dump) of
        Err err \<Rightarrow> Err err
      | Ok out \<Rightarrow>
          let out = push_compact out (of_nat (length (dat_deltas dump)));
              out = foldl (\<lambda>out (txid, delta). out @ hash_le txid @ i64_le delta) out (dat_deltas dump);
              out = push_compact out (of_nat (length (dat_unbroadcast dump)));
              out = foldl (\<lambda>out txid. out @ hash_le txid) out (dat_unbroadcast dump)
          in Ok out)"


section \<open>The decoder\<close>

definition kept_witnesses :: "witness list \<Rightarrow> witness list option" where
  "kept_witnesses ws = (if list_ex (\<lambda>stack. stack \<noteq> []) ws then Some ws else None)"

fun parse_txs ::
  "'a tx_api_scheme \<Rightarrow> nat \<Rightarrow> byte_string \<Rightarrow> (core_mempool_tx list \<times> byte_string, decode_failure) result" where
  "parse_txs P 0 data = Ok ([], data)"
| "parse_txs P (Suc n) data =
     (case deserialize_transaction_with_witness P data of
        Err err \<Rightarrow> Err (Refused (''mempool.dat transaction: '' @ err))
      | Ok (tx, ws, used) \<Rightarrow>
          if length data < used + 16 then Err (Refused ''mempool.dat transaction trailer is truncated'')
          else
            let e = \<lparr> entry_tx = tx, entry_witnesses = kept_witnesses ws,
                      entry_time = i64_of (slice data used (used + 8)),
                      entry_fee_delta = i64_of (slice data (used + 8) (used + 16)) \<rparr>
            in case parse_txs P n (drop (used + 16) data) of
              Err err \<Rightarrow> Err err
            | Ok (es, rest) \<Rightarrow> Ok (e # es, rest))"

fun parse_deltas :: "nat \<Rightarrow> byte_string \<Rightarrow> ((hash \<times> int) list \<times> byte_string, decode_failure) result" where
  "parse_deltas 0 data = Ok ([], data)"
| "parse_deltas (Suc n) data =
     (if length data < 40 then Err (Refused ''mempool.dat fee delta is truncated'')
      else case parse_deltas n (drop 40 data) of
        Err err \<Rightarrow> Err err
      | Ok (ds, rest) \<Rightarrow> Ok ((hash_of_bytes (take 32 data), i64_of (slice data 32 40)) # ds, rest))"

fun parse_unbroadcast :: "nat \<Rightarrow> byte_string \<Rightarrow> (hash list \<times> byte_string, decode_failure) result" where
  "parse_unbroadcast 0 data = Ok ([], data)"
| "parse_unbroadcast (Suc n) data =
     (if length data < 32 then Err (Refused ''mempool.dat unbroadcast set is truncated'')
      else case parse_unbroadcast n (drop 32 data) of
        Err err \<Rightarrow> Err err
      | Ok (hs, rest) \<Rightarrow> Ok (hash_of_bytes (take 32 data) # hs, rest))"

text \<open>\<^verbatim>\<open>Vec::with_capacity(n)\<close> before a loop of \<open>n\<close> reads.\<close>

definition with_capacity :: "nat \<Rightarrow> nat \<Rightarrow> ('b, decode_failure) result \<Rightarrow> ('b, decode_failure) result" where
  "with_capacity slots n r = (if n > slots then Err CapacityOverflow else r)"

definition counted ::
  "nat \<Rightarrow> (nat \<Rightarrow> byte_string \<Rightarrow> ('b list \<times> byte_string, decode_failure) result) \<Rightarrow> byte_string
    \<Rightarrow> ('b list \<times> byte_string, decode_failure) result" where
  "counted slots parse data =
     (case read_compact data of
        Err err \<Rightarrow> Err err
      | Ok (n, used) \<Rightarrow> with_capacity slots (unat n) (parse (unat n) (drop used data)))"

definition parse_body :: "'a tx_api_scheme \<Rightarrow> dat_memory \<Rightarrow> byte_string \<Rightarrow> (core_mempool_dat, decode_failure) result" where
  "parse_body P mem data =
     (if length data < 8 then Err (Refused ''mempool.dat transaction count is truncated'')
      else
        let count = unat (u64_of (take 8 data)) in
        case with_capacity (tx_slots mem) count (parse_txs P count (drop 8 data)) of
          Err err \<Rightarrow> Err err
        | Ok (txs, data1) \<Rightarrow>
            (case counted (delta_slots mem) parse_deltas data1 of
               Err err \<Rightarrow> Err err
             | Ok (deltas, data2) \<Rightarrow>
                 (case counted (hash_slots mem) parse_unbroadcast data2 of
                    Err err \<Rightarrow> Err err
                  | Ok (unbroadcast, data3) \<Rightarrow>
                      if data3 \<noteq> [] then Err (Refused ''mempool.dat has trailing bytes'')
                      else Ok \<lparr> dat_txs = txs, dat_deltas = deltas, dat_unbroadcast = unbroadcast \<rparr>)))"

text \<open>\<^verbatim>\<open>*byte ^= key[(start + offset) % 8]\<close> over a slice that begins at file offset \<open>start\<close>.\<close>

definition mask_bytes :: "byte_string \<Rightarrow> nat \<Rightarrow> byte_string \<Rightarrow> byte_string" where
  "mask_bytes key start bs =
     map (\<lambda>(offset, b). b XOR key ! ((start + offset) mod 8)) (enumerate 0 bs)"

definition decode_keyed :: "'a tx_api_scheme \<Rightarrow> dat_memory \<Rightarrow> byte_string \<Rightarrow> (core_mempool_dat, decode_failure) result" where
  "decode_keyed P mem bytes =
     (case read_compact (drop 8 bytes) of
        Err err \<Rightarrow> Err err
      | Ok (key_len, used) \<Rightarrow>
          if key_len \<noteq> 8 then Err (Refused ''mempool.dat version 2 key is not 8 bytes'')
          else
            let key_at = 8 + used in
            if length bytes < key_at + 8 then Err (Refused ''mempool.dat version 2 key is truncated'')
            else
              let key = slice bytes key_at (key_at + 8); start = key_at + 8
              in parse_body P mem (mask_bytes key start (drop start bytes)))"

definition decode :: "'a tx_api_scheme \<Rightarrow> dat_memory \<Rightarrow> byte_string \<Rightarrow> (core_mempool_dat, decode_failure) result" where
  "decode P mem bytes =
     (if length bytes < 8 then Err (Refused ''mempool.dat is shorter than a version'')
      else
        let version = u64_of (take 8 bytes) in
        if version = 2 then decode_keyed P mem bytes
        else if version = 1 then parse_body P mem (drop 8 bytes)
        else Err (Refused ''mempool.dat version is not 1 or 2''))"


section \<open>Round trip\<close>

lemma read_push_compact:
  "read_compact (push_compact [] n @ rest) = Ok (n, length (push_compact [] n))"
proof -
  have tail: "read_compact_tail (f # le_bytes k (unat n) @ rest) k = Ok (n, 1 + k)"
    if "unat n < 256 ^ k" for f k
    using that by (simp add: read_compact_tail_def slice_get_def slice_def u64_of_def)
  have small: "unat (ucast n :: 'c::len word) = unat n" if "unat n < 2 ^ LENGTH('c)"
    using that by (simp add: unsigned_ucast_eq take_bit_nat_eq_self)
  consider "n < 253" | "253 \<le> n" "n \<le> 0xFFFF" | "0xFFFF < n" "n \<le> 0xFFFFFFFF" | "0xFFFFFFFF < n"
    by fastforce
  then show ?thesis
  proof cases
    case 1
    then have "unat n < 253" by (simp add: word_less_nat_alt)
    then have u: "unat (ucast n :: u8) = unat n" by (intro small) simp
    have "(ucast n :: u8) < 253" "(ucast (ucast n :: u8) :: u64) = n"
      using u \<open>unat n < 253\<close> by (simp_all add: word_less_nat_alt word_unat_eq_iff unat_ucast_up)
    then show ?thesis using 1 by (simp add: push_compact_def read_compact_def)
  next
    case 2
    then have b: "unat n < 256 ^ 2" by (simp add: word_le_nat_alt)
    then have "unat (ucast n :: u16) = unat n" by (intro small) simp
    moreover have "\<not> n < 253" using 2 by auto
    ultimately show ?thesis using 2(2) tail [OF b] by (simp add: push_compact_def read_compact_def)
  next
    case 3
    then have b: "unat n < 256 ^ 4" by (simp add: word_le_nat_alt)
    then have "unat (ucast n :: u32) = unat n" by (intro small) simp
    moreover have "\<not> n < 253" "\<not> n \<le> 0xFFFF" using 3 by (auto simp: word_less_nat_alt word_le_nat_alt)
    ultimately show ?thesis using 3(2) tail [OF b] by (simp add: push_compact_def read_compact_def)
  next
    case 4
    have b: "unat n < 256 ^ 8" using unat_bound [of n] by simp
    have "\<not> n < 253" "\<not> n \<le> 0xFFFF" "\<not> n \<le> 0xFFFFFFFF"
      using 4 by (auto simp: word_less_nat_alt word_le_nat_alt)
    with tail [OF b] show ?thesis by (simp add: push_compact_def read_compact_def u64_le_def)
  qed
qed

lemma push_compact_append: "push_compact out n = out @ push_compact [] n"
  by (simp add: push_compact_def)

text \<open>
  What the dump relies on of the transaction codec: it reads back the transaction, the stacks and the
  number of bytes, whatever follows, and a transaction without witnesses reads back with empty stacks.
\<close>

definition wire_codec :: "'a tx_api_scheme \<Rightarrow> transaction \<Rightarrow> witness list option \<Rightarrow> bool" where
  "wire_codec P tx wits \<longleftrightarrow>
     (case wits of
        Some ws \<Rightarrow> \<exists>bs. serialize_transaction_with_witness P tx ws = Ok bs
          \<and> (\<forall>rest. deserialize_transaction_with_witness P (bs @ rest) = Ok (tx, ws, length bs))
      | None \<Rightarrow> \<exists>ws. kept_witnesses ws = None
          \<and> (\<forall>rest. deserialize_transaction_with_witness P (serialize_transaction P tx @ rest)
               = Ok (tx, ws, length (serialize_transaction P tx))))"

definition i64_range :: "int \<Rightarrow> bool" where
  "i64_range i \<longleftrightarrow> i64_min \<le> i \<and> i \<le> i64_max"

definition dump_ok :: "'a tx_api_scheme \<Rightarrow> dat_memory \<Rightarrow> core_mempool_dat \<Rightarrow> bool" where
  "dump_ok P mem d \<longleftrightarrow>
     list_all (\<lambda>e. wire_codec P (entry_tx e) (entry_witnesses e) \<and> i64_range (entry_time e)
       \<and> i64_range (entry_fee_delta e)) (dat_txs d)
   \<and> list_all (\<lambda>(txid, delta). i64_range delta) (dat_deltas d)
   \<and> length (dat_txs d) \<le> tx_slots mem \<and> length (dat_txs d) < 2 ^ 64
   \<and> length (dat_deltas d) \<le> delta_slots mem \<and> length (dat_deltas d) < 2 ^ 64
   \<and> length (dat_unbroadcast d) \<le> hash_slots mem \<and> length (dat_unbroadcast d) < 2 ^ 64"

text \<open>Empty stacks are not told apart from no witnesses.\<close>

definition reloaded :: "core_mempool_dat \<Rightarrow> core_mempool_dat" where
  "reloaded d = d \<lparr> dat_txs := map (\<lambda>e. e \<lparr> entry_witnesses := Option.bind (entry_witnesses e) kept_witnesses \<rparr>) (dat_txs d) \<rparr>"

lemma entry_codec:
  assumes "wire_codec P (entry_tx e) (entry_witnesses e)"
  obtains bs ws where "encode_entry P e = Ok bs" "kept_witnesses ws = Option.bind (entry_witnesses e) kept_witnesses"
    "\<And>rest. deserialize_transaction_with_witness P (bs @ rest) = Ok (entry_tx e, ws, length bs)"
  using assms by (cases "entry_witnesses e") (auto simp: wire_codec_def encode_entry_def)

lemma encode_parse_txs:
  assumes "list_all (\<lambda>e. wire_codec P (entry_tx e) (entry_witnesses e) \<and> i64_range (entry_time e)
    \<and> i64_range (entry_fee_delta e)) es"
  shows "\<exists>bs. (\<forall>out. encode_txs P out es = Ok (out @ bs))
    \<and> (\<forall>rest. parse_txs P (length es) (bs @ rest)
         = Ok (map (\<lambda>e. e \<lparr> entry_witnesses := Option.bind (entry_witnesses e) kept_witnesses \<rparr>) es, rest))"
  using assms
proof (induction es)
  case (Cons e es)
  then obtain bs where IH: "\<And>out. encode_txs P out es = Ok (out @ bs)"
    "\<And>rest. parse_txs P (length es) (bs @ rest)
       = Ok (map (\<lambda>e. e \<lparr> entry_witnesses := Option.bind (entry_witnesses e) kept_witnesses \<rparr>) es, rest)"
    by auto
  from Cons.prems have "wire_codec P (entry_tx e) (entry_witnesses e)" by simp
  then obtain b ws where b: "encode_entry P e = Ok b"
    "kept_witnesses ws = Option.bind (entry_witnesses e) kept_witnesses"
    "\<And>rest. deserialize_transaction_with_witness P (b @ rest) = Ok (entry_tx e, ws, length b)"
    by (rule entry_codec) blast
  have r: "i64_of (i64_le (entry_time e)) = entry_time e" "i64_of (i64_le (entry_fee_delta e)) = entry_fee_delta e"
    using Cons.prems by (simp_all add: i64_range_def)
  have s: "slice (b @ i64_le t @ i64_le d @ x) (length b) (length b + 8) = i64_le t"
    "slice (b @ i64_le t @ i64_le d @ x) (length b + 8) (length b + 16) = i64_le d"
    "drop (length b + 16) (b @ i64_le t @ i64_le d @ x) = x" for t d x
    by (simp_all add: slice_def)
  show ?case
    by (intro exI [of _ "b @ i64_le (entry_time e) @ i64_le (entry_fee_delta e) @ bs"])
      (simp add: IH b r s Let_def)
qed simp

lemma encode_parse_deltas:
  assumes "list_all (\<lambda>(txid, delta). i64_range delta) ds"
  shows "\<exists>bs. (\<forall>out. foldl (\<lambda>out (txid, delta). out @ hash_le txid @ i64_le delta) out ds = out @ bs)
    \<and> (\<forall>rest. parse_deltas (length ds) (bs @ rest) = Ok (ds, rest))"
  using assms
proof (induction ds)
  case (Cons d ds)
  obtain txid delta where d: "d = (txid, delta)" by (cases d)
  from Cons obtain bs where IH: "\<And>out. foldl (\<lambda>out (txid, delta). out @ hash_le txid @ i64_le delta) out ds = out @ bs"
    "\<And>rest. parse_deltas (length ds) (bs @ rest) = Ok (ds, rest)"
    by auto
  have "slice (hash_le txid @ i64_le delta @ x) 32 40 = i64_le delta" for x
    by (simp add: slice_def)
  then show ?case
    using Cons.prems by (intro exI [of _ "hash_le txid @ i64_le delta @ bs"]) (simp add: IH d i64_range_def)
qed simp

lemma encode_parse_unbroadcast:
  "\<exists>bs. (\<forall>out. foldl (\<lambda>out txid. out @ hash_le txid) out hs = out @ bs)
    \<and> (\<forall>rest. parse_unbroadcast (length hs) (bs @ rest) = Ok (hs, rest))"
proof (induction hs)
  case (Cons h hs)
  then obtain bs where "\<And>out. foldl (\<lambda>out txid. out @ hash_le txid) out hs = out @ bs"
    "\<And>rest. parse_unbroadcast (length hs) (bs @ rest) = Ok (hs, rest)"
    by auto
  then show ?case by (intro exI [of _ "hash_le h @ bs"]) simp
qed simp

lemma counted_push:
  assumes "length xs \<le> slots" "length xs < 2 ^ 64" "\<And>rest. parse (length xs) (bs @ rest) = Ok (xs, rest)"
  shows "counted slots parse (push_compact [] (of_nat (length xs)) @ bs @ rest) = Ok (xs, rest)"
proof -
  have "unat (of_nat (length xs) :: u64) = length xs" using assms(2) by (simp add: unat_of_nat)
  then show ?thesis using assms(1,3) by (simp add: counted_def read_push_compact with_capacity_def)
qed

lemma dump_codec:
  assumes "dump_ok P mem d"
  shows "\<exists>body. encode P d = Ok (u64_le 1 @ body)
    \<and> (\<forall>x. decode P mem (u64_le 1 @ body @ x)
        = (if x = [] then Ok (reloaded d) else Err (Refused ''mempool.dat has trailing bytes'')))"
proof -
  note ok = assms [unfolded dump_ok_def]
  obtain b1 where b1: "\<And>out. encode_txs P out (dat_txs d) = Ok (out @ b1)"
    "\<And>rest. parse_txs P (length (dat_txs d)) (b1 @ rest) = Ok (dat_txs (reloaded d), rest)"
    using encode_parse_txs [of P "dat_txs d"] ok by (auto simp: reloaded_def)
  obtain b2 where b2: "\<And>out. foldl (\<lambda>out (txid, delta). out @ hash_le txid @ i64_le delta) out (dat_deltas d) = out @ b2"
    "\<And>rest. parse_deltas (length (dat_deltas d)) (b2 @ rest) = Ok (dat_deltas d, rest)"
    using encode_parse_deltas [of "dat_deltas d"] ok by auto
  obtain b3 where b3: "\<And>out. foldl (\<lambda>out txid. out @ hash_le txid) out (dat_unbroadcast d) = out @ b3"
    "\<And>rest. parse_unbroadcast (length (dat_unbroadcast d)) (b3 @ rest) = Ok (dat_unbroadcast d, rest)"
    using encode_parse_unbroadcast [of "dat_unbroadcast d"] by auto
  let ?n = "\<lambda>xs. of_nat (length xs) :: u64"
  let ?body = "u64_le (?n (dat_txs d)) @ b1 @ push_compact [] (?n (dat_deltas d)) @ b2
    @ push_compact [] (?n (dat_unbroadcast d)) @ b3"
  have n: "unat (?n (dat_txs d)) = length (dat_txs d)" using ok by (simp add: unat_of_nat)
  have c2: "counted (delta_slots mem) parse_deltas (push_compact [] (?n (dat_deltas d)) @ b2 @ x)
      = Ok (dat_deltas d, x)" for x
    by (rule counted_push) (use ok b2 in auto)
  have c3: "counted (hash_slots mem) parse_unbroadcast (push_compact [] (?n (dat_unbroadcast d)) @ b3 @ x)
      = Ok (dat_unbroadcast d, x)" for x
    by (rule counted_push) (use ok b3 in auto)
  have enc: "encode P d = Ok (u64_le 1 @ ?body)"
    unfolding encode_def Let_def b1 sum.case b2 b3
    by (simp add: push_compact_append [of "_ @ _"])
  have body: "parse_body P mem (?body @ x)
      = (if x = [] then Ok (reloaded d) else Err (Refused ''mempool.dat has trailing bytes''))" for x
    using ok by (simp add: parse_body_def n b1 c2 c3 with_capacity_def) (simp add: reloaded_def)
  have "decode P mem (u64_le 1 @ ?body @ x) = parse_body P mem (?body @ x)" for x
    by (simp add: decode_def Let_def)
  with body enc show ?thesis by (intro exI [of _ ?body]) simp
qed

text \<open>
  C29. Whatever the encoder writes, the decoder reads back: the same transactions with
  their times and fee deltas, the same deltas and the same unbroadcast set, in the same order; only witnesses
  that are all empty come back as none. One more byte at the end is refused.
\<close>

theorem dump_roundtrip:
  assumes "dump_ok P mem d"
  shows "\<exists>bytes. encode P d = Ok bytes \<and> decode P mem bytes = Ok (reloaded d)
    \<and> (\<forall>x. x \<noteq> [] \<longrightarrow> decode P mem (bytes @ x) = Err (Refused ''mempool.dat has trailing bytes''))"
  using dump_codec [OF assms] by (metis append.assoc append.right_neutral)

text \<open>A dump with one transaction that carries a witness, one delta and one unbroadcast entry.\<close>

definition demo_dump :: core_mempool_dat where
  "demo_dump =
     \<lparr> dat_txs = [\<lparr> entry_tx = \<lparr> version = 1, inputs = [], outputs = [], lock_time = 7 \<rparr>,
                    entry_witnesses = Some [[[1]]], entry_time = 0, entry_fee_delta = - 25 \<rparr>],
       dat_deltas = [(9, - 4)], dat_unbroadcast = [8] \<rparr>"

definition demo_memory :: dat_memory where
  "demo_memory = \<lparr> tx_slots = 1000, delta_slots = 1000, hash_slots = 1000 \<rparr>"

lemma demo_dump_ok: "dump_ok demo demo_memory demo_dump"
proof -
  have "from_le_bytes (le_bytes 8 7) = 7" by (intro from_le_bytes_le_bytes) simp
  then show ?thesis
    by (simp add: dump_ok_def demo_dump_def demo_memory_def wire_codec_def i64_range_def i64_min_def
      i64_max_def demo_def)
qed

theorem dump_roundtrip_witness:
  "\<exists>bytes. encode demo demo_dump = Ok bytes \<and> decode demo demo_memory bytes = Ok demo_dump"
  using dump_roundtrip [OF demo_dump_ok] by (simp add: reloaded_def demo_dump_def kept_witnesses_def) blast


section \<open>Version two and corrupt counts\<close>

lemma mask_twice: "length key = 8 \<Longrightarrow> mask_bytes key start (mask_bytes key start bs) = bs"
  by (rule nth_equalityI) (simp_all add: mask_bytes_def nth_enumerate_eq xor.assoc)

text \<open>
  A version two file, the same body under a repeated 8-byte key at the file offsets of its bytes,
  decodes as the plain version one file of that body, whether that succeeds or fails.
\<close>

lemma version_two_decodes:
  assumes "length key = 8"
  shows "decode P mem (u64_le 2 @ [8] @ key @ mask_bytes key 17 body) = decode P mem (u64_le 1 @ body)"
proof -
  let ?f = "u64_le 2 @ [8] @ key @ mask_bytes key 17 body"
  have "read_compact (drop 8 ?f) = Ok (8, 1)" by (simp add: read_compact_def)
  moreover have "slice ?f 9 17 = key" "drop 17 ?f = mask_bytes key 17 body"
    using assms by (simp_all add: slice_def)
  ultimately have "decode_keyed P mem ?f = parse_body P mem body"
    using assms by (simp add: decode_keyed_def mask_twice)
  then show ?thesis by (simp add: decode_def)
qed

theorem version_two_witness:
  "decode demo demo_memory (u64_le 2 @ [8] @ [1, 2, 3, 4, 5, 6, 7, 8] @ mask_bytes [1, 2, 3, 4, 5, 6, 7, 8] 17 [])
   = Err (Refused ''mempool.dat transaction count is truncated'')"
  by (subst version_two_decodes) (simp_all add: decode_def parse_body_def)

text \<open>
  A transaction count that cannot be reserved stops the node instead of being
  reported, even when no transaction follows it.
\<close>

lemma huge_count_panics:
  assumes "tx_slots mem < unat count"
  shows "decode P mem (u64_le 1 @ u64_le count @ rest) = Err CapacityOverflow"
  using assms by (simp add: decode_def parse_body_def with_capacity_def)

theorem huge_count_witness: "decode demo demo_memory (u64_le 1 @ u64_le (2 ^ 60) @ []) = Err CapacityOverflow"
  by (rule huge_count_panics) (simp add: demo_memory_def)

end
