(* ===== verification/Mempool_Persist.thy ===== *)
theory Mempool_Persist
  imports Mempool_Chain Core_Mempool_Dat
begin

text \<open>
  The pool on disk: \<^verbatim>\<open>save_to_disk\<close> with the temporary file and the rename, and
  \<^verbatim>\<open>load_from_disk\<close> with its two formats, which admits the transactions of the file one by one and takes
  back the ones it added when one is refused. The outcome of every file system call is an
  argument.
\<close>


section \<open>Saving\<close>

text \<open>The file and its temporary neighbour, and how the calls on them end.\<close>

record disk =
  dat_file :: "byte_string option"
  tmp_file :: "byte_string option"

record disk_io =
  io_create :: bool
  io_write :: bool
  io_written :: nat
  io_sync :: bool
  io_rename :: bool
  io_remove :: bool

definition save_entry :: "'a tx_api_scheme \<Rightarrow> mempool_manager \<Rightarrow> transaction \<Rightarrow> core_mempool_tx" where
  "save_entry P m tx =
     (let h = calculate_tx_id P tx in
      \<lparr> entry_tx = tx, entry_witnesses = get_transaction_witnesses m h, entry_time = 0,
        entry_fee_delta = get_fee_delta m h \<rparr>)"

definition save_dump :: "'a tx_api_scheme \<Rightarrow> mempool_manager \<Rightarrow> core_mempool_dat" where
  "save_dump P m = \<lparr> dat_txs = map (save_entry P m) (get_transactions m), dat_deltas = [], dat_unbroadcast = [] \<rparr>"

text \<open>\<^verbatim>\<open>let _ = remove_file(&tmp_path)\<close>\<close>

definition drop_tmp :: "disk_io \<Rightarrow> disk \<Rightarrow> disk" where
  "drop_tmp io d = (if io_remove io then d \<lparr> tmp_file := None \<rparr> else d)"

definition write_dat :: "disk_io \<Rightarrow> byte_string \<Rightarrow> disk \<Rightarrow> (unit, string) result \<times> disk" where
  "write_dat io bytes d =
     (if \<not> io_create io then (Err ''create'', d)
      else if \<not> io_write io then (Err ''write'', d \<lparr> tmp_file := Some (take (io_written io) bytes) \<rparr>)
      else if \<not> io_sync io then (Err ''sync'', d \<lparr> tmp_file := Some bytes \<rparr>)
      else if \<not> io_rename io then (Err ''rename'', d \<lparr> tmp_file := Some bytes \<rparr>)
      else (Ok (), d \<lparr> dat_file := Some bytes, tmp_file := None \<rparr>))"

definition save_to_disk ::
  "'a tx_api_scheme \<Rightarrow> disk_io \<Rightarrow> mempool_manager \<Rightarrow> disk \<Rightarrow> (unit, string) result \<times> disk" where
  "save_to_disk P io m d =
     (case (case encode P (save_dump P m) of Err e \<Rightarrow> (Err e, d) | Ok bytes \<Rightarrow> write_dat io bytes d) of
        (Ok u, d1) \<Rightarrow> (Ok u, d1)
      | (Err e, d1) \<Rightarrow> (Err e, drop_tmp io d1))"


section \<open>Loading\<close>

type_synonym load_result = "(unit, decode_failure) result \<times> mempool_manager"

text \<open>The rollback: the transactions this load added, last first.\<close>

definition take_back :: "hash list \<Rightarrow> mempool_manager \<Rightarrow> mempool_manager" where
  "take_back added m = remove_all (rev added) m"

fun admit_entries ::
  "'a protocol_scheme \<Rightarrow> u64 \<Rightarrow> hash list \<Rightarrow> core_mempool_tx list \<Rightarrow> mempool_manager \<Rightarrow> load_result" where
  "admit_entries P now added [] m = (Ok (), m)"
| "admit_entries P now added (e # es) m =
     (let h = calculate_tx_id P (entry_tx e) in
      case add_transaction_with_witness P now (entry_tx e) (entry_witnesses e) m of
        (Ok True, m1) \<Rightarrow>
          let m2 = (if entry_fee_delta e \<noteq> 0 then snd (prioritise_transaction h (entry_fee_delta e) m1) else m1)
          in admit_entries P now (added @ [h]) es m2
      | (Ok False, m1) \<Rightarrow>
          (Err (Refused ''mempool.dat transaction was refused by policy''), take_back added m1)
      | (Err err, m1) \<Rightarrow> (Err (Refused err), take_back added m1))"

definition apply_delta :: "mempool_manager \<Rightarrow> hash \<times> int \<Rightarrow> mempool_manager" where
  "apply_delta m d = (if snd d \<noteq> 0 then snd (prioritise_transaction (fst d) (snd d) m) else m)"

definition admit_core_dump ::
  "'a protocol_scheme \<Rightarrow> u64 \<Rightarrow> core_mempool_dat \<Rightarrow> mempool_manager \<Rightarrow> load_result" where
  "admit_core_dump P now dump m =
     (case admit_entries P now [] (dat_txs dump) m of
        (Err err, m1) \<Rightarrow> (Err err, m1)
      | (Ok _, m1) \<Rightarrow> (Ok (), foldl apply_delta m1 (dat_deltas dump)))"

definition decode_persisted_tx ::
  "'a tx_api_scheme \<Rightarrow> byte_string \<Rightarrow> (transaction \<times> witness list option, decode_failure) result" where
  "decode_persisted_tx P bytes =
     (case deserialize_transaction_with_witness P bytes of
        Err e \<Rightarrow> Err (Refused (''mempool persist decode: '' @ e))
      | Ok (tx, ws, _) \<Rightarrow> Ok (tx, kept_witnesses ws))"

definition encode_persisted_tx ::
  "'a tx_api_scheme \<Rightarrow> transaction \<Rightarrow> witness list option \<Rightarrow> (byte_string, string) result" where
  "encode_persisted_tx P tx wits =
     (case wits of
        Some ws \<Rightarrow> (case serialize_transaction_with_witness P tx ws of
            Err e \<Rightarrow> Err (''mempool persist encode: '' @ e) | Ok bs \<Rightarrow> Ok bs)
      | None \<Rightarrow> Ok (serialize_transaction P tx))"

fun decode_legacy ::
  "'a tx_api_scheme \<Rightarrow> nat \<Rightarrow> byte_string \<Rightarrow> (package, decode_failure) result" where
  "decode_legacy P 0 data = Ok []"
| "decode_legacy P (Suc n) data =
     (if length data < 4 then Err (Refused ''mempool file transaction length is truncated'')
      else
        let len = from_le_bytes (take 4 data); data1 = drop 4 data in
        if length data1 < len then Err (Refused ''mempool file transaction is truncated'')
        else case decode_persisted_tx P (take len data1) of
          Err e \<Rightarrow> Err e
        | Ok tx \<Rightarrow>
            (case decode_legacy P n (drop len data1) of
               Err e \<Rightarrow> Err e
             | Ok txs \<Rightarrow> Ok (tx # txs)))"

fun admit_legacy ::
  "'a protocol_scheme \<Rightarrow> u64 \<Rightarrow> hash list \<Rightarrow> package \<Rightarrow> mempool_manager \<Rightarrow> load_result" where
  "admit_legacy P now added [] m = (Ok (), m)"
| "admit_legacy P now added ((tx, wits) # txs) m =
     (case add_transaction_with_witness P now tx wits m of
        (Ok True, m1) \<Rightarrow> admit_legacy P now (added @ [calculate_tx_id P tx]) txs m1
      | (Ok False, m1) \<Rightarrow> (Err (Refused ''mempool load refused a transaction''), take_back added m1)
      | (Err err, m1) \<Rightarrow> (Err (Refused err), take_back added m1))"

definition load_legacy_bytes ::
  "'a protocol_scheme \<Rightarrow> dat_memory \<Rightarrow> u64 \<Rightarrow> byte_string \<Rightarrow> mempool_manager \<Rightarrow> load_result" where
  "load_legacy_bytes P mem now data m =
     (if length data < 4 then (Err (Refused ''mempool file is shorter than a count''), m)
      else
        let count = from_le_bytes (take 4 data) in
        case with_capacity (tx_slots mem) count (decode_legacy P count (drop 4 data)) of
          Err e \<Rightarrow> (Err e, m)
        | Ok decoded \<Rightarrow> admit_legacy P now [] decoded m)"

text \<open>\<open>file\<close> is what reading the path returns.\<close>

definition load_from_disk ::
  "'a protocol_scheme \<Rightarrow> dat_memory \<Rightarrow> u64 \<Rightarrow> (byte_string, string) result \<Rightarrow> mempool_manager \<Rightarrow> load_result" where
  "load_from_disk P mem now file m =
     (case file of
        Err e \<Rightarrow> (Err (Refused e), m)
      | Ok bytes \<Rightarrow>
          if length bytes \<ge> 8 \<and> u64_of (take 8 bytes) \<in> {1, 2} then
            (case decode P mem bytes of
               Err e \<Rightarrow> (Err e, m)
             | Ok dump \<Rightarrow> admit_core_dump P now dump m)
          else load_legacy_bytes P mem now bytes m)"


section \<open>What a save leaves behind\<close>

text \<open>
  C30. A save never leaves a damaged file: when it reports success the file holds the complete
  encoding of the pool and the temporary file is gone, and when it reports an error the file
  is what it was before.
\<close>

theorem save_is_atomic:
  "case save_to_disk P io m d of
     (Ok _, d') \<Rightarrow> \<exists>bytes. encode P (save_dump P m) = Ok bytes \<and> dat_file d' = Some bytes \<and> tmp_file d' = None
   | (Err _, d') \<Rightarrow> dat_file d' = dat_file d"
proof (cases "encode P (save_dump P m)")
  case (Inl e)
  then show ?thesis by (simp add: save_to_disk_def drop_tmp_def)
next
  case (Inr bytes)
  then show ?thesis by (simp add: save_to_disk_def drop_tmp_def write_dat_def)
qed


section \<open>What a load leaves behind\<close>

lemma prioritise_fields [simp]:
  "transactions (snd (prioritise_transaction h d m)) = transactions m"
  "spenders (snd (prioritise_transaction h d m)) = spenders m"
  "pooled (snd (prioritise_transaction h d m)) = pooled m"
  by (simp_all add: prioritise_transaction_def invalidate_fee_ranking_def pooled_def)

lemma admit_entries_bound:
  "admit_entries P now added es m = (r, m') \<Longrightarrow>
    pooled m' \<subseteq> (if r = Ok () then pooled m \<union> (\<lambda>e. calculate_tx_id P (entry_tx e)) ` set es
                 else pooled m - set added)"
proof (induction es arbitrary: added m)
  case (Cons e es)
  let ?h = "calculate_tx_id P (entry_tx e)"
  obtain a m1 where add: "add_transaction_with_witness P now (entry_tx e) (entry_witnesses e) m = (a, m1)"
    by fastforce
  note b = add_pooled_bound [OF add]
  show ?case
  proof (cases "a = Ok True")
    case True
    let ?m2 = "if entry_fee_delta e \<noteq> 0 then snd (prioritise_transaction ?h (entry_fee_delta e) m1) else m1"
    have "admit_entries P now (added @ [?h]) es ?m2 = (r, m')"
      using Cons.prems by (simp add: add True Let_def)
    from Cons.IH [OF this] b True show ?thesis by (auto split: if_splits)
  next
    case False
    then have "r \<noteq> Ok ()" "m' = take_back added m1"
      using Cons.prems by (auto simp: add Let_def split: sum.splits bool.splits)
    with b False show ?thesis by (auto simp: take_back_def remove_all_pooled)
  qed
qed simp

text \<open>Transactions that compete neither with each other nor with the pool.\<close>

definition no_competition :: "core_mempool_tx list \<Rightarrow> mempool_manager \<Rightarrow> bool" where
  "no_competition es m \<longleftrightarrow>
     distinct (concat (map (\<lambda>e. prevouts (entry_tx e)) es))
   \<and> (\<forall>e \<in> set es. \<forall>op \<in> set (prevouts (entry_tx e)). hm_get (spenders m) op = None)"

lemma admit_entries_exact:
  "admit_entries P now added es m = (r, m') \<Longrightarrow> no_competition es m \<Longrightarrow>
    pooled m' = (if r = Ok () then pooled m \<union> (\<lambda>e. calculate_tx_id P (entry_tx e)) ` set es
                 else pooled m - set added)"
proof (induction es arbitrary: added m)
  case (Cons e es)
  let ?h = "calculate_tx_id P (entry_tx e)"
  obtain a m1 where add: "add_transaction_with_witness P now (entry_tx e) (entry_witnesses e) m = (a, m1)"
    by fastforce
  have "\<forall>op \<in> set (prevouts (entry_tx e)). hm_get (spenders m) op = None"
    using Cons.prems(2) by (simp add: no_competition_def)
  note b = add_without_conflict [OF add this]
  show ?case
  proof (cases "a = Ok True")
    case True
    let ?m2 = "if entry_fee_delta e \<noteq> 0 then snd (prioritise_transaction ?h (entry_fee_delta e) m1) else m1"
    have "mm_dom (spenders ?m2) = set (prevouts (entry_tx e)) \<union> mm_dom (spenders m)"
      using b True by simp
    then have "no_competition es ?m2"
      using Cons.prems(2) by (fastforce simp: no_competition_def mm_dom_def)
    moreover have "admit_entries P now (added @ [?h]) es ?m2 = (r, m')"
      using Cons.prems(1) by (simp add: add True Let_def)
    ultimately show ?thesis using Cons.IH b True by (auto split: if_splits)
  next
    case False
    then have "r \<noteq> Ok ()" "m' = take_back added m1"
      using Cons.prems(1) by (auto simp: add Let_def split: sum.splits bool.splits)
    with b False show ?thesis by (auto simp: take_back_def remove_all_pooled)
  qed
qed simp

lemma apply_deltas_fields [simp]:
  "pooled (foldl apply_delta m ds) = pooled m" "transactions (foldl apply_delta m ds) = transactions m"
  by (induction ds arbitrary: m) (simp_all add: apply_delta_def)

text \<open>The older format is the same loop without fee deltas, up to the text of the refusal.\<close>

definition legacy_entry :: "transaction \<times> witness list option \<Rightarrow> core_mempool_tx" where
  "legacy_entry e = \<lparr> entry_tx = fst e, entry_witnesses = snd e, entry_time = 0, entry_fee_delta = 0 \<rparr>"

lemma admit_legacy_eq:
  "snd (admit_legacy P now added txs m) = snd (admit_entries P now added (map legacy_entry txs) m)
   \<and> (fst (admit_legacy P now added txs m) = Ok () \<longleftrightarrow> fst (admit_entries P now added (map legacy_entry txs) m) = Ok ())"
proof (induction txs arbitrary: added m)
  case (Cons e txs)
  then show ?case
    by (cases e; cases "add_transaction_with_witness P now (fst e) (snd e) m"; cases "fst (add_transaction_with_witness P now (fst e) (snd e) m)")
      (auto simp: legacy_entry_def Let_def split: bool.splits)
qed simp

text \<open>An invariant that admission keeps and that does not depend on the priorities is kept by a load.\<close>

locale ranked_invariant = pool_invariant +
  assumes inv_prioritise: "inv m \<Longrightarrow> inv (snd (prioritise_transaction h d m))"
begin

lemma admit_entries_keeps_inv: "inv m \<Longrightarrow> inv (snd (admit_entries P now added es m))"
proof (induction es arbitrary: added m)
  case (Cons e es)
  have "inv (snd (add_transaction_with_witness P now (entry_tx e) (entry_witnesses e) m))"
    by (rule add_keeps_inv [OF Cons.prems])
  then show ?case
    by (auto simp: Let_def take_back_def remove_all_keeps_inv inv_prioritise Cons.IH
        split: prod.splits sum.splits bool.splits)
qed simp

lemma apply_deltas_keeps_inv: "inv m \<Longrightarrow> inv (foldl apply_delta m ds)"
  by (rule foldl_invariant) (simp_all add: apply_delta_def inv_prioritise)

lemma core_dump_keeps_inv: "inv m \<Longrightarrow> inv (snd (admit_core_dump P now dump m))"
  using admit_entries_keeps_inv [of m now "[]" "dat_txs dump"]
  by (auto simp: admit_core_dump_def apply_deltas_keeps_inv split: sum.splits prod.splits)

lemma legacy_keeps_inv: "inv m \<Longrightarrow> inv (snd (admit_legacy P now added txs m))"
  by (simp add: admit_legacy_eq admit_entries_keeps_inv)

lemma load_keeps_inv: "inv m \<Longrightarrow> inv (snd (load_from_disk P mem now file m))"
  by (auto simp: load_from_disk_def load_legacy_bytes_def Let_def core_dump_keeps_inv legacy_keeps_inv
      split: sum.splits)

end

lemma prioritise_tables: "pool_inv P m \<Longrightarrow> pool_inv P (snd (prioritise_transaction h d m))"
  by (auto simp: pool_inv_def spend_inv_def table_inv_def graph_inv_def fee_inv_def prioritise_transaction_def
      invalidate_fee_ranking_def pooled_def mm_dom_fst)

interpretation ranked_spends: ranked_invariant P "spend_inv P" for P
  by unfold_locales (simp add: spend_inv_def prioritise_transaction_def invalidate_fee_ranking_def)

interpretation ranked_tables: ranked_invariant P "pool_inv P" for P
  by unfold_locales (rule prioritise_tables)

interpretation ranked_valids: ranked_invariant P "valid_inv P" for P
  by unfold_locales
    (simp add: valid_inv_def spend_inv_def prioritise_transaction_def invalidate_fee_ranking_def)

lemma admit_core_dump_fst:
  "fst (admit_core_dump P now dump m) = fst (admit_entries P now [] (dat_txs dump) m)"
  "pooled (snd (admit_core_dump P now dump m)) = pooled (snd (admit_entries P now [] (dat_txs dump) m))"
  by (auto simp: admit_core_dump_def split: sum.splits prod.splits)

lemma load_from_disk_cases:
  assumes "load_from_disk P mem now file m = (r, m')"
  obtains (unread) "r \<noteq> Ok ()" "m' = m"
  | (core) dump where "admit_core_dump P now dump m = (r, m')"
  | (legacy) txs where "admit_legacy P now [] txs m = (r, m')"
  using assms by (auto simp: load_from_disk_def load_legacy_bytes_def Let_def split: sum.splits if_splits)

text \<open>
  C32. A load keeps the pool invariant, whatever the file holds, and a load that fails adds
  nothing: every transaction pooled afterwards was pooled before.
\<close>

theorem load_rolls_back:
  assumes "pool_inv P m" "load_from_disk P mem now file m = (r, m')"
  shows "pool_inv P m' \<and> (r \<noteq> Ok () \<longrightarrow> pooled m' \<subseteq> pooled m)"
proof -
  have inv: "pool_inv P m'" using ranked_tables.load_keeps_inv [OF assms(1), of mem now "file"] assms(2) by simp
  have entries: "pooled (snd (admit_entries P now [] es m)) \<subseteq> pooled m"
    if "fst (admit_entries P now [] es m) \<noteq> Ok ()" for es
    using admit_entries_bound [of P now "[]" es m] that by (cases "admit_entries P now [] es m") auto
  have "pooled m' \<subseteq> pooled m" if "r \<noteq> Ok ()"
    using assms(2)
  proof (cases rule: load_from_disk_cases)
    case (core dump)
    then show ?thesis using entries [of "dat_txs dump"] admit_core_dump_fst [of P now dump m] that by simp
  next
    case (legacy txs)
    then show ?thesis using entries [of "map legacy_entry txs"] admit_legacy_eq [of P now "[]" txs m] that by simp
  qed simp
  with inv show ?thesis by blast
qed

theorem load_rolls_back_witness:
  "pool_inv demo (snd (load_from_disk demo demo_memory 30 (Ok [9]) demo_pool))
   \<and> pooled (snd (load_from_disk demo demo_memory 30 (Ok [9]) demo_pool)) \<subseteq> {1, 2}"
proof -
  let ?l = "load_from_disk demo demo_memory 30 (Ok [9]) demo_pool"
  have "fst ?l \<noteq> Ok ()" by (simp add: load_from_disk_def load_legacy_bytes_def)
  with load_rolls_back [OF demo_pool_inv, of demo_memory 30 "Ok [9]" "fst ?l" "snd ?l"] show ?thesis by simp
qed

text \<open>A transaction admitted without conflicts is recorded with its witnesses, and no other entry changes.\<close>

lemma added_fields:
  assumes "add_transaction_with_witness P now tx wits m = (Ok True, m')"
    and "\<forall>op \<in> set (prevouts tx). hm_get (spenders m) op = None"
  shows "transactions m' = hm_insert (calculate_tx_id P tx) tx (transactions m)"
    "tx_witnesses m' = (case wits of None \<Rightarrow> tx_witnesses m | Some ws \<Rightarrow> hm_insert (calculate_tx_id P tx) ws (tx_witnesses m))"
    "fee_deltas m' = fee_deltas m"
proof -
  have d: "direct_conflicts m tx = []" using assms(2) by (simp add: no_direct_conflicts)
  from assms(1) obtain us wired fee rate m1
    where r: "resolve_conflicts P now m (policy m) tx wits us (fst (admit_vsize P m tx wits us)) = (Ok True, m1)"
      and m': "m' = insert_admitted P now (calculate_tx_id P tx) (calculate_wtxid P tx wits) tx wits
         fee (fst (admit_vsize P m tx wits us)) rate m1"
    by (cases rule: add_transaction_cases) auto
  have "m1 = m" using resolve_conflicts_spec(2) [OF r _ d] by simp
  then show "transactions m' = hm_insert (calculate_tx_id P tx) tx (transactions m)"
    "tx_witnesses m' = (case wits of None \<Rightarrow> tx_witnesses m | Some ws \<Rightarrow> hm_insert (calculate_tx_id P tx) ws (tx_witnesses m))"
    "fee_deltas m' = fee_deltas m"
    by (simp_all add: m' insert_admitted_fields)
qed

text \<open>Entries of one pool: of different transactions, none of which spends what another or the pool spends.\<close>

definition separate :: "'a tx_api_scheme \<Rightarrow> core_mempool_tx list \<Rightarrow> mempool_manager \<Rightarrow> bool" where
  "separate P es m \<longleftrightarrow>
     distinct (map (calculate_tx_id P \<circ> entry_tx) es)
   \<and> sorted_wrt (\<lambda>e e'. set (prevouts (entry_tx e)) \<inter> set (prevouts (entry_tx e')) = {}) es
   \<and> (\<forall>e \<in> set es. \<forall>op \<in> set (prevouts (entry_tx e)). hm_get (spenders m) op = None)
   \<and> (\<forall>e \<in> set es. hm_get (tx_witnesses m) (calculate_tx_id P (entry_tx e)) = None
        \<and> hm_get (fee_deltas m) (calculate_tx_id P (entry_tx e)) = None \<and> i64_range (entry_fee_delta e))"

text \<open>What a pool records of one transaction.\<close>

definition pool_record :: "mempool_manager \<Rightarrow> hash \<Rightarrow> transaction option \<times> witness list option \<times> int" where
  "pool_record m h = (hm_get (transactions m) h, get_transaction_witnesses m h, get_fee_delta m h)"

lemma admit_entry:
  fixes P :: "'a protocol_scheme" and e m1
  assumes "add_transaction_with_witness P now (entry_tx e) (entry_witnesses e) m = (Ok True, m1)" "separate P (e # es) m"
  defines "h \<equiv> calculate_tx_id P (entry_tx e)"
  defines "m2 \<equiv> if entry_fee_delta e \<noteq> 0 then snd (prioritise_transaction h (entry_fee_delta e) m1) else m1"
  shows "separate P es m2"
    and "pool_record m2 g = (if g = h then (Some (entry_tx e), entry_witnesses e, entry_fee_delta e) else pool_record m g)"
proof -
  have free: "\<forall>op \<in> set (prevouts (entry_tx e)). hm_get (spenders m) op = None"
    and none: "hm_get (tx_witnesses m) h = None" "hm_get (fee_deltas m) h = None" "i64_range (entry_fee_delta e)"
    using assms(2) by (simp_all add: separate_def h_def)
  note A = added_fields [OF assms(1) free, folded h_def]
  have "hm_contains (transactions m1) h" by (simp add: A(1) mm_dom_fst)
  then have two: "transactions m2 = transactions m1" "spenders m2 = spenders m1" "tx_witnesses m2 = tx_witnesses m1"
    "hm_get (fee_deltas m2) g =
       (if g = h \<and> entry_fee_delta e \<noteq> 0 then Some (entry_fee_delta e) else hm_get (fee_deltas m) g)" for g
    using none A(1,3)
    by (auto simp: m2_def prioritise_transaction_def invalidate_fee_ranking_def hm_get_or_def
        update_conv' i64_saturating_add_def i64_range_def)
  have "hm_get (spenders m1) op = None \<longleftrightarrow> op \<notin> set (prevouts (entry_tx e)) \<and> hm_get (spenders m) op = None" for op
    using add_without_conflict [OF assms(1) free] by (auto simp: mm_dom_def)
  moreover have other: "calculate_tx_id P (entry_tx e') \<noteq> h" if "e' \<in> set es" for e'
    using assms(2) that by (force simp: separate_def h_def)
  moreover have "hm_get (tx_witnesses m2) (calculate_tx_id P (entry_tx e')) = None
      \<and> hm_get (fee_deltas m2) (calculate_tx_id P (entry_tx e')) = None" if "e' \<in> set es" for e'
    using assms(2) that two(3,4) A(2) other [OF that] by (simp add: separate_def update_conv' split: option.split)
  ultimately show "separate P es m2"
    using assms(2) two(2) by (simp add: separate_def disjoint_iff) blast
  show "pool_record m2 g = (if g = h then (Some (entry_tx e), entry_witnesses e, entry_fee_delta e) else pool_record m g)"
    using two A(1,2) none
    by (auto simp: pool_record_def get_transaction_witnesses_def get_fee_delta_def hm_get_or_def update_conv'
        split: option.split)
qed

lemma admit_entries_records:
  assumes "admit_entries P now added es m = (Ok (), m')" "separate P es m"
  shows "(\<forall>e \<in> set es. pool_record m' (calculate_tx_id P (entry_tx e))
        = (Some (entry_tx e), entry_witnesses e, entry_fee_delta e))
    \<and> (\<forall>h. h \<notin> (calculate_tx_id P \<circ> entry_tx) ` set es \<longrightarrow> pool_record m' h = pool_record m h)"
  using assms
proof (induction es arbitrary: added m)
  case (Cons e es)
  let ?h = "calculate_tx_id P (entry_tx e)"
  obtain m1 where add: "add_transaction_with_witness P now (entry_tx e) (entry_witnesses e) m = (Ok True, m1)"
    using Cons.prems(1) by (auto simp: Let_def split: prod.splits sum.splits bool.splits)
  let ?m2 = "if entry_fee_delta e \<noteq> 0 then snd (prioritise_transaction ?h (entry_fee_delta e) m1) else m1"
  note E = admit_entry [OF add Cons.prems(2)]
  have rest: "admit_entries P now (added @ [?h]) es ?m2 = (Ok (), m')"
    using Cons.prems(1) by (simp add: add Let_def)
  have "?h \<notin> (calculate_tx_id P \<circ> entry_tx) ` set es" using Cons.prems(2) by (simp add: separate_def)
  with Cons.IH [OF rest E(1)] E(2) show ?case by auto
qed simp

lemma saved_separate:
  assumes "spend_inv P m" "pool_inv P m2" "pooled m2 = {}" "dump_ok P mem (save_dump P m)"
  shows "separate P (dat_txs (reloaded (save_dump P m))) m2"
proof -
  have id: "calculate_tx_id P tx = h" if "(h, tx) \<in> set (transactions m)" for h tx
    using assms(1) that by (auto simp: spend_inv_def hm_wf_def)
  have keys: "distinct (map fst (transactions m))" using assms(1) by (simp add: spend_inv_def hm_wf_def)
  have empty: "transactions m2 = []" "tx_witnesses m2 = []" "fee_deltas m2 = []"
    using assms(2,3) by (auto simp: pooled_def mm_dom_fst [symmetric] pool_inv_def table_inv_def)
  have "hm_get (spenders m2) op = None" for op
    using assms(2) empty(1) by (cases "hm_get (spenders m2) op") (auto simp: pool_inv_def spend_inv_def)
  moreover have "distinct (map (\<lambda>e. calculate_tx_id P (snd e)) (transactions m))"
    using keys id by (subst map_cong [OF refl, of _ _ fst]) auto
  moreover have "sorted_wrt (\<lambda>x y. set (prevouts (snd x)) \<inter> set (prevouts (snd y)) = {}) (transactions m)"
  proof -
    have "set (prevouts (snd x)) \<inter> set (prevouts (snd y)) = {}"
      if "x \<in> set (transactions m)" "y \<in> set (transactions m)" "fst x \<noteq> fst y" for x y
    proof -
      have "hm_get (spenders m) op = Some (fst z)" if "op \<in> set (prevouts (snd z))" "z \<in> set (transactions m)" for op z
        using assms(1) that keys unfolding spend_inv_def by (metis map_of_is_SomeI prod.collapse)
      with that show ?thesis by (metis disjoint_iff option.inject)
    qed
    with keys show ?thesis by (auto simp: sorted_wrt_iff_nth_less distinct_conv_nth)
  qed
  ultimately show ?thesis
    using keys empty assms(4)
    by (auto simp: separate_def reloaded_def save_dump_def save_entry_def Let_def get_transactions_def sorted_wrt_map
        comp_def dump_ok_def list_all_iff)
qed

lemma saved_load:
  assumes "save_to_disk P io m d = (Ok (), d')" "dump_ok P mem (save_dump P m)"
  obtains bytes where "dat_file d' = Some bytes"
    and "\<And>m2. load_from_disk P mem now (Ok bytes) m2 = admit_entries P now [] (dat_txs (reloaded (save_dump P m))) m2"
proof -
  let ?d = "reloaded (save_dump P m)"
  obtain body where b: "encode P (save_dump P m) = Ok (u64_le 1 @ body)" and r: "decode P mem (u64_le 1 @ body) = Ok ?d"
    using dump_codec [OF assms(2)] by (metis append.right_neutral)
  show thesis
  proof (rule that)
    show "dat_file d' = Some (u64_le 1 @ body)"
      using assms(1) b by (auto simp: save_to_disk_def write_dat_def split: if_splits)
    show "load_from_disk P mem now (Ok (u64_le 1 @ body)) m2 = admit_entries P now [] (dat_txs ?d) m2" for m2
      using r by (auto simp: load_from_disk_def admit_core_dump_def reloaded_def save_dump_def split: prod.split sum.split)
  qed
qed

text \<open>
  C31. What a successful save wrote, a load into an empty pool restores, or else the load fails and the pool stays
  empty: when the load succeeds the pool holds the saved transactions and no others, each with its fee delta and its
  witnesses, where stacks that are all empty come back as no witnesses. The saved deltas and the transaction codec
  are as the file format requires, and the file fits in memory.
\<close>

theorem save_then_load:
  assumes "spend_inv P m" "save_to_disk P io m d = (Ok (), d')" "dump_ok P mem (save_dump P m)"
    and "pool_inv P m2" "pooled m2 = {}"
  shows "\<exists>bytes. dat_file d' = Some bytes
    \<and> (case load_from_disk P mem now (Ok bytes) m2 of
         (Ok _, m3) \<Rightarrow> pooled m3 = pooled m
           \<and> (\<forall>h \<in> pooled m. hm_get (transactions m3) h = hm_get (transactions m) h
                \<and> get_transaction_witnesses m3 h = Option.bind (get_transaction_witnesses m h) kept_witnesses
                \<and> get_fee_delta m3 h = get_fee_delta m h)
       | (Err _, m3) \<Rightarrow> pooled m3 = {})"
proof -
  let ?d = "reloaded (save_dump P m)"
  obtain bytes where "dat_file d' = Some bytes"
    and "\<And>m2. load_from_disk P mem now (Ok bytes) m2 = admit_entries P now [] (dat_txs ?d) m2"
    by (rule saved_load [OF assms(2,3)]) (rule that)
  moreover have "pooled m3 = pooled m
      \<and> (\<forall>h \<in> pooled m. hm_get (transactions m3) h = hm_get (transactions m) h
           \<and> get_transaction_witnesses m3 h = Option.bind (get_transaction_witnesses m h) kept_witnesses
           \<and> get_fee_delta m3 h = get_fee_delta m h)"
    if ok: "admit_entries P now [] (dat_txs ?d) m2 = (Ok (), m3)" for m3
  proof -
    have ids: "calculate_tx_id P tx = h" if "hm_get (transactions m) h = Some tx" for h tx
      using assms(1) that by (auto simp: spend_inv_def)
    note R = admit_entries_records [OF ok saved_separate [OF assms(1,4,5,3)]]
    have rec: "pool_record m3 h = (Some tx, Option.bind (get_transaction_witnesses m h) kept_witnesses, get_fee_delta m h)"
      if "hm_get (transactions m) h = Some tx" for h tx
      using R ids [OF that] map_of_SomeD [OF that]
      by (force simp: reloaded_def save_dump_def save_entry_def Let_def get_transactions_def)
    have "hm_get (transactions m3) h = None" if "hm_get (transactions m) h = None" for h
    proof -
      have "h \<notin> (calculate_tx_id P \<circ> entry_tx) ` set (dat_txs ?d)"
        using that assms(1) unfolding spend_inv_def hm_wf_def
        by (auto simp: reloaded_def save_dump_def save_entry_def Let_def get_transactions_def)
      moreover have "hm_get (transactions m2) h = None" using assms(5) by (auto simp: pooled_def mm_dom_def)
      ultimately show ?thesis using R by (simp add: pool_record_def)
    qed
    with rec show ?thesis by (fastforce simp: pool_record_def pooled_def mm_dom_def)
  qed
  moreover have "pooled m3 = {}" if "admit_entries P now [] (dat_txs ?d) m2 = (Err e, m3)" for e m3
    using admit_entries_bound [OF that] assms(5) by simp
  ultimately show ?thesis by (auto split: prod.split sum.split)
qed

text \<open>
  A codec that reads one transaction with a witness back, a pool that holds it with a fee delta, an empty pool with
  the coin it spends, and calls that all succeed.
\<close>

definition store_demo :: protocol where
  "store_demo = demo
     \<lparr> serialize_transaction_with_witness := (\<lambda>tx ws. Ok (replicate 8 0)),
       deserialize_transaction_with_witness := (\<lambda>bs. Ok (demo_parent, [[[1]]], 8)) \<rparr>"

definition demo_empty :: mempool_manager where
  "demo_empty = new_mempool
     \<lparr> policy_config := Some (default_policy \<lparr> require_standard := False \<rparr>), utxo_set_arc := Some (False, demo_utxos) \<rparr>"

definition demo_saved :: mempool_manager where
  "demo_saved = snd (prioritise_transaction 1 (- 25)
     (insert_admitted store_demo 10 1 11 demo_parent (Some [[[1]]]) 10000 100 100 new_mempool))"

definition demo_io :: disk_io where
  "demo_io = \<lparr> io_create = True, io_write = True, io_written = 0, io_sync = True, io_rename = True, io_remove = True \<rparr>"

lemma demo_saved_inv: "pool_inv store_demo demo_saved" "pool_inv store_demo demo_empty" "pooled demo_empty = {}"
proof -
  have new: "pool_inv store_demo new_mempool" using new_pool_inv [of store_demo None] by (simp add: new_mempool_def)
  show "pool_inv store_demo demo_saved"
    unfolding demo_saved_def by (intro prioritise_tables pool_inv_insert [OF new]) (simp_all add: store_demo_def)
  show "pool_inv store_demo demo_empty"
    by (rule tables.inv_core [OF new]) (simp add: demo_empty_def same_core_def)
  show "pooled demo_empty = {}" using new_mempool_fields(3) by (simp add: demo_empty_def pooled_def)
qed

lemma demo_saved_dump:
  "save_dump store_demo demo_saved =
    \<lparr> dat_txs = [\<lparr> entry_tx = demo_parent, entry_witnesses = Some [[[1]]], entry_time = 0, entry_fee_delta = - 25 \<rparr>],
      dat_deltas = [], dat_unbroadcast = [] \<rparr>"
  by (simp add: save_dump_def demo_saved_def prioritise_transaction_def invalidate_fee_ranking_def mp_fields
      get_transactions_def save_entry_def get_transaction_witnesses_def get_fee_delta_def hm_get_or_def
      i64_saturating_add_def i64_min_def i64_max_def store_demo_def)

lemma demo_saved_ok: "dump_ok store_demo demo_memory (save_dump store_demo demo_saved)"
  unfolding demo_saved_dump
  by (simp add: dump_ok_def demo_memory_def wire_codec_def i64_range_def i64_min_def i64_max_def store_demo_def)

lemma demo_saved_reloaded: "reloaded (save_dump store_demo demo_saved) = save_dump store_demo demo_saved"
  by (simp add: demo_saved_dump reloaded_def kept_witnesses_def)

lemma demo_empty_fields:
  "transactions demo_empty = []" "spenders demo_empty = []" "chain_tip demo_empty = None" "storage demo_empty = None"
  "mgr_rbf_config demo_empty = None" "utxo_set_arc demo_empty = Some (False, demo_utxos)"
  "policy demo_empty = default_policy \<lparr> require_standard := False \<rparr>"
  "policy_config demo_empty = Some (default_policy \<lparr> require_standard := False \<rparr>)" "spent_outputs demo_empty = []"
  by (simp_all add: demo_empty_def policy_def)

lemma demo_parent_fields:
  "inputs demo_parent = [demo_input demo_coin]" "version demo_parent = 2"
  "outputs demo_parent = [\<lparr> out_value = 90000, script_pubkey = [0, 1] \<rparr>]"
  by (simp_all add: demo_parent_def demo_spend_def)

lemma demo_parent_size: "admit_vsize store_demo demo_empty demo_parent (Some [[[1]]]) demo_utxos = (100, 0)"
  by (simp add: admit_vsize_def Let_def transaction_weight_def store_demo_def demo_def div_ceil_def default_policy_def
      demo_empty_fields)

lemma demo_parent_fee: "calculate_transaction_fee store_demo demo_empty demo_parent demo_utxos = 10000"
proof -
  have money: "money_range store_demo" by (simp add: money_range_def i64_max_def store_demo_def)
  show ?thesis
    by (rule unat_eqI, subst calculate_transaction_fee_eq [OF money])
      (simp add: Let_def known_value_def input_sats_def money_sats_def as_u64_def demo_utxo demo_parent_fields store_demo_def)
qed

lemma demo_parent_checked:
  "admission_checked store_demo demo_empty demo_parent (Some [[[1]]]) demo_utxos True 10000 100"
proof -
  let ?m = "demo_empty" and ?w = "Some [[[1]]]"
  note m = demo_empty_fields and tx = demo_parent_fields
  have "admission_snapshot ?m demo_parent = Some (demo_utxos, True)"
    by (simp add: admission_snapshot_def demo_utxo fill_snapshot_misses_def m) (simp add: demo_utxos_def)
  moreover have "\<not> structure_rejects store_demo ?m demo_parent ?w"
    by (simp add: structure_rejects_def tx m max_mempool_bytes_of_def default_policy_def store_demo_def
      accounted_tx_bytes_def saturating_mul_def saturating_add_def demo_api)
  moreover have "\<not> standardness_rejects store_demo (policy ?m) demo_parent ?w"
    by (simp add: standardness_rejects_def default_policy_def m)
  moreover have "\<not> chain_rejects store_demo ?m demo_parent demo_utxos True"
    by (simp add: chain_rejects_def finality_context_def relative_lock_rejects_def tx m demo_utxo store_demo_def
      immature_coinbase_spend_def unknown_prevout_def prevout_value_out_of_range_def
      prevout_sum_exceeds_money_def outputs_exceed_inputs_def output_is_dust_def money_sats_def demo_api
      saturating_mul_def as_i64_def as_u64_def add_money_def checked_add_def output_sum_sats_def input_sats_def)
  moreover have "\<not> spend_rejects store_demo ?m (policy ?m) demo_parent ?w demo_utxos"
    by (simp add: spend_rejects_def Let_def demo_parent_size [unfolded store_demo_def] default_policy_def m store_demo_def
      consensus_checks_reject_def tx demo_api split: option.split)
  moreover have "fee_gate store_demo ?m (policy ?m) demo_parent demo_utxos True 100 = Some (10000, 100)"
    by (simp add: fee_gate_def demo_parent_fee Let_def default_policy_def relay_price_def m
      div_ceil_def saturating_mul_def)
  ultimately show ?thesis by (simp add: admission_checked_def demo_parent_size)
qed

lemma demo_parent_admitted:
  "fst (add_transaction_with_witness store_demo 30 demo_parent (Some [[[1]]]) demo_empty) = Ok True"
proof -
  let ?m = "demo_empty" and ?w = "Some [[[1]]]"
  note m = demo_empty_fields
  have "resolve_conflicts store_demo 30 ?m (policy ?m) demo_parent ?w demo_utxos 100 = (Ok True, ?m)"
    by (simp add: resolve_conflicts_def direct_conflicts_def displacement_set_def Let_def m)
  moreover have "check_ancestor_descendant_limits ?m demo_parent (policy ?m) 100"
  proof -
    have "mgr_package_preview ?m = empty_preview" by (simp add: demo_empty_def new_mempool_def with_rbf_config_def)
    moreover have "txs_this_replacement_removes ?m demo_parent = []"
      by (simp add: txs_this_replacement_removes_def packages_of_def direct_conflicts_def m)
    ultimately show ?thesis
      by (simp add: check_ancestor_descendant_limits_def Let_def limit_ancestors_def limit_seeds_def m
        limit_known_def empty_preview_def default_policy_def walk_mark.simps hs_extend_def not_less not_le)
  qed
  ultimately show ?thesis
    using demo_parent_checked
    by (simp add: add_transaction_with_witness_def admission_checked_def Let_def demo_parent_size demo_parent_fields)
qed

lemma demo_restored:
  "fst (admit_entries store_demo 30 [] (dat_txs (reloaded (save_dump store_demo demo_saved))) demo_empty) = Ok ()"
  using demo_parent_admitted unfolding demo_saved_reloaded
  by (cases "add_transaction_with_witness store_demo 30 demo_parent (Some [[[1]]]) demo_empty")
    (simp add: demo_saved_dump Let_def)

theorem save_then_load_witness:
  "\<exists>bytes m3. dat_file (snd (save_to_disk store_demo demo_io demo_saved \<lparr> dat_file = None, tmp_file = None \<rparr>)) = Some bytes
    \<and> load_from_disk store_demo demo_memory 30 (Ok bytes) demo_empty = (Ok (), m3)
    \<and> pooled m3 = {1} \<and> get_transaction_witnesses m3 1 = Some [[[1]]] \<and> get_fee_delta m3 1 = - 25"
proof -
  let ?s = "save_to_disk store_demo demo_io demo_saved \<lparr> dat_file = None, tmp_file = None \<rparr>"
  obtain body where "encode store_demo (save_dump store_demo demo_saved) = Ok (u64_le 1 @ body)"
    using dump_codec [OF demo_saved_ok] by blast
  then have "fst ?s = Ok ()" by (simp add: save_to_disk_def write_dat_def demo_io_def)
  then have s: "?s = (Ok (), snd ?s)" by (metis prod.collapse)
  obtain bytes where b: "dat_file (snd ?s) = Some bytes"
    and l: "\<And>m2. load_from_disk store_demo demo_memory 30 (Ok bytes) m2
      = admit_entries store_demo 30 [] (dat_txs (reloaded (save_dump store_demo demo_saved))) m2"
    by (rule saved_load [OF s demo_saved_ok]) (rule that)
  have "fst (load_from_disk store_demo demo_memory 30 (Ok bytes) demo_empty) = Ok ()"
    unfolding l by (rule demo_restored)
  then obtain m3 where m3: "load_from_disk store_demo demo_memory 30 (Ok bytes) demo_empty = (Ok (), m3)"
    by (metis prod.collapse)
  have fields: "pooled demo_saved = {1}" "get_transaction_witnesses demo_saved 1 = Some [[[1]]]" "get_fee_delta demo_saved 1 = - 25"
    by (simp_all add: demo_saved_def prioritise_transaction_def invalidate_fee_ranking_def mp_fields pooled_def
      mm_dom_fst [symmetric] get_transaction_witnesses_def get_fee_delta_def hm_get_or_def i64_saturating_add_def
      i64_min_def i64_max_def)
  have "spend_inv store_demo demo_saved" using demo_saved_inv(1) by (simp add: pool_inv_def)
  from save_then_load [OF this s demo_saved_ok demo_saved_inv(2,3), of 30] b m3 fields
  show ?thesis by (auto simp: kept_witnesses_def)
qed

text \<open>
  When the transactions of a file compete neither with each other nor with the pool, loading
  it is all or nothing: success pools every one of them and failure leaves the pooled set unchanged.
\<close>

lemma core_dump_all_or_nothing:
  assumes "no_competition (dat_txs dump) m" "admit_core_dump P now dump m = (r, m')"
  shows "pooled m' = (if r = Ok () then pooled m \<union> (\<lambda>e. calculate_tx_id P (entry_tx e)) ` set (dat_txs dump)
    else pooled m)"
  using admit_entries_exact [of P now "[]" "dat_txs dump" m, OF _ assms(1)] admit_core_dump_fst [of P now dump m]
    assms(2)
  by (cases "admit_entries P now [] (dat_txs dump) m") auto

lemma core_dump_all_or_nothing_witness:
  "pooled (snd (admit_core_dump demo 30 demo_dump demo_pool)) = {1, 2}"
proof -
  have "structure_rejects demo demo_pool (entry_tx (hd (dat_txs demo_dump))) w" for w
    by (simp add: structure_rejects_def demo_dump_def)
  then have "fst (admit_core_dump demo 30 demo_dump demo_pool) \<noteq> Ok ()"
    by (simp add: admit_core_dump_def demo_dump_def add_transaction_with_witness_def Let_def)
  moreover have "no_competition (dat_txs demo_dump) demo_pool"
    by (simp add: no_competition_def demo_dump_def prevouts_def)
  ultimately show ?thesis
    using core_dump_all_or_nothing [of demo_dump demo_pool demo 30 "fst (admit_core_dump demo 30 demo_dump demo_pool)"
        "snd (admit_core_dump demo 30 demo_dump demo_pool)"]
    by simp
qed

lemma snapshot_without:
  assumes "utxo_set_arc m = Some (False, chain)" "hm_get chain op = None" "snapshot_prevout m op = None"
  shows "\<exists>us. admission_snapshot m tx = Some (us, True) \<and> hm_get us op = None"
proof -
  have chain: "hm_get (foldl (\<lambda>us op. case hm_get chain op of None \<Rightarrow> us | Some u \<Rightarrow> hm_insert op u us) us ops) op
      = hm_get us op" for us ops
    using assms(2) by (induction ops arbitrary: us) (auto simp: update_conv' split: option.splits)
  have fill: "hm_get (foldl (\<lambda>us op. if hm_contains us op \<or> mempool_creates m op then us
      else case snapshot_prevout m op of None \<Rightarrow> us | Some u \<Rightarrow> hm_insert op u us) us ops) op = hm_get us op" for us ops
    using assms(3) by (induction ops arbitrary: us) (auto simp: update_conv' split: option.splits)
  show ?thesis
    using assms(1) by (simp add: admission_snapshot_def Let_def fill_snapshot_misses_def fill chain del: hm_contains_iff)
qed

text \<open>
  C33. The first transaction of a file that spends an output neither the chain nor the pool has makes the
  whole load fail, also when its parent comes later in the same file. A save lists the
  pool in the order of its hash table, so a pool with a parent and a child may not load again.
\<close>

theorem child_first_refused:
  assumes "dat_txs dump = e # es" "op \<in> set (prevouts (entry_tx e))"
    and "utxo_set_arc m = Some (False, chain)" "hm_get chain op = None"
    and "snapshot_prevout m op = None" "\<not> mempool_creates m op"
  shows "admit_core_dump P now dump m
    = (Err (Refused ''mempool.dat transaction was refused by policy''), m)"
proof -
  obtain us where us: "admission_snapshot m (entry_tx e) = Some (us, True)" "hm_get us op = None"
    using snapshot_without [OF assms(3-5)] by blast
  have "unknown_prevout m (entry_tx e) us True"
    using us(2) assms(2,6) by (auto simp: unknown_prevout_def list_ex_iff)
  then have "chain_rejects P m (entry_tx e) us True" by (simp add: chain_rejects_def case_prod_unfold)
  then have "add_transaction_with_witness P now (entry_tx e) (entry_witnesses e) m = (Ok False, m)"
    by (simp add: add_transaction_with_witness_def Let_def us(1))
  then show ?thesis by (simp add: admit_core_dump_def assms(1) take_back_def)
qed

text \<open>The pooled parent and child of the demonstration, written child first and loaded into an empty pool.\<close>

theorem child_first_refused_witness:
  "fst (admit_core_dump demo 30
     \<lparr> dat_txs = [save_entry demo demo_pool demo_child, save_entry demo demo_pool demo_parent],
       dat_deltas = [], dat_unbroadcast = [] \<rparr>
     (set_utxo_set_arc (False, demo_utxos) (with_rbf_config None)))
   = Err (Refused ''mempool.dat transaction was refused by policy'')"
  by (subst child_first_refused [where e = "save_entry demo demo_pool demo_child" and op = "\<lparr> op_hash = 1, op_index = 0 \<rparr>"
        and chain = demo_utxos])
    (simp_all add: save_entry_def set_utxo_set_arc_def with_rbf_config_def demo_child_def demo_spend_def demo_input_def
      prevouts_def snapshot_prevout_def mempool_creates_def pooled_output_def demo_utxos_def demo_coin_def Let_def)

end
