(* ===== verification/Mempool_System.thy ===== *)
theory Mempool_System
  imports Mempool_Persist
begin

text \<open>
  The pool as a transition system. A step is one call of a public method of
  \<^verbatim>\<open>MempoolManager\<close> that changes state, or a change of the UTXO set it shares with the node; every
  method runs to its end before the next one. The invariants of the components hold in every reachable state.
\<close>


section \<open>Steps\<close>

inductive pool_step :: "'a protocol_scheme \<Rightarrow> mempool_manager \<Rightarrow> mempool_manager \<Rightarrow> bool" for P where
  add: "pool_step P m (snd (add_transaction_with_witness P now tx wits m))"
| package: "pool_step P m (snd (add_package_with_witnesses P now txs m))"
| remove: "pool_step P m (snd (remove_transaction h m))"
| connect: "pool_step P m (remove_for_connected_block P txs m)"
| reorg: "pool_step P m (apply_reorg P now disconnected wits connected us m)"
| prioritise: "pool_step P m (snd (prioritise_transaction h delta m))"
| rank: "pool_step P m (snd (get_prioritized_transactions P limit us m))"
| rates: "pool_step P m (snd (fee_rates_for_storage P st m))"
| tick: "pool_step P m (cleanup_old_transactions P now m)"
| limits: "pool_step P m (enforce_mempool_limits P now m)"
| load: "pool_step P m (snd (load_from_disk P mem now file m))"
| arm: "pool_step P m (arm_package_preview P txs us m)"
| note_preview: "pool_step P m (note_package_preview P tx wits us m)"
| disarm: "pool_step P m (clear_package_preview m)"
| wire: "pool_step P m (set_utxo_set_arc us m)"
| use_storage: "pool_step P m (set_storage s m)"
| tip: "pool_step P m (set_chain_tip height mtp m)"
| publisher: "pool_step P m (set_event_publisher e m)"
| rbf: "pool_step P m (set_rbf_config rbf_cfg m)"
| policy_update: "pool_step P m (set_policy_config pol m)"
| chain: "pool_step P m (m \<lparr> utxo_set_arc := shared \<rparr>)"

text \<open>All steps, \<^verbatim>\<open>clear\<close> included.\<close>

inductive node_step :: "'a protocol_scheme \<Rightarrow> mempool_manager \<Rightarrow> mempool_manager \<Rightarrow> bool" for P where
  pool: "pool_step P m m' \<Longrightarrow> node_step P m m'"
| clear: "node_step P m (clear_mempool m)"

inductive_cases node_stepE: "node_step P m m'"


section \<open>Invariants of the steps\<close>

text \<open>The steps that write none of the tables of pooled transactions.\<close>

lemma same_core_steps:
  "same_core m (arm_package_preview P txs us m)" "same_core m (note_package_preview P tx wits us m)"
  "same_core m (clear_package_preview m)" "same_core m (set_utxo_set_arc arc m)" "same_core m (set_storage s m)"
  "same_core m (set_chain_tip height mtp m)" "same_core m (set_event_publisher e m)"
  "same_core m (set_rbf_config rbf_cfg m)" "same_core m (set_policy_config pol m)"
  "same_core m (m \<lparr> utxo_set_arc := shared \<rparr>)"
  by (simp_all add: same_core_def arm_package_preview_def set_waivers_def note_package_preview_def
      Let_def clear_package_preview_def clear_waivers_def set_utxo_set_arc_def set_storage_def
      set_snapshot_prevout_lookup_def set_chain_tip_def set_event_publisher_def set_rbf_config_def
      set_policy_config_def)

locale live_invariant = ranked_invariant +
  assumes inv_rank: "inv m \<Longrightarrow> inv (update_fee_index P us m)"
begin

lemma evict_keeps_inv: "inv m \<Longrightarrow> inv (snd (evict_with_descendants P h m))"
proof -
  assume "inv m"
  have step: "inv (snd (evict_one P s g))" if "inv (snd s)" for s g
    using that by (cases s; cases "fst s") (simp add: evict_one_eq inv_remove)
  have "inv (snd (foldl (evict_one P) ((0, 0), m) hs))" for hs
    by (rule foldl_invariant [where I = "\<lambda>s. inv (snd s)"]) (simp_all add: step \<open>inv m\<close>)
  then show ?thesis by (simp add: evict_with_descendants_def \<open>inv m\<close>)
qed

lemma evict_loop_keeps_inv: "inv m \<Longrightarrow> inv (evict_loop P tb tc order bytes count m)"
proof (induction order arbitrary: bytes count m)
  case (Cons h order)
  from evict_keeps_inv [OF Cons.prems, of h] Cons show ?case by (auto split: prod.splits)
qed simp

lemma evict_by_keeps_inv: "inv m \<Longrightarrow> inv (evict_by P now strategy tb tc m)"
  by (cases strategy)
    (simp_all add: evict_ordered_def evict_loop_keeps_inv evict_lowest_fee_rate_def evict_oldest_first_def
      evict_largest_first_def evict_no_descendants_first_def evict_hybrid_def evict_spam_first_def Let_def)

lemma enforce_keeps_inv: "inv m \<Longrightarrow> inv (enforce_mempool_limits P now m)"
  by (simp add: enforce_mempool_limits_def Let_def publish_keeps_inv evict_by_keeps_inv)

lemma cleanup_keeps_inv: "inv m \<Longrightarrow> inv (cleanup_old_transactions P now m)"
proof -
  assume "inv m"
  have "inv (foldl (\<lambda>m h. snd (evict_with_descendants P h m)) m hs)" for hs
    by (rule foldl_invariant) (simp_all add: evict_keeps_inv \<open>inv m\<close>)
  then show ?thesis
    using \<open>inv m\<close> by (simp add: cleanup_old_transactions_def Let_def enforce_keeps_inv split: option.split)
qed

lemma connect_keeps_inv: "inv m \<Longrightarrow> inv (remove_for_connected_block P txs m)"
  by (simp add: remove_for_connected_block_def Let_def remove_all_keeps_inv)

lemma reorg_keeps_inv: "inv m \<Longrightarrow> inv (apply_reorg P now disconnected wits connected us m)"
proof -
  assume "inv m"
  then have "inv (install_utxo_snapshot us m)"
    by (rule inv_core) (simp add: install_utxo_snapshot_def same_core_def split: option.split)
  then have connected: "inv (foldl (\<lambda>m b. remove_for_connected_block P (block_txs b) m)
      (install_utxo_snapshot us m) connected)"
    by (rule foldl_invariant [where I = inv, rotated]) (simp add: connect_keeps_inv)
  have readmit: "inv (readmit P now ws m e)" if "inv m" for ws m e
    using that by (cases e) (simp add: readmit_def add_keeps_inv)
  have block: "inv (foldl (readmit P now ws) m es)" if "inv m" for ws m es
    using that by (rule foldl_invariant [where I = inv, rotated]) (simp add: readmit)
  show ?thesis
    unfolding apply_reorg_def Let_def
    by (rule foldl_invariant [where I = inv, OF _ connected]) (simp add: block split: prod.split)
qed

lemma rank_keeps_inv:
  "inv m \<Longrightarrow> inv (snd (get_prioritized_transactions P limit us m))"
  "inv m \<Longrightarrow> inv (snd (fee_rates_for_storage P st m))"
  by (simp_all add: get_prioritized_transactions_def fee_rates_for_storage_def fee_rates_sat_vb_def Let_def inv_rank)

lemma remove_transaction_keeps_inv: "inv m \<Longrightarrow> inv (snd (remove_transaction h m))"
  using inv_remove [of m h] by (simp add: remove_tx_def)

lemmas step_keeps_inv = add_keeps_inv package_keeps_inv remove_transaction_keeps_inv connect_keeps_inv
  reorg_keeps_inv inv_prioritise rank_keeps_inv cleanup_keeps_inv enforce_keeps_inv load_keeps_inv
  same_core_steps [THEN inv_core [rotated]]

lemma pool_step_keeps_inv: "pool_step P m m' \<Longrightarrow> inv m \<Longrightarrow> inv m'"
  by (induction rule: pool_step.induct) (rule step_keeps_inv, assumption)+

lemma pool_steps_keep_inv: "(pool_step P)\<^sup>*\<^sup>* m m' \<Longrightarrow> inv m \<Longrightarrow> inv m'"
  by (induction rule: rtranclp_induct) (auto intro: pool_step_keeps_inv)

end

lemma update_fee_index_same: "same_pool m (update_fee_index P us m)"
proof -
  have step: "same_pool s (index_transaction P us c s e)" for s c e
    by (simp add: index_transaction_def record_rank_def Let_def same_pool_def split: option.split)
  have fold: "same_pool m' (foldl (index_transaction P us c) m' es)" for m' c es
    by (rule foldl_invariant [where I = "same_pool m'"]) (auto intro: same_pool_trans step)
  let ?m = "m \<lparr> utxo_set_hash := Some (calculate_utxo_set_hash P us), fee_index := [], fee_cache := [], fee_basis := [] \<rparr>"
  have "same_pool m ?m" by (simp add: same_pool_def)
  from same_pool_trans [OF this fold] show ?thesis by (simp add: update_fee_index_def Let_def)
qed

interpretation live_spends: live_invariant P "spend_inv P" for P
  by unfold_locales (simp add: same_pool_fields [OF update_fee_index_same])

interpretation live_tables: live_invariant P "pool_inv P" for P
  by unfold_locales (simp add: update_fee_index_spec)

interpretation live_valids: live_invariant P "valid_inv P" for P
  by unfold_locales (simp add: valid_inv_def same_pool_fields [OF update_fee_index_same])


section \<open>Reachable states\<close>

lemma node_step_keeps_valid: "node_step P m m' \<Longrightarrow> valid_inv P m \<Longrightarrow> valid_inv P m'"
proof (elim node_stepE)
  assume "valid_inv P m" "m' = clear_mempool m"
  then show "valid_inv P m'"
    by (simp add: valid_inv_def spend_inv_def clear_mempool_def Let_def invalidate_fee_ranking_def)
qed (rule live_valids.pool_step_keeps_inv)

lemma node_steps_keep_valid: "(node_step P)\<^sup>*\<^sup>* m m' \<Longrightarrow> valid_inv P m \<Longrightarrow> valid_inv P m'"
  by (induction rule: rtranclp_induct) (auto intro: node_step_keeps_valid)

lemma new_pool_valid: "valid_inv P (with_rbf_config c)"
  using new_pool_inv [of P c] by (simp add: valid_inv_def pool_inv_def with_rbf_config_def)

text \<open>A run that pools one transaction: an empty pool is configured and wired, and the rival is added.\<close>

definition demo_fresh :: mempool_manager where
  "demo_fresh = set_utxo_set_arc (False, demo_utxos)
     (set_policy_config (Some (default_policy \<lparr> require_standard := False \<rparr>)) (with_rbf_config None))"

definition demo_run :: mempool_manager where
  "demo_run = snd (add_transaction_with_witness demo 30 demo_rival (Some [[]]) demo_fresh)"

lemma demo_fresh_fields [simp]:
  "transactions demo_fresh = []" "spenders demo_fresh = []" "spent_outputs demo_fresh = []"
  "utxo_set_arc demo_fresh = Some (False, demo_utxos)" "chain_tip demo_fresh = None" "storage demo_fresh = None"
  "policy demo_fresh = default_policy \<lparr> require_standard := False \<rparr>" "mgr_package_preview demo_fresh = empty_preview"
  "policy_config demo_fresh = Some (default_policy \<lparr> require_standard := False \<rparr>)"
  "pooled demo_fresh = {}"
  by (simp_all add: demo_fresh_def set_utxo_set_arc_def set_policy_config_def with_rbf_config_def policy_def pooled_def)

lemma demo_fresh_checked:
  "\<not> structure_rejects demo demo_fresh demo_rival (Some [[]])"
  "\<not> standardness_rejects demo (policy demo_fresh) demo_rival (Some [[]])"
  "admission_snapshot demo_fresh demo_rival = Some (demo_utxos, True)"
  "admit_vsize demo demo_fresh demo_rival (Some [[]]) demo_utxos = (100, 0)"
  "\<not> chain_rejects demo demo_fresh demo_rival demo_utxos True"
  "\<not> spend_rejects demo demo_fresh (policy demo_fresh) demo_rival (Some [[]]) demo_utxos"
proof -
  show v: "admit_vsize demo demo_fresh demo_rival (Some [[]]) demo_utxos = (100, 0)"
    by (simp add: admit_vsize_def Let_def transaction_weight_def demo_def div_ceil_def default_policy_def)
  show "\<not> structure_rejects demo demo_fresh demo_rival (Some [[]])"
    by (simp add: structure_rejects_def demo_rival_fields max_mempool_bytes_of_def default_policy_def
      accounted_tx_bytes_def saturating_mul_def demo_api)
  show "\<not> standardness_rejects demo (policy demo_fresh) demo_rival (Some [[]])"
    by (simp add: standardness_rejects_def default_policy_def)
  show "admission_snapshot demo_fresh demo_rival = Some (demo_utxos, True)"
    by (simp add: admission_snapshot_def demo_utxo fill_snapshot_misses_def) (simp add: demo_utxos_def)
  show "\<not> chain_rejects demo demo_fresh demo_rival demo_utxos True"
    by (simp add: chain_rejects_def finality_context_def relative_lock_rejects_def demo_rival_fields demo_utxo
      immature_coinbase_spend_def unknown_prevout_def prevout_value_out_of_range_def
      prevout_sum_exceeds_money_def outputs_exceed_inputs_def output_is_dust_def money_sats_def demo_api
      saturating_mul_def as_i64_def as_u64_def add_money_def checked_add_def output_sum_sats_def input_sats_def)
  show "\<not> spend_rejects demo demo_fresh (policy demo_fresh) demo_rival (Some [[]]) demo_utxos"
    by (simp add: spend_rejects_def Let_def v default_policy_def
      consensus_checks_reject_def demo_rival_fields demo_api split: option.split)
qed

lemma demo_fresh_fee:
  "fee_gate demo demo_fresh (policy demo_fresh) demo_rival demo_utxos True 100 = Some (50000, 500)"
proof -
  have "calculate_transaction_fee demo demo_fresh demo_rival demo_utxos = 50000"
    by (simp add: calculate_transaction_fee_def demo_utxo demo_rival_fields output_sum_sats_def
      money_sats_def add_money_def checked_add_def saturating_sub_def input_sats_def as_u64_def)
  then show ?thesis
    by (simp add: fee_gate_def Let_def default_policy_def relay_price_def div_ceil_def saturating_mul_def)
qed

lemma demo_fresh_clear:
  "resolve_conflicts demo 30 demo_fresh (policy demo_fresh) demo_rival (Some [[]]) demo_utxos 100 = (Ok True, demo_fresh)"
  "check_ancestor_descendant_limits demo_fresh demo_rival (policy demo_fresh) 100"
  by (simp_all add: resolve_conflicts_def direct_conflicts_def displacement_set_def check_ancestor_descendant_limits_def
      Let_def limit_ancestors_def limit_seeds_def limit_known_def empty_preview_def default_policy_def walk_mark.simps
      hs_extend_def txs_this_replacement_removes_def packages_of_def)

lemma demo_run_eq:
  "demo_run = insert_admitted demo 30 3 (calculate_wtxid demo demo_rival (Some [[]])) demo_rival (Some [[]]) 50000 100 500 demo_fresh"
  by (simp add: demo_run_def add_transaction_with_witness_def Let_def demo_fresh_checked demo_fresh_fee demo_fresh_clear
      demo_rival_fields del: demo_fresh_fields(7))

lemma demo_run_steps: "(pool_step demo)\<^sup>*\<^sup>* (with_rbf_config None) demo_run"
proof -
  let ?p = "set_policy_config (Some (default_policy \<lparr> require_standard := False \<rparr>)) (with_rbf_config None)"
  have "pool_step demo (with_rbf_config None) ?p" by (rule pool_step.policy_update)
  moreover have "pool_step demo ?p demo_fresh" unfolding demo_fresh_def by (rule pool_step.wire)
  moreover have "pool_step demo demo_fresh demo_run" unfolding demo_run_def by (rule pool_step.add)
  ultimately show ?thesis by (meson rtranclp.rtrancl_refl rtranclp.rtrancl_into_rtrancl)
qed

text \<open>
  C1. Whatever sequence of calls the node makes, no two pooled transactions spend the same output, every
  pooled transaction is stored under its own identifier and has passed the context-free
  consensus checks, and the table of spenders names exactly the pooled spends.
\<close>

theorem no_double_spend:
  assumes "(node_step P)\<^sup>*\<^sup>* (with_rbf_config c) m"
  shows "(\<forall>h tx. hm_get (transactions m) h = Some tx \<longrightarrow>
      calculate_tx_id P tx = h \<and> check_transaction_valid P tx
      \<and> (\<forall>op \<in> set (prevouts tx). spender_of m op = Some h))
    \<and> (\<forall>h g tx tx'. h \<noteq> g \<longrightarrow> hm_get (transactions m) h = Some tx \<longrightarrow> hm_get (transactions m) g = Some tx'
        \<longrightarrow> set (prevouts tx) \<inter> set (prevouts tx') = {})"
proof -
  have "valid_inv P m" by (rule node_steps_keep_valid [OF assms new_pool_valid])
  then have own: "calculate_tx_id P tx = h" "check_transaction_valid P tx"
    "\<forall>op \<in> set (prevouts tx). hm_get (spenders m) op = Some h"
    if "hm_get (transactions m) h = Some tx" for h tx
    using that by (auto simp: valid_inv_def spend_inv_def)
  have "set (prevouts tx) \<inter> set (prevouts tx') = {}"
    if "h \<noteq> g" "hm_get (transactions m) h = Some tx" "hm_get (transactions m) g = Some tx'" for h g tx tx'
    using own(3) [OF that(2)] own(3) [OF that(3)] that(1) by auto
  with own show ?thesis by (auto simp: spender_of_def)
qed

theorem no_double_spend_witness:
  "hm_get (transactions demo_run) 3 = Some demo_rival \<and> spender_of demo_run demo_coin = Some 3
   \<and> check_transaction_valid demo demo_rival"
proof -
  have p: "hm_get (transactions demo_run) 3 = Some demo_rival"
    by (simp add: demo_run_eq insert_admitted_fields update_conv')
  have "(node_step demo)\<^sup>*\<^sup>* (with_rbf_config None) demo_run"
    by (rule rtranclp_mono [THEN predicate2D, OF _ demo_run_steps]) (auto intro: node_step.pool)
  from no_double_spend [OF this] p show ?thesis by simp
qed

text \<open>
  C2. In every state reachable without \<^verbatim>\<open>clear\<close> all tables agree: the size, time, height, witness and
  delta tables and the dependency graph have exactly the pooled transactions, the graph is the
  inverse of itself and only records real spends, and the fee index lists each ranked transaction once.
\<close>

theorem tables_agree:
  assumes "(pool_step P)\<^sup>*\<^sup>* (with_rbf_config c) m"
  shows "pool_inv P m"
  by (rule live_tables.pool_steps_keep_inv [OF assms new_pool_inv])

theorem tables_agree_witness: "pool_inv demo demo_run \<and> pooled demo_run = {3}"
  using tables_agree [OF demo_run_steps] by (simp add: demo_run_eq insert_admitted_fields)

end
