(* ===== verification/Kv_Store.thy ===== *)
theory Kv_Store
  imports Prelude
begin

text \<open>
  The key-value store under the node, \<^verbatim>\<open>storage/database/mod.rs\<close>: a tree is a map from byte strings to byte strings, a
  batch and \<^verbatim>\<open>commit_keyed\<close> are a sequence of writes. The engines behind the trait (LMDB, RocksDB) are other crates; a
  tree here has the behaviour the trait documents, and its operations do not fail. The big-endian integers of the keys
  and rows are here as well.
\<close>


section \<open>Trees\<close>

type_synonym kv_tree = "(byte_string, byte_string) hmap"

definition tree_write :: "byte_string \<Rightarrow> byte_string option \<Rightarrow> kv_tree \<Rightarrow> kv_tree" where
  "tree_write key row t = (case row of Some bytes \<Rightarrow> hm_insert key bytes t | None \<Rightarrow> hm_remove key t)"

definition batch_commit :: "(byte_string \<times> byte_string option) list \<Rightarrow> kv_tree \<Rightarrow> kv_tree" where
  "batch_commit ops t = foldl (\<lambda>t (key, row). tree_write key row t) t ops"

text \<open>The operations name their tree; \<open>at\<close> applies a change to the named tree of the store.\<close>

definition commit_keyed ::
  "('r \<Rightarrow> (kv_tree \<Rightarrow> kv_tree) \<Rightarrow> 's \<Rightarrow> 's) \<Rightarrow> ('r \<times> byte_string \<times> byte_string option) list \<Rightarrow> 's \<Rightarrow> 's" where
  "commit_keyed at ops s = foldl (\<lambda>s (tree, key, row). at tree (tree_write key row) s) s ops"

lemma get_tree_write [simp]: "hm_get (tree_write key row t) = (hm_get t)(key := row)"
  by (auto simp: tree_write_def update_conv' delete_conv' split: option.split)

lemma wf_tree_write [simp]: "hm_wf t \<Longrightarrow> hm_wf (tree_write key row t)"
  by (simp add: tree_write_def split: option.split)

lemma batch_commit_simps [simp]:
  "batch_commit [] t = t"
  "batch_commit ((key, row) # ops) t = batch_commit ops (tree_write key row t)"
  "batch_commit (ops @ ops') t = batch_commit ops' (batch_commit ops t)"
  by (simp_all add: batch_commit_def)

lemma commit_keyed_simps [simp]:
  "commit_keyed at [] s = s"
  "commit_keyed at ((tree, key, row) # ops) s = commit_keyed at ops (at tree (tree_write key row) s)"
  by (simp_all add: commit_keyed_def)

lemma wf_batch_commit [simp]: "hm_wf t \<Longrightarrow> hm_wf (batch_commit ops t)"
  by (induction ops arbitrary: t) auto

text \<open>After a batch a key has the last row written to it, or the row it had.\<close>

lemma get_batch_commit:
  "hm_get (batch_commit ops t) key =
     (case map_of (rev ops) key of Some row \<Rightarrow> row | None \<Rightarrow> hm_get t key)"
proof (induction ops rule: rev_induct)
  case Nil
  then show ?case by simp
next
  case (snoc op ops)
  then show ?case by (cases op) auto
qed


section \<open>Big-endian integers\<close>

definition be_bytes :: "nat \<Rightarrow> nat \<Rightarrow> byte_string" where
  "be_bytes k n = rev (le_bytes k n)"

definition from_be_bytes :: "byte_string \<Rightarrow> nat" where
  "from_be_bytes bs = from_le_bytes (rev bs)"

definition u64_be :: "u64 \<Rightarrow> byte_string" where
  "u64_be w = be_bytes 8 (unat w)"

definition u64_of_be :: "byte_string \<Rightarrow> u64" where
  "u64_of_be bs = of_nat (from_be_bytes bs)"

lemma length_be [simp]: "length (be_bytes k n) = k" "length (u64_be w) = 8"
  by (simp_all add: be_bytes_def u64_be_def)

lemma from_be_bytes_be [simp]: "n < 256 ^ k \<Longrightarrow> from_be_bytes (be_bytes k n) = n"
  by (simp add: from_be_bytes_def be_bytes_def)

lemma u64_of_be_be [simp]: "u64_of_be (u64_be w) = w"
  using unat_bound [of w] by (simp add: u64_of_be_def u64_be_def)

lemma u64_be_inject [simp]: "u64_be a = u64_be b \<longleftrightarrow> a = b"
  by (metis u64_of_be_be)

end
