(* ===== verification/Core_Format.thy ===== *)
theory Core_Format
  imports Demo_Protocol Kv_Store
begin

text \<open>
  The reader of the databases of Bitcoin Core, \<^verbatim>\<open>storage/bitcoin_core_format.rs\<close>: the base-128
  integers, the compressed amounts and scripts, coins of both database generations, block
  index rows and keys. The point decompression of \<^verbatim>\<open>blvm_secp256k1\<close> is the parameter
  \<open>uncompress\<close>. The reference encoders are those of Bitcoin Core.
\<close>

unbundle bit_operations_syntax


section \<open>Definitions\<close>

definition BLOCK_HAVE_DATA :: u32 where "BLOCK_HAVE_DATA = 8"
definition BLOCK_HAVE_UNDO :: u32 where "BLOCK_HAVE_UNDO = 16"

record core_coin =
  coin_script :: byte_string
  coin_amount :: u64
  coin_height :: u32
  coin_is_coinbase :: bool

record disk_block_index =
  dbi_height :: u32
  dbi_status :: u32
  dbi_n_tx :: u32
  dbi_n_file :: int
  dbi_n_data_pos :: u32
  dbi_n_undo_pos :: u32
  dbi_header :: block_header
  dbi_block_hash :: hash

record legacy_output =
  lo_vout :: u32
  lo_coin :: core_coin

text \<open>The loop of \<^verbatim>\<open>read_core_varint\<close> from the byte at hand, and the number of bytes read.\<close>

fun varint_loop :: "u64 \<Rightarrow> byte_string \<Rightarrow> (u64 \<times> nat, string) result" where
  "varint_loop n [] = Err ''Insufficient data for Core VarInt''"
| "varint_loop n (ch # rest) =
     (if n > drop_bit 7 (- 1) then Err ''Core VarInt overflow''
      else
        let n' = push_bit 7 n OR ucast (ch AND 0x7F) in
        if ch AND 0x80 \<noteq> 0 then
          if n' = - 1 then Err ''Core VarInt overflow''
          else (case varint_loop (n' + 1) rest of
              Err e \<Rightarrow> Err e | Ok (v, used) \<Rightarrow> Ok (v, used + 1))
        else Ok (n', 1))"

definition read_core_varint :: "byte_string \<Rightarrow> nat \<Rightarrow> (u64 \<times> nat, string) result" where
  "read_core_varint data offset = varint_loop 0 (drop offset data)"

fun times_ten :: "nat \<Rightarrow> u64 \<Rightarrow> (u64, string) result" where
  "times_ten 0 n = Ok n"
| "times_ten (Suc k) n =
     (case checked_mul n 10 of
        None \<Rightarrow> Err ''decompressed amount does not fit in u64''
      | Some m \<Rightarrow> times_ten k m)"

definition decompress_amount :: "u64 \<Rightarrow> (u64, string) result" where
  "decompress_amount x =
     (if x = 0 then Ok 0
      else
        let x1 = x - 1; e = x1 mod 10; x2 = x1 div 10;
            n = (if e < 9 then (x2 div 9) * 10 + (x2 mod 9 + 1) else x2 + 1)
        in case times_ten (unat e) n of
             Err err \<Rightarrow> Err err
           | Ok m \<Rightarrow> if uint m > i64_max then Err ''decompressed amount does not fit in i64'' else Ok m)"

definition special_script_size :: "u32 \<Rightarrow> u32" where
  "special_script_size n =
     (if n = 0 \<or> n = 1 then 20 else if 2 \<le> n \<and> n \<le> 5 then 32 else 0)"

definition decompress_script ::
  "(byte_string \<Rightarrow> byte_string option) \<Rightarrow> u32 \<Rightarrow> byte_string \<Rightarrow> (byte_string, string) result" where
  "decompress_script uncompress n compressed =
     (if n = 0 then
        if length compressed \<noteq> 20 then Err ''Invalid P2PKH compressed script size''
        else Ok ([0x76, 0xa9, 0x14] @ compressed @ [0x88, 0xac])
      else if n = 1 then
        if length compressed \<noteq> 20 then Err ''Invalid P2SH compressed script size''
        else Ok ([0xa9, 0x14] @ compressed @ [0x87])
      else if n = 2 \<or> n = 3 then
        if length compressed \<noteq> 32 then Err ''Invalid compressed pubkey size''
        else Ok ([0x21, ucast n] @ compressed @ [0xac])
      else if n = 4 \<or> n = 5 then
        if length compressed \<noteq> 32 then Err ''Invalid compressed pubkey size''
        else (case uncompress (ucast (n - 2) # compressed) of
            None \<Rightarrow> Err ''uncompressed pubkey does not decompress''
          | Some full \<Rightarrow> Ok ([65] @ full @ [0xac]))
      else Err ''Unknown special script type'')"

definition decompress_script_pubkey ::
  "(byte_string \<Rightarrow> byte_string option) \<Rightarrow> byte_string \<Rightarrow> nat \<Rightarrow> (byte_string \<times> nat, string) result" where
  "decompress_script_pubkey uncompress data offset =
     (case read_core_varint data offset of
        Err e \<Rightarrow> Err e
      | Ok (n_size, len) \<Rightarrow>
          let pos = offset + len in
          if n_size < 6 then
            let size_n = unat (special_script_size (ucast n_size)) in
            if pos + size_n > length data then Err ''Insufficient data for compressed script''
            else (case decompress_script uncompress (ucast n_size) (slice data pos (pos + size_n)) of
                Err e \<Rightarrow> Err e
              | Ok script \<Rightarrow> Ok (script, pos + size_n - offset))
          else
            let script_len = unat (n_size - 6) in
            if script_len > 10000 then Err ''Script length too large''
            else if pos + script_len > length data then Err ''Insufficient data for script body''
            else Ok (slice data pos (pos + script_len), pos + script_len - offset))"

definition parse_core_coin ::
  "(byte_string \<Rightarrow> byte_string option) \<Rightarrow> byte_string \<Rightarrow> (core_coin, string) result" where
  "parse_core_coin uncompress data =
     (case read_core_varint data 0 of
        Err e \<Rightarrow> Err e
      | Ok (code, len) \<Rightarrow>
          let height_code = drop_bit 1 code in
          if height_code > 0xFFFFFFFF then Err ''coin height does not fit in u32''
          else case read_core_varint data len of
            Err e \<Rightarrow> Err e
          | Ok (compressed_amount, alen) \<Rightarrow>
              (case decompress_amount compressed_amount of
                 Err e \<Rightarrow> Err e
               | Ok amount \<Rightarrow>
                   (case decompress_script_pubkey uncompress data (len + alen) of
                      Err e \<Rightarrow> Err e
                    | Ok (script, slen) \<Rightarrow>
                        Ok \<lparr> coin_script = script, coin_amount = amount, coin_height = ucast height_code,
                             coin_is_coinbase = (code AND 1 \<noteq> 0) \<rparr>)))"

text \<open>
  \<^verbatim>\<open>parse_coin\<close>: the availability mask, whose loop ends with the data because every round reads a byte, and the
  available outputs in order, with their heights filled in at the end.
\<close>

definition mask_bits :: "u8 \<Rightarrow> bool list" where
  "mask_bits b = map (\<lambda>i. b AND push_bit i 1 \<noteq> 0) [0..<8]"

fun read_mask :: "u64 \<Rightarrow> byte_string \<Rightarrow> (bool list \<times> nat, string) result" where
  "read_mask code [] = (if code = 0 then Ok ([], 0) else Err ''Insufficient data for Core VarInt'')"
| "read_mask code (b # rest) =
     (if code = 0 then Ok ([], 0)
      else case read_mask (if b \<noteq> 0 then code - 1 else code) rest of
        Err e \<Rightarrow> Err e
      | Ok (flags, used) \<Rightarrow> Ok (mask_bits b @ flags, used + 1))"

fun read_legacy_outputs ::
  "(byte_string \<Rightarrow> byte_string option) \<Rightarrow> byte_string \<Rightarrow> bool \<Rightarrow> nat \<Rightarrow> (nat \<times> bool) list
    \<Rightarrow> (legacy_output list \<times> nat, string) result" where
  "read_legacy_outputs uncompress data cb offset [] = Ok ([], offset)"
| "read_legacy_outputs uncompress data cb offset ((vout, available) # rest) =
     (if \<not> available then read_legacy_outputs uncompress data cb offset rest
      else case read_core_varint data offset of
        Err e \<Rightarrow> Err e
      | Ok (compressed_amount, n) \<Rightarrow>
          (case decompress_amount compressed_amount of
             Err e \<Rightarrow> Err e
           | Ok amount \<Rightarrow>
               (case decompress_script_pubkey uncompress data (offset + n) of
                  Err e \<Rightarrow> Err e
                | Ok (script, k) \<Rightarrow>
                    (case read_legacy_outputs uncompress data cb (offset + n + k) rest of
                       Err e \<Rightarrow> Err e
                     | Ok (outs, offset') \<Rightarrow>
                         Ok (\<lparr> lo_vout = of_nat vout, lo_coin = \<lparr> coin_script = script, coin_amount = amount,
                                coin_height = 0, coin_is_coinbase = cb \<rparr> \<rparr> # outs, offset')))))"

definition parse_coin ::
  "(byte_string \<Rightarrow> byte_string option) \<Rightarrow> byte_string \<Rightarrow> (legacy_output list, string) result" where
  "parse_coin uncompress data =
     (case read_core_varint data 0 of
        Err e \<Rightarrow> Err e
      | Ok (ver, n1) \<Rightarrow>
          (case read_core_varint data n1 of
             Err e \<Rightarrow> Err e
           | Ok (n_code, n2) \<Rightarrow>
               let mask_code = n_code div 8 + (if n_code AND 6 = 0 then 1 else 0) in
               (case read_mask mask_code (drop (n1 + n2) data) of
                  Err e \<Rightarrow> Err e
                | Ok (flags, n3) \<Rightarrow>
                    let available = [n_code AND 2 \<noteq> 0, n_code AND 4 \<noteq> 0] @ flags in
                    (case read_legacy_outputs uncompress data (n_code AND 1 \<noteq> 0) (n1 + n2 + n3)
                            (enumerate 0 available) of
                       Err e \<Rightarrow> Err e
                     | Ok (outs, offset) \<Rightarrow>
                         (case read_core_varint data offset of
                            Err e \<Rightarrow> Err e
                          | Ok (height, n4) \<Rightarrow>
                              if height > 0xFFFFFFFF then Err ''coin height does not fit in u32''
                              else if offset + n4 \<noteq> length data then Err ''legacy coin has trailing bytes''
                              else Ok (map (\<lambda>out. out \<lparr> lo_coin := (lo_coin out) \<lparr> coin_height := ucast height \<rparr> \<rparr>) outs))))))"

text \<open>Big-endian keys of the node.\<close>

definition legacy_outpoint_key :: "byte_string \<Rightarrow> u32 \<Rightarrow> byte_string" where
  "legacy_outpoint_key txid vout = txid @ be_bytes 8 (unat (ucast vout :: u64))"

definition convert_key :: "byte_string \<Rightarrow> (byte_string, string) result" where
  "convert_key key = (case key of [] \<Rightarrow> Err ''Empty key'' | _ # rest \<Rightarrow> Ok rest)"

definition get_key_prefix :: "byte_string \<Rightarrow> u8 option" where
  "get_key_prefix key = (case key of [] \<Rightarrow> None | b # _ \<Rightarrow> Some b)"

definition core_utxo_key_to_outpoint_key :: "byte_string \<Rightarrow> (byte_string, string) result" where
  "core_utxo_key_to_outpoint_key key =
     (case key of
        [] \<Rightarrow> Err ''Empty coin key''
      | prefix # _ \<Rightarrow>
          if prefix \<noteq> 0x43 \<and> prefix \<noteq> 0x63 then Err ''Not a coin key''
          else if prefix = 0x63 \<and> length key < 34 then Err ''pre-0.15 coin key is not imported''
          else if length key < 34 then Err ''Coin key too short''
          else (case read_core_varint key 33 of
              Err e \<Rightarrow> Err e
            | Ok (vout, _) \<Rightarrow> Ok (slice key 1 33 @ be_bytes 8 (unat vout))))"

definition parse_best_block_value :: "byte_string \<Rightarrow> (hash, string) result" where
  "parse_best_block_value v =
     (if length v \<noteq> 32 then Err ''Best block value must be 32 bytes'' else Ok (hash_of_bytes v))"

definition parse_block_index_key :: "byte_string \<Rightarrow> (hash, string) result" where
  "parse_block_index_key key =
     (if length key \<noteq> 33 \<or> key ! 0 \<noteq> 0x62 then Err ''Invalid block index key length or prefix''
      else Ok (hash_of_bytes (drop 1 key)))"

text \<open>Little-endian 32-bit fields of a header.\<close>

definition u32_at :: "byte_string \<Rightarrow> nat \<Rightarrow> u32" where
  "u32_at data i = of_nat (from_le_bytes (slice data i (i + 4)))"

definition hash_at :: "byte_string \<Rightarrow> nat \<Rightarrow> hash" where
  "hash_at data i = hash_of_bytes (slice data i (i + 32))"

definition compute_block_header_hash :: "'a tx_api_scheme \<Rightarrow> block_header \<Rightarrow> hash" where
  "compute_block_header_hash P header =
     hash_of_bytes (sha256 P (sha256 P
       (le_bytes 4 (unat (word_of_int (hdr_version header) :: u32)) @ hash_le (prev_block_hash header)
        @ hash_le (merkle_root header) @ le_bytes 4 (unat (ucast (timestamp header) :: u32))
        @ le_bytes 4 (unat (ucast (bits header) :: u32)) @ le_bytes 4 (unat (ucast (nonce header) :: u32)))))"

text \<open>A field that is present only when its status bits are set.\<close>

definition optional_varint :: "bool \<Rightarrow> byte_string \<Rightarrow> nat \<Rightarrow> (u64 \<times> nat, string) result" where
  "optional_varint present data offset = (if present then read_core_varint data offset else Ok (0, 0))"

definition parse_header_at :: "byte_string \<Rightarrow> nat \<Rightarrow> block_header" where
  "parse_header_at data i =
     \<lparr> hdr_version = sint (u32_at data i), prev_block_hash = hash_at data (i + 4),
       merkle_root = hash_at data (i + 36), timestamp = ucast (u32_at data (i + 68)),
       bits = ucast (u32_at data (i + 72)), nonce = ucast (u32_at data (i + 76)) \<rparr>"

definition parse_disk_block_index ::
  "'a tx_api_scheme \<Rightarrow> byte_string \<Rightarrow> (disk_block_index, string) result" where
  "parse_disk_block_index P data =
     (case read_core_varint data 0 of
        Err e \<Rightarrow> Err e
      | Ok (ver, l1) \<Rightarrow>
     (case read_core_varint data l1 of
        Err e \<Rightarrow> Err e
      | Ok (height, l2) \<Rightarrow>
     (case read_core_varint data (l1 + l2) of
        Err e \<Rightarrow> Err e
      | Ok (status, l3) \<Rightarrow>
     (case read_core_varint data (l1 + l2 + l3) of
        Err e \<Rightarrow> Err e
      | Ok (n_tx, l4) \<Rightarrow>
          let st = ucast status :: u32; o4 = l1 + l2 + l3 + l4 in
     (case optional_varint (st AND (BLOCK_HAVE_DATA OR BLOCK_HAVE_UNDO) \<noteq> 0) data o4 of
        Err e \<Rightarrow> Err e
      | Ok (f, l5) \<Rightarrow>
     (case optional_varint (st AND BLOCK_HAVE_DATA \<noteq> 0) data (o4 + l5) of
        Err e \<Rightarrow> Err e
      | Ok (data_pos, l6) \<Rightarrow>
     (case optional_varint (st AND BLOCK_HAVE_UNDO \<noteq> 0) data (o4 + l5 + l6) of
        Err e \<Rightarrow> Err e
      | Ok (undo_pos, l7) \<Rightarrow>
          let at_header = o4 + l5 + l6 + l7 in
          if at_header + 80 > length data then Err ''Block index data too short for header''
          else
            let header = parse_header_at data at_header in
            Ok \<lparr> dbi_height = ucast height, dbi_status = st, dbi_n_tx = ucast n_tx,
                 dbi_n_file = sint (ucast f :: u32), dbi_n_data_pos = ucast data_pos,
                 dbi_n_undo_pos = ucast undo_pos, dbi_header = header,
                 dbi_block_hash = compute_block_header_hash P header \<rparr>)))))))"

text \<open>The fixed layout of the older row.\<close>

record legacy_block_index =
  lbi_height :: u32
  lbi_status :: u32
  lbi_n_tx :: u32
  lbi_n_file :: u32
  lbi_n_data_pos :: u32
  lbi_n_undo_pos :: u32
  lbi_n_version :: u32
  lbi_hash_prev :: hash
  lbi_hash_merkle_root :: hash
  lbi_n_time :: u32
  lbi_n_bits :: u32
  lbi_n_nonce :: u32

definition parse_block_index :: "byte_string \<Rightarrow> (legacy_block_index, string) result" where
  "parse_block_index data =
     (if length data < 104 then Err ''Block index data too short''
      else Ok \<lparr> lbi_height = u32_at data 0, lbi_status = u32_at data 4, lbi_n_tx = u32_at data 8,
                lbi_n_file = u32_at data 12, lbi_n_data_pos = u32_at data 16, lbi_n_undo_pos = u32_at data 20,
                lbi_n_version = u32_at data 24, lbi_hash_prev = hash_at data 28,
                lbi_hash_merkle_root = hash_at data 60, lbi_n_time = u32_at data 92,
                lbi_n_bits = u32_at data 96, lbi_n_nonce = u32_at data 100 \<rparr>)"


section \<open>Base-128 integers\<close>

text \<open>The encoder of Bitcoin Core: the last byte has no continuation bit, and every byte before it counts from one.\<close>

function core_prefix :: "nat \<Rightarrow> byte_string" where
  "core_prefix n = (if n \<le> 127 then [of_nat (n + 128)]
     else core_prefix (n div 128 - 1) @ [of_nat (n mod 128 + 128)])"
  by pat_completeness auto
termination by (relation "measure id") auto

declare core_prefix.simps [simp del]

definition core_varint :: "nat \<Rightarrow> byte_string" where
  "core_varint n = (if n \<le> 127 then [of_nat n] else core_prefix (n div 128 - 1) @ [of_nat (n mod 128)])"

text \<open>One byte of the loop in natural numbers.\<close>

lemma low_bits: "unat (ch AND 0x7F :: u8) = unat ch mod 128"
proof -
  have "ch AND 0x7F = take_bit 7 ch" by (simp add: take_bit_eq_mask mask_eq_exp_minus_1)
  also have "unat (take_bit 7 ch) = take_bit 7 (unat ch)" by (simp add: unsigned_take_bit_eq)
  finally show ?thesis by (simp add: take_bit_eq_mod)
qed

lemma continuation_bit: "(ch :: u8) AND 0x80 \<noteq> 0 \<longleftrightarrow> 128 \<le> unat ch"
proof -
  have "ch AND 0x80 \<noteq> 0 \<longleftrightarrow> bit ch 7" using and_exp_eq_0_iff_not_bit [of ch 7] by simp
  also have "\<dots> \<longleftrightarrow> bit (unat ch) 7" by (simp add: bit_unsigned_iff)
  also have "\<dots> \<longleftrightarrow> odd (unat ch div 128)" by (simp add: bit_iff_odd)
  also have "\<dots> \<longleftrightarrow> 128 \<le> unat ch"
  proof -
    have "unat ch < 256" using unat_bound [of ch] by simp
    then have "unat ch div 128 = (if 128 \<le> unat ch then 1 else 0)" by (simp add: div_nat_eqI)
    then show ?thesis by simp
  qed
  finally show ?thesis .
qed

lemma shifted_limit: "(drop_bit 7 (- 1) < (n :: u64)) \<longleftrightarrow> 2 ^ 57 \<le> unat n"
proof -
  have "drop_bit 7 (- 1 :: u64) = 2 ^ 57 - 1" by (simp add: mask_eq_exp_minus_1)
  then have "drop_bit 7 (- 1) < n \<longleftrightarrow> (144115188075855871 :: u64) < n" by simp
  also have "\<dots> \<longleftrightarrow> 144115188075855871 < unat n" by (simp add: word_less_nat_alt)
  finally show ?thesis by (simp only:) auto
qed

lemma shifted_sum:
  assumes "unat n < 2 ^ 57"
  shows "unat (push_bit 7 n OR ucast (c AND 0x7F :: u8) :: u64) = unat n * 128 + unat c mod 128"
proof -
  have p: "unat (push_bit 7 n) = push_bit 7 (unat n)"
    using assms by (simp add: push_bit_eq_mult unat_word_ariths)
  have c: "unat (ucast (c AND 0x7F) :: u64) = take_bit 7 (unat c)"
    by (simp add: unat_ucast_up low_bits take_bit_eq_mod)
  have "push_bit 7 (unat n) OR take_bit 7 (unat c) = push_bit 7 (unat n) + take_bit 7 (unat c)"
    by (rule disjunctive_add [symmetric]) (auto simp: bit_simps)
  then show ?thesis unfolding unsigned_or_eq p c by (simp add: push_bit_eq_mult take_bit_eq_mod)
qed

lemma unat_u64: "n < 2 ^ 64 \<Longrightarrow> unat (of_nat n :: u64) = n"
  by (simp add: unat_of_nat)

lemma of_nat_unat_id: "of_nat (unat w) = (w :: 'a::len word)"
  by simp

text \<open>The loop on natural numbers: the same function, with the two overflow checks as bounds.\<close>

lemma varint_loop_step:
  fixes n :: u64 and ch :: u8
  defines "v \<equiv> unat n * 128 + unat ch mod 128"
  shows "varint_loop n (ch # rest) =
    (if 2 ^ 57 \<le> unat n then Err ''Core VarInt overflow''
     else if 128 \<le> unat ch then
       if v = 2 ^ 64 - 1 then Err ''Core VarInt overflow''
       else (case varint_loop (of_nat (v + 1)) rest of Err e \<Rightarrow> Err e | Ok (w, used) \<Rightarrow> Ok (w, used + 1))
     else Ok (of_nat v, 1))"
proof (cases "2 ^ 57 \<le> unat n")
  case False
  let ?n = "push_bit 7 n OR ucast (ch AND 0x7F) :: u64"
  have u: "unat ?n = v" using shifted_sum [of n ch] False by (simp add: v_def not_le)
  then have w: "?n = of_nat v" by (metis of_nat_unat_id)
  have "?n = - 1 \<longleftrightarrow> v = 2 ^ 64 - 1" using u unat_max_word [where 'a = 64] by (simp add: word_unat_eq_iff)
  with False show ?thesis
    unfolding varint_loop.simps shifted_limit continuation_bit Let_def w by (simp add: add.commute)
next
  case True
  then show ?thesis unfolding varint_loop.simps shifted_limit by simp
qed

declare varint_loop.simps(2) [simp del]

lemma unat_small_byte: "n < 256 \<Longrightarrow> unat (of_nat n :: u8) = n"
  by (simp add: unat_of_nat)

lemma varint_loop_prefix:
  "n + 1 < 2 ^ 64 \<Longrightarrow> varint_loop 0 (core_prefix n @ rest) =
    (case varint_loop (of_nat (n + 1)) rest of Err e \<Rightarrow> Err e | Ok (w, used) \<Rightarrow> Ok (w, used + length (core_prefix n)))"
proof (induction n arbitrary: rest rule: core_prefix.induct)
  case (1 n)
  show ?case
  proof (cases "n \<le> 127")
    case True
    then have b: "unat (of_nat (n + 128) :: u8) = n + 128" by (intro unat_small_byte) simp
    have "(n + 128) mod 128 = n" and p: "core_prefix n = [of_nat (n + 128)]"
      using True by (simp_all add: core_prefix.simps [of n])
    then show ?thesis unfolding p using True b
      by (simp add: varint_loop_step del: of_nat_add split: sum.split prod.split)
  next
    case False
    let ?m = "n div 128 - 1" and ?b = "of_nat (n mod 128 + 128) :: u8"
    have m: "?m + 1 = n div 128" using False by (simp add: Suc_leI div_greater_zero_iff)
    have b: "unat ?b = n mod 128 + 128" by (intro unat_small_byte) (use mod_less_divisor [of 128 n] in linarith)
    have q: "n div 128 < 2 ^ 57" using 1(2) by (simp add: div_less_iff_less_mult)
    then have u: "unat (of_nat (n div 128) :: u64) = n div 128" by (simp add: unat_of_nat)
    have v: "n div 128 * 128 + (n mod 128 + 128) mod 128 = n" by simp
    have step: "varint_loop (of_nat (n div 128)) (?b # rest) =
        (case varint_loop (of_nat (n + 1)) rest of Err e \<Rightarrow> Err e | Ok (w, used) \<Rightarrow> Ok (w, used + 1))"
      using 1(2) q unfolding varint_loop_step u b v by simp
    have "varint_loop 0 (core_prefix n @ rest) = varint_loop 0 (core_prefix ?m @ ?b # rest)"
      using False by (simp add: core_prefix.simps [of n])
    also have "\<dots> = (case varint_loop (of_nat (n div 128)) (?b # rest) of
        Err e \<Rightarrow> Err e | Ok (w, used) \<Rightarrow> Ok (w, used + length (core_prefix ?m)))"
      using 1(1) [OF False, of "?b # rest"] 1(2) by (simp only: m)
    also have "\<dots> = (case varint_loop (of_nat (n + 1)) rest of Err e \<Rightarrow> Err e
        | Ok (w, used) \<Rightarrow> Ok (w, used + length (core_prefix n)))"
      unfolding step using False by (simp add: core_prefix.simps [of n] split: sum.split prod.split)
    finally show ?thesis .
  qed
qed

lemma varint_loop_read:
  assumes "n < 2 ^ 64"
  shows "varint_loop 0 (core_varint n @ rest) = Ok (of_nat n, length (core_varint n))"
proof (cases "n \<le> 127")
  case True
  then have "unat (of_nat n :: u8) = n" by (intro unat_small_byte) simp
  with True show ?thesis by (simp add: core_varint_def varint_loop_step)
next
  case False
  let ?m = "n div 128 - 1"
  have m: "?m + 1 = n div 128" using False by (simp add: Suc_leI div_greater_zero_iff)
  have q: "n div 128 < 2 ^ 57" using assms by (simp add: div_less_iff_less_mult)
  then have u: "unat (of_nat (n div 128) :: u64) = n div 128" by (simp add: unat_of_nat)
  have b: "unat (of_nat (n mod 128) :: u8) = n mod 128"
    by (intro unat_small_byte) (use mod_less_divisor [of 128 n] in linarith)
  have low: "(128 \<le> n mod 128) = False" by (simp add: not_le)
  have step: "varint_loop (of_nat (n div 128)) (of_nat (n mod 128) # rest) = Ok (of_nat n, 1)"
    using q unfolding varint_loop_step u b low by (simp del: of_nat_add of_nat_mult)
  have "?m + 1 < 2 ^ 64" using q by (simp only: m) simp
  from varint_loop_prefix [OF this, of "of_nat (n mod 128) # rest"]
  show ?thesis using False unfolding m step by (simp add: core_varint_def)
qed

text \<open>Read from the accumulator \<open>a\<close>, the bytes complete the encoding whose prefix the accumulator stands for.\<close>

lemma varint_loop_canonical:
  "varint_loop a bs = Ok (n, used) \<Longrightarrow>
    (if a = 0 then [] else core_prefix (unat a - 1)) @ take used bs = core_varint (unat n) \<and> used \<le> length bs"
proof (induction bs arbitrary: a n used)
  case (Cons ch bs)
  let ?v = "unat a * 128 + unat ch mod 128"
  have ch: "unat ch < 256" using unat_bound [of ch] by simp
  have small: "unat a < 2 ^ 57" using Cons.prems unfolding varint_loop_step by (auto split: if_splits)
  then have v: "?v < 2 ^ 64" by (simp add: less_mult_imp_div_less) 
  have divmod: "?v div 128 = unat a" "?v mod 128 = unat ch mod 128" by simp_all
  have a0: "a = 0 \<longleftrightarrow> unat a = 0" by (simp add: unat_eq_zero)
  show ?case
  proof (cases "128 \<le> unat ch")
    case True
    have c: "unat ch mod 128 + 128 = unat ch" using True ch by (simp add: mod_nat_eqI [of "unat ch - 128"])
    have ne: "?v \<noteq> 2 ^ 64 - 1" using Cons.prems True small unfolding varint_loop_step by (auto split: if_splits)
    obtain u where r: "varint_loop (of_nat (?v + 1)) bs = Ok (n, u)" "used = u + 1"
      using Cons.prems True small ne unfolding varint_loop_step
      by (auto split: if_splits sum.splits)
    have "?v + 1 < 2 ^ 64" using v ne by linarith
    then have acc: "unat (of_nat (?v + 1) :: u64) = ?v + 1" by (rule unat_u64)
    then have "of_nat (?v + 1) \<noteq> (0 :: u64)" by (metis Suc_eq_plus1 nat.distinct(1) unat_0)
    with Cons.IH [OF r(1)] acc have IH: "core_prefix ?v @ take u bs = core_varint (unat n)" "u \<le> length bs"
      by simp_all
    have "core_prefix ?v = (if a = 0 then [] else core_prefix (unat a - 1)) @ [ch]"
    proof (cases "unat a = 0")
      case True
      moreover have "unat ch mod 128 \<le> 127" using mod_less_divisor [of 128 "unat ch"] by linarith
      ultimately have "core_prefix ?v = [of_nat (unat ch mod 128 + 128)]" by (subst core_prefix.simps) simp
      then show ?thesis using True unfolding c by (simp add: a0)
    next
      case False
      then have "\<not> ?v \<le> 127" by simp
      then have "core_prefix ?v = core_prefix (?v div 128 - 1) @ [of_nat (?v mod 128 + 128)]"
        by (subst core_prefix.simps) simp
      then show ?thesis using False unfolding divmod c by (simp add: a0)
    qed
    with IH r(2) show ?thesis by simp
  next
    case False
    then have r: "n = of_nat ?v" "used = 1"
      using Cons.prems small unfolding varint_loop_step by (auto split: if_splits)
    have n: "unat n = ?v" unfolding r(1) by (rule unat_u64 [OF v])
    have c: "unat ch mod 128 = unat ch" using False by simp
    show ?thesis
    proof (cases "unat a = 0")
      case True
      then show ?thesis using False c by (simp add: n r(2) core_varint_def a0)
    next
      case a: False
      then have "\<not> ?v \<le> 127" by simp
      then have "core_varint ?v = core_prefix (?v div 128 - 1) @ [of_nat (?v mod 128)]"
        by (simp only: core_varint_def if_False)
      also have "\<dots> = core_prefix (unat a - 1) @ [ch]" unfolding divmod by (simp add: c)
      finally show ?thesis using a unfolding n r(2) by (simp add: a0)
    qed
  qed
qed simp

text \<open>
  C34. The reader of base-128 integers is the exact inverse of the encoder of Bitcoin Core: it reads every
  64-bit number back, whatever follows, and it accepts no other byte sequence for a number.
\<close>

theorem core_varint_exact:
  "(n < 2 ^ 64 \<longrightarrow> read_core_varint (before @ core_varint n @ rest) (length before)
      = Ok (of_nat n, length (core_varint n)))
   \<and> (read_core_varint data offset = Ok (v, used) \<longrightarrow>
      take used (drop offset data) = core_varint (unat v) \<and> used \<le> length data - offset)"
  using varint_loop_read [of n rest] varint_loop_canonical [of 0 "drop offset data" v used]
  by (auto simp: read_core_varint_def)

theorem core_varint_exact_witness: "read_core_varint ([7] @ core_varint 1000 @ [9]) 1 = Ok (1000, 2)"
proof -
  have "length (core_varint 1000) = 2" by (simp add: core_varint_def core_prefix.simps)
  then show ?thesis using core_varint_exact [of 1000 "[7]" "[9]"] by simp
qed


section \<open>Amounts\<close>

text \<open>The compression of Bitcoin Core: up to nine trailing zeros become an exponent.\<close>

primrec trailing_zeros :: "nat \<Rightarrow> nat \<Rightarrow> nat" where
  "trailing_zeros 0 n = 0"
| "trailing_zeros (Suc k) n = (if n mod 10 = 0 then Suc (trailing_zeros k (n div 10)) else 0)"

definition core_compress :: "nat \<Rightarrow> nat" where
  "core_compress n =
     (if n = 0 then 0
      else
        let e = trailing_zeros 9 n; m = n div 10 ^ e
        in if e < 9 then 1 + (m div 10 * 9 + m mod 10 - 1) * 10 + e else 1 + (m - 1) * 10 + 9)"

text \<open>The value a compressed amount stands for.\<close>

definition amount_mantissa :: "nat \<Rightarrow> nat" where
  "amount_mantissa x = (if (x - 1) mod 10 < 9 then (x - 1) div 10 div 9 * 10 + ((x - 1) div 10 mod 9 + 1)
     else (x - 1) div 10 + 1)"

definition amount_value :: "nat \<Rightarrow> nat" where
  "amount_value x = (if x = 0 then 0 else amount_mantissa x * 10 ^ ((x - 1) mod 10))"

lemma trailing_zeros_bound: "trailing_zeros k n \<le> k"
  by (induction k arbitrary: n) auto

lemma trailing_zeros_dvd: "10 ^ trailing_zeros k n dvd n"
proof (induction k arbitrary: n)
  case (Suc k)
  show ?case
  proof (cases "n mod 10 = 0")
    case True
    then have "10 * 10 ^ trailing_zeros k (n div 10) dvd 10 * (n div 10)" using Suc by (intro mult_dvd_mono) auto
    moreover have "10 * (n div 10) = n" using True by auto
    ultimately show ?thesis using True by simp
  qed simp
qed simp

lemma trailing_zeros_stop: "trailing_zeros k n < k \<Longrightarrow> n div 10 ^ trailing_zeros k n mod 10 \<noteq> 0"
proof (induction k arbitrary: n)
  case (Suc k)
  then show ?case by (cases "n mod 10 = 0") (simp_all add: div_mult2_eq)
qed simp

lemma trailing_zeros_exact:
  "e \<le> k \<Longrightarrow> n mod 10 \<noteq> 0 \<or> e = k \<Longrightarrow> trailing_zeros k (n * 10 ^ e) = e"
proof (induction k arbitrary: e)
  case (Suc k)
  show ?case
  proof (cases e)
    case 0
    then show ?thesis using Suc.prems by simp
  next
    case (Suc d)
    have "n * 10 ^ Suc d mod 10 = 0" "n * 10 ^ Suc d div 10 = n * 10 ^ d" by simp_all
    then show ?thesis using Suc.IH [of d] Suc.prems Suc by simp
  qed
qed simp

lemma split_digit: "(e :: nat) < 10 \<Longrightarrow> (q * 10 + e) mod 10 = e" "e < 10 \<Longrightarrow> (q * 10 + e) div 10 = q"
  by simp_all

lemma amount_value_compress: "amount_value (core_compress n) = n"
proof (cases "n = 0")
  case False
  let ?e = "trailing_zeros 9 n" and ?m = "n div 10 ^ trailing_zeros 9 n"
  have n: "?m * 10 ^ ?e = n" using trailing_zeros_dvd by (rule dvd_div_mult_self)
  have m: "?m > 0" using n False by (metis mult_eq_0_iff neq0_conv)
  show ?thesis
  proof (cases "?e < 9")
    case True
    then have "?m mod 10 \<noteq> 0" by (rule trailing_zeros_stop)
    then obtain d where d: "?m mod 10 = Suc d" "d < 9"
      using mod_less_divisor [of 10 ?m] by (cases "?m mod 10") auto
    let ?x = "1 + (?m div 10 * 9 + ?m mod 10 - 1) * 10 + ?e"
    have x: "core_compress n = ?x" using False True by (simp add: core_compress_def Let_def)
    have "?x - 1 = (?m div 10 * 9 + d) * 10 + ?e" using d by simp
    then have dm: "(?x - 1) mod 10 = ?e" "(?x - 1) div 10 = ?m div 10 * 9 + d"
      using True by (simp_all only: split_digit)
    have dm9: "(?m div 10 * 9 + d) div 9 = ?m div 10" "(?m div 10 * 9 + d) mod 9 = d" using d(2) by simp_all
    have "amount_mantissa ?x = ?m div 10 * 10 + (d + 1)"
      unfolding amount_mantissa_def dm dm9 by (rule if_P [OF True])
    also have "\<dots> = ?m" using div_mult_mod_eq [of ?m 10] d(1) by simp
    finally have "amount_mantissa ?x = ?m" .
    moreover have "amount_value ?x = amount_mantissa ?x * 10 ^ ?e"
      using \<open>(?x - 1) mod 10 = ?e\<close> by (simp add: amount_value_def)
    ultimately show ?thesis unfolding x using n by simp
  next
    case nine: False
    then have e: "?e = 9" using trailing_zeros_bound [of 9 n] by simp
    let ?x = "1 + (?m - 1) * 10 + 9"
    have x: "core_compress n = ?x" using False nine by (simp add: core_compress_def Let_def)
    have "(?x - 1) mod 10 = 9" "(?x - 1) div 10 = ?m - 1" by simp_all
    then have "amount_value ?x = ?m * 10 ^ 9" using m by (simp add: amount_value_def amount_mantissa_def)
    then show ?thesis unfolding x using n e by simp
  qed
qed (simp add: core_compress_def amount_value_def)

lemma compress_amount_value: "core_compress (amount_value x) = x"
proof (cases "x = 0")
  case False
  let ?e = "(x - 1) mod 10" and ?n = "amount_mantissa x"
  have e: "?e \<le> 9" using mod_less_divisor [of 10 "x - 1"] by linarith
  have x: "x = 1 + (x - 1) div 10 * 10 + ?e" using False by presburger
  have n: "?n mod 10 \<noteq> 0 \<or> ?e = 9" "?n > 0"
    using e by (auto simp: amount_mantissa_def mod_add_eq)
  have v: "amount_value x = ?n * 10 ^ ?e" using False by (simp add: amount_value_def)
  have z: "trailing_zeros 9 (?n * 10 ^ ?e) = ?e" by (rule trailing_zeros_exact) (use e n in auto)
  have m: "?n * 10 ^ ?e div 10 ^ ?e = ?n" by simp
  have nz: "?n * 10 ^ ?e \<noteq> 0" using n(2) by simp
  show ?thesis
  proof (cases "?e < 9")
    case True
    let ?q = "(x - 1) div 10"
    have nn: "?n = ?q div 9 * 10 + (?q mod 9 + 1)" using True by (simp add: amount_mantissa_def)
    have "?q mod 9 + 1 < 10" using mod_less_divisor [of 9 ?q] by linarith
    then have "?n div 10 = ?q div 9" "?n mod 10 = ?q mod 9 + 1" unfolding nn by (simp_all only: split_digit)
    then have "?n div 10 * 9 + ?n mod 10 - 1 = ?q" by simp
    then show ?thesis
      using True x nz unfolding v core_compress_def Let_def z m by simp
  next
    case nine: False
    then have e9: "?e = 9" using e by simp
    have "?n = (x - 1) div 10 + 1" using nine by (simp add: amount_mantissa_def)
    moreover have "x = 1 + (x - 1) div 10 * 10 + 9" using x unfolding e9 .
    ultimately have "1 + (?n - 1) * 10 + 9 = x" by linarith
    then show ?thesis using nz nine unfolding v core_compress_def Let_def z m by simp
  qed
qed (simp add: core_compress_def amount_value_def)

lemma times_ten_eq: "times_ten k n = Ok m \<longleftrightarrow> unat m = unat n * 10 ^ k"
proof (induction k arbitrary: n)
  case 0
  then show ?case by (auto simp: word_unat_eq_iff)
next
  case (Suc k)
  show ?case
  proof (cases "checked_mul n 10")
    case None
    then have "2 ^ 64 \<le> unat n * 10" by (simp add: checked_mul_def split: if_splits)
    also have "\<dots> \<le> unat n * 10 ^ Suc k" by simp
    finally have "unat m \<noteq> unat n * 10 ^ Suc k" using unat_bound [of m] by simp
    with None show ?thesis by simp
  next
    case (Some p)
    then have "unat p = unat n * 10" by (simp add: checked_mul_Some_iff)
    with Some Suc.IH [of p] show ?thesis by (simp add: mult.assoc)
  qed
qed

lemma decompress_amount_inverse:
  "decompress_amount x = Ok a \<longleftrightarrow> unat x = core_compress (unat a) \<and> int (unat a) \<le> i64_max"
proof -
  have val: "decompress_amount x = Ok a \<longleftrightarrow> amount_value (unat x) = unat a \<and> int (unat a) \<le> i64_max"
  proof (cases "x = 0")
    case True
    then show ?thesis by (auto simp: decompress_amount_def amount_value_def i64_max_def unat_eq_zero)
  next
    case False
    let ?x2 = "(x - 1) div 10" and ?e = "(x - 1) mod 10"
    let ?n = "if ?e < 9 then ?x2 div 9 * 10 + (?x2 mod 9 + 1) else ?x2 + 1"
    have x1: "unat (x - 1) = unat x - 1" using False by (simp add: unat_minus_one)
    have e: "unat ?e = (unat x - 1) mod 10" and q: "unat ?x2 = (unat x - 1) div 10"
      by (simp_all add: unat_mod_distrib unat_div_distrib x1)
    have qb: "unat ?x2 * 10 < 2 ^ 64" using unat_bound [of x] unfolding q by simp
    have "unat (?x2 div 9) = unat ?x2 div 9" "unat (?x2 mod 9) = unat ?x2 mod 9"
      by (simp_all add: unat_div_distrib unat_mod_distrib)
    then have n1: "unat (?x2 div 9 * 10 + (?x2 mod 9 + 1)) = unat ?x2 div 9 * 10 + (unat ?x2 mod 9 + 1)"
      using qb by (simp add: unat_word_ariths)
    have n2: "unat (?x2 + 1) = unat ?x2 + 1" using qb by (simp add: unat_word_ariths)
    have "?e < 9 \<longleftrightarrow> unat ?e < 9" by (simp add: word_less_nat_alt)
    then have n: "unat ?n = amount_mantissa (unat x)"
      using n1 n2 unfolding amount_mantissa_def e q by (cases "(unat x - 1) mod 10 < 9") simp_all
    have "unat x \<noteq> 0" using False by (simp add: unat_eq_zero)
    then have v: "amount_value (unat x) = unat ?n * 10 ^ unat ?e" unfolding n e by (simp add: amount_value_def)
    have "decompress_amount x = Ok a \<longleftrightarrow> times_ten (unat ?e) ?n = Ok a \<and> uint a \<le> i64_max"
      using False by (auto simp: decompress_amount_def Let_def split: sum.splits if_splits)
    then show ?thesis unfolding times_ten_eq v by auto
  qed
  have "amount_value (unat x) = unat a \<longleftrightarrow> unat x = core_compress (unat a)"
    using amount_value_compress compress_amount_value by metis
  with val show ?thesis by simp
qed

text \<open>
  C35. Decompression accepts a number exactly when it is the compression, by the rule of Bitcoin Core, of the amount
  it returns and that amount fits in a signed 64-bit integer: the two are inverse to
  each other, and nothing wraps.
\<close>

theorem decompress_amount_exact:
  "decompress_amount x = Ok a \<longleftrightarrow> unat x = core_compress (unat a) \<and> int (unat a) \<le> i64_max"
  by (rule decompress_amount_inverse)

lemma core_compress_bound: "core_compress n \<le> 10 * n + 10"
proof -
  let ?e = "trailing_zeros 9 n" and ?m = "n div 10 ^ trailing_zeros 9 n"
  have "?m div 10 * 9 + ?m mod 10 \<le> ?m" using div_mult_mod_eq [of ?m 10] by linarith
  moreover have "?m \<le> n" by simp
  ultimately have "(?m div 10 * 9 + ?m mod 10 - 1) * 10 \<le> n * 10" "(?m - 1) * 10 \<le> n * 10"
    by linarith+
  then have "1 + (?m div 10 * 9 + ?m mod 10 - 1) * 10 + ?e \<le> 10 * n + 10" "1 + (?m - 1) * 10 + 9 \<le> 10 * n + 10"
    using trailing_zeros_bound [of 9 n] by linarith+
  then show ?thesis unfolding core_compress_def Let_def by (simp only: split: if_split) simp
qed


section \<open>Coins\<close>

text \<open>
  The encoders of Bitcoin Core for scripts and coins. A script that pays to an uncompressed public key is shortened when
  \<open>valid\<close>, the check of the curve library, holds of the key: the code carries the lowest bit of its last byte.
\<close>

definition core_script_bytes :: "(byte_string \<Rightarrow> bool) \<Rightarrow> byte_string \<Rightarrow> byte_string" where
  "core_script_bytes valid s =
     (if length s = 25 \<and> take 3 s = [0x76, 0xa9, 0x14] \<and> drop 23 s = [0x88, 0xac]
      then core_varint 0 @ slice s 3 23
      else if length s = 23 \<and> take 2 s = [0xa9, 0x14] \<and> drop 22 s = [0x87]
      then core_varint 1 @ slice s 2 22
      else if length s = 35 \<and> take 2 s = [0x21, 2] \<and> drop 34 s = [0xac]
      then core_varint 2 @ slice s 2 34
      else if length s = 35 \<and> take 2 s = [0x21, 3] \<and> drop 34 s = [0xac]
      then core_varint 3 @ slice s 2 34
      else if length s = 67 \<and> take 2 s = [65, 4] \<and> drop 66 s = [0xac] \<and> valid (slice s 1 66)
      then core_varint (if odd (s ! 65) then 5 else 4) @ slice s 2 34
      else core_varint (length s + 6) @ s)"

definition core_coin_bytes :: "(byte_string \<Rightarrow> bool) \<Rightarrow> core_coin \<Rightarrow> byte_string" where
  "core_coin_bytes valid c =
     core_varint (2 * unat (coin_height c) + (if coin_is_coinbase c then 1 else 0))
     @ core_varint (core_compress (unat (coin_amount c))) @ core_script_bytes valid (coin_script c)"

text \<open>
  What the reader relies on of the curve library: a valid key is recovered from its first coordinate and the parity of
  its second, with \<open>2\<close> in front when that is even and \<open>3\<close> when it is odd.
\<close>

definition key_recovery :: "(byte_string \<Rightarrow> byte_string option) \<Rightarrow> (byte_string \<Rightarrow> bool) \<Rightarrow> bool" where
  "key_recovery uncompress valid \<longleftrightarrow>
     (\<forall>x y. length x = 32 \<longrightarrow> length y = 32 \<longrightarrow> valid (4 # x @ y) \<longrightarrow>
        uncompress ((if odd (y ! 31) then 3 else 2) # x) = Some (4 # x @ y))"

lemma read_varint_at:
  "n < 2 ^ 64 \<Longrightarrow> read_core_varint (before @ core_varint n @ rest) (length before) = Ok (of_nat n, length (core_varint n))"
  by (simp add: read_core_varint_def varint_loop_read)

lemma special_script_at:
  assumes "k < 6" "length body = unat (special_script_size (of_nat k))"
  shows "decompress_script_pubkey u (before @ core_varint k @ body @ rest) (length before) =
    (case decompress_script u (of_nat k) body of Err e \<Rightarrow> Err e
     | Ok script \<Rightarrow> Ok (script, length (core_varint k) + length body))"
proof -
  let ?data = "before @ core_varint k @ body @ rest"
  have "read_core_varint ?data (length before) = Ok (of_nat k, length (core_varint k))"
    using assms(1) by (intro read_varint_at) simp
  moreover have "(of_nat k :: u64) < 6" using assms(1) by (simp add: word_less_nat_alt unat_of_nat)
  moreover have "(ucast (of_nat k :: u64) :: u32) = of_nat k"
    using assms(1) by (simp add: word_unat_eq_iff unsigned_ucast_eq unat_of_nat take_bit_nat_eq_self)
  ultimately show ?thesis
    using assms(2) by (simp add: decompress_script_pubkey_def Let_def slice_def split: sum.split)
qed

lemma verbatim_script_at:
  assumes "length script \<le> 10000"
  shows "decompress_script_pubkey u (before @ (core_varint (length script + 6) @ script) @ rest) (length before)
    = Ok (script, length (core_varint (length script + 6)) + length script)"
proof -
  let ?data = "before @ core_varint (length script + 6) @ script @ rest"
  have r: "read_core_varint ?data (length before)
      = Ok (of_nat (length script + 6), length (core_varint (length script + 6)))"
    using assms by (intro read_varint_at) simp
  have u: "unat (of_nat (length script + 6) :: u64) = length script + 6"
    using assms by (intro unat_u64) simp
  have "of_nat (length script + 6) - 6 = (of_nat (length script) :: u64)" by simp
  moreover have "unat (of_nat (length script) :: u64) = length script"
    using assms by (intro unat_u64) simp
  ultimately have m: "unat (of_nat (length script + 6) - 6 :: u64) = length script" by (simp only:)
  have "\<not> (of_nat (length script + 6) :: u64) < 6" unfolding word_less_nat_alt u by simp
  then show ?thesis
    using r assms by (simp add: decompress_script_pubkey_def Let_def m slice_def del: of_nat_add)
qed

lemma full_key_parts:
  fixes script :: byte_string
  assumes "length script = 67" "take 2 script = [65, 4]" "drop 66 script = [0xac]"
  obtains x y where "length x = 32" "length y = 32" "slice script 2 34 = x" "slice script 1 66 = 4 # x @ y"
    and "script ! 65 = y ! 31" "65 # 4 # x @ y @ [0xac] = script"
proof -
  let ?x = "slice script 2 34" and ?y = "slice script 34 66"
  have len: "length ?x = 32" "length ?y = 32" using assms(1) by (simp_all add: slice_def)
  have "drop 34 script = ?y @ drop 66 script"
    using append_take_drop_id [of 32 "drop 34 script"] by (simp add: slice_def)
  moreover have "drop 2 script = ?x @ drop 34 script"
    using append_take_drop_id [of 32 "drop 2 script"] by (simp add: slice_def)
  ultimately have eq: "65 # 4 # ?x @ ?y @ [0xac] = script"
    using append_take_drop_id [of 2 script] assms(2,3) by simp
  have "slice (65 # 4 # x @ y @ [0xac]) 1 66 = 4 # x @ y" "(65 # 4 # x @ y @ [0xac]) ! 65 = y ! 31"
    if "length x = 32" "length y = 32" for x y :: byte_string
    using that by (simp_all add: slice_def nth_append)
  from this [OF len] show thesis using that [OF len refl _ _ eq] unfolding eq by blast
qed

lemma script_roundtrip:
  assumes "length script \<le> 10000" "key_recovery u valid"
  shows "\<exists>k. decompress_script_pubkey u (before @ core_script_bytes valid script @ rest) (length before) = Ok (script, k)"
proof -
  note raw = verbatim_script_at [OF assms(1), of u before rest]
  have parts: "script = take a script @ slice script a b @ drop b script" if "a \<le> b" for a b
    using that by (simp add: slice_def) (metis append_take_drop_id take_add le_add_diff_inverse append_assoc)
  have sl: "length (slice script a b) = b - a" if "b \<le> length script" for a b
    using that by (simp add: slice_def)
  note S = special_script_at [where u = u and before = before and rest = rest] 
  consider (p2pkh) "length script = 25" "take 3 script = [0x76, 0xa9, 0x14]" "drop 23 script = [0x88, 0xac]"
    | (p2sh) "length script = 23" "take 2 script = [0xa9, 0x14]" "drop 22 script = [0x87]"
    | (even) "length script = 35" "take 2 script = [0x21, 2]" "drop 34 script = [0xac]"
    | (odd) "length script = 35" "take 2 script = [0x21, 3]" "drop 34 script = [0xac]"
    | (full) "length script = 67" "take 2 script = [65, 4]" "drop 66 script = [0xac]" "valid (slice script 1 66)"
    | (other) "core_script_bytes valid script = core_varint (length script + 6) @ script"
    by (cases "core_script_bytes valid script = core_varint (length script + 6) @ script")
      (auto simp: core_script_bytes_def split: if_splits)
  then show ?thesis
  proof cases
    case p2pkh
    then show ?thesis
      using S [of 0 "slice script 3 23"] parts [of 3 23] sl [of 23 3]
      by (simp add: core_script_bytes_def special_script_size_def decompress_script_def)
  next
    case p2sh
    then show ?thesis
      using S [of 1 "slice script 2 22"] parts [of 2 22] sl [of 22 2]
      by (simp add: core_script_bytes_def special_script_size_def decompress_script_def)
  next
    case even
    then show ?thesis
      using S [of 2 "slice script 2 34"] parts [of 2 34] sl [of 34 2]
      by (simp add: core_script_bytes_def special_script_size_def decompress_script_def)
  next
    case odd
    then show ?thesis
      using S [of 3 "slice script 2 34"] parts [of 2 34] sl [of 34 2]
      by (simp add: core_script_bytes_def special_script_size_def decompress_script_def)
  next
    case full
    obtain x y where xy: "length x = 32" "length y = 32" "slice script 2 34 = x" "slice script 1 66 = 4 # x @ y"
      "script ! 65 = y ! 31" "65 # 4 # x @ y @ [0xac] = script"
      by (rule full_key_parts [OF full(1-3)]) (rule that)
    then have "u ((if odd (script ! 65) then 3 else 2) # x) = Some (4 # x @ y)"
      using assms(2) full(4) by (simp add: key_recovery_def)
    then show ?thesis
      using S [of 4 x] S [of 5 x] xy full
      by (cases "odd (script ! 65)") (simp_all add: core_script_bytes_def special_script_size_def decompress_script_def)
  next
    case other
    then show ?thesis using raw by auto
  qed
qed

text \<open>
  C36. Every coin Bitcoin Core writes is read back: script, amount, height and the coinbase flag, with the special
  forms of a script (to a key hash, to a script hash, to a compressed key, to a valid uncompressed key) and the verbatim
  one, and with any bytes after it. The script has at most ten thousand bytes, the amount is within the money
  supply, and the curve library recovers a valid key from its compressed form.
\<close>

theorem core_coin_roundtrip:
  assumes "length (coin_script c) \<le> 10000" "coin_amount c \<le> 2100000000000000" "key_recovery u valid"
  shows "parse_core_coin u (core_coin_bytes valid c @ rest) = Ok c"
proof -
  let ?code = "2 * unat (coin_height c) + (if coin_is_coinbase c then 1 else 0)"
  let ?amount = "core_compress (unat (coin_amount c))"
  let ?a = "core_varint ?code" and ?b = "core_varint ?amount" and ?s = "core_script_bytes valid (coin_script c) @ rest"
  have data: "core_coin_bytes valid c @ rest = ?a @ ?b @ ?s" by (simp add: core_coin_bytes_def)
  have h: "unat (coin_height c) < 2 ^ 32" using unat_bound [of "coin_height c"] by simp
  have code: "?code < 2 ^ 64" using h by simp
  have amt: "unat (coin_amount c) \<le> 2100000000000000" using assms(2) by (simp add: word_le_nat_alt)
  have amount: "?amount < 2 ^ 64" using core_compress_bound [of "unat (coin_amount c)"] amt by simp
  have r1: "read_core_varint (?a @ ?b @ ?s) 0 = Ok (of_nat ?code, length ?a)"
    using read_varint_at [OF code, of "[]"] by simp
  have r2: "read_core_varint (?a @ ?b @ ?s) (length ?a) = Ok (of_nat ?amount, length ?b)"
    by (rule read_varint_at [OF amount])
  have d: "decompress_amount (of_nat ?amount) = Ok (coin_amount c)"
    unfolding decompress_amount_inverse unat_u64 [OF amount] using amt
    by (simp add: i64_max_def del: of_nat_unat)
  obtain k where r3: "decompress_script_pubkey u (?a @ ?b @ ?s) (length ?a + length ?b) = Ok (coin_script c, k)"
    using script_roundtrip [OF assms(1,3), of "?a @ ?b" rest] by auto
  have hc: "unat (drop_bit 1 (of_nat ?code :: u64)) = unat (coin_height c)"
  proof -
    have "unat (drop_bit 1 w) = unat w div 2" for w :: u64
      by (simp add: drop_bit_eq_div unat_div_distrib)
    then have "unat (drop_bit 1 (of_nat ?code :: u64)) = unat (of_nat ?code :: u64) div 2" .
    also have "\<dots> = ?code div 2" by (simp only: unat_u64 [OF code])
    also have "\<dots> = unat (coin_height c)" by simp
    finally show ?thesis .
  qed
  then have "\<not> drop_bit 1 (of_nat ?code :: u64) > 0xFFFFFFFF" using h by (simp add: word_less_nat_alt)
  moreover have "ucast (drop_bit 1 (of_nat ?code :: u64)) = coin_height c"
    using h unfolding word_unat_eq_iff unsigned_ucast_eq hc by (simp add: take_bit_nat_eq_self)
  moreover have "(of_nat ?code AND 1 \<noteq> (0 :: u64)) = coin_is_coinbase c"
    by (simp add: and_one_eq word_unat_eq_iff mod_2_eq_odd)
  ultimately show ?thesis unfolding data parse_core_coin_def r1 by (simp add: r2 d r3 Let_def del: of_nat_add)
qed

text \<open>A coin of an uncompressed key with an odd second coordinate.\<close>

definition demo_key :: byte_string where
  "demo_key = 4 # replicate 32 7 @ replicate 32 9"

definition demo_coin_row :: core_coin where
  "demo_coin_row = \<lparr> coin_script = [65] @ demo_key @ [0xac], coin_amount = 5000000000,
     coin_height = 170, coin_is_coinbase = True \<rparr>"

definition demo_uncompress :: "byte_string \<Rightarrow> byte_string option" where
  "demo_uncompress key = (if key = 3 # replicate 32 7 then Some demo_key else None)"

theorem core_coin_roundtrip_witness:
  "parse_core_coin demo_uncompress (core_coin_bytes (\<lambda>key. key = demo_key) demo_coin_row @ [1, 2]) = Ok demo_coin_row
   \<and> core_script_bytes (\<lambda>key. key = demo_key) (coin_script demo_coin_row) = core_varint 5 @ replicate 32 7"
proof
  have split: "x = replicate 32 7 \<and> y = replicate 32 9" if "length x = 32" "4 # x @ y = demo_key" for x y
    using that append_eq_append_conv [of x "replicate 32 7" y "replicate 32 9"] by (simp add: demo_key_def)
  have "key_recovery demo_uncompress (\<lambda>key. key = demo_key)"
    unfolding key_recovery_def by (intro allI impI, drule split) (auto simp: demo_uncompress_def demo_key_def)
  then show "parse_core_coin demo_uncompress (core_coin_bytes (\<lambda>key. key = demo_key) demo_coin_row @ [1, 2]) = Ok demo_coin_row"
    by (intro core_coin_roundtrip) (simp_all add: demo_coin_row_def demo_key_def)
  show "core_script_bytes (\<lambda>key. key = demo_key) (coin_script demo_coin_row) = core_varint 5 @ replicate 32 7"
    by (simp add: core_script_bytes_def demo_coin_row_def demo_key_def slice_def nth_append)
qed

end
