(* ===== verification/Tx_Inflight.thy ===== *)
theory Tx_Inflight
  imports Prelude
begin

text \<open>
  The transaction requests outstanding with each peer, \<^verbatim>\<open>network/tx_inflight.rs\<close>. An instant is its nanoseconds, a
  peer address any type with equality.
\<close>


section \<open>Definitions\<close>

definition MAX_PEER_IN_FLIGHT :: nat where "MAX_PEER_IN_FLIGHT = 100"
definition MAX_PEER_ANNOUNCEMENTS :: nat where "MAX_PEER_ANNOUNCEMENTS = 5000"
definition REQUEST_LIFETIME :: nat where "REQUEST_LIFETIME = 60 * 10 ^ 9"

record peer_tx_requests =
  in_flight :: "(hash, nat) hmap"
  waiting :: "hash list"
  waiting_set :: "hash hset"

type_synonym 'p tx_request_tracker = "('p, peer_tx_requests) hmap"

definition no_requests :: peer_tx_requests where
  "no_requests = \<lparr> in_flight = [], waiting = [], waiting_set = [] \<rparr>"

text \<open>The loop of \<^verbatim>\<open>promote\<close> over the waiting hashes; \<^verbatim>\<open>pop_front\<close> shortens the queue.\<close>

fun promote_loop :: "nat \<Rightarrow> hash list \<Rightarrow> peer_tx_requests \<Rightarrow> hash list \<Rightarrow> peer_tx_requests \<times> hash list" where
  "promote_loop now [] st request = (st \<lparr> waiting := [] \<rparr>, request)"
| "promote_loop now (hash # queue) st request =
     (if length (in_flight st) < MAX_PEER_IN_FLIGHT then
        let st1 = st \<lparr> waiting := queue, waiting_set := hs_remove hash (waiting_set st) \<rparr> in
        if hm_get (in_flight st1) hash \<noteq> None then promote_loop now queue st1 request
        else promote_loop now queue (st1 \<lparr> in_flight := hm_insert hash now (in_flight st1) \<rparr>) (request @ [hash])
      else (st \<lparr> waiting := hash # queue \<rparr>, request))"

definition retain_live :: "nat \<Rightarrow> (hash, nat) hmap \<Rightarrow> (hash, nat) hmap" where
  "retain_live now m = filter (\<lambda>(_, requested_at). now - requested_at \<le> REQUEST_LIFETIME) m"

definition promote :: "peer_tx_requests \<Rightarrow> nat \<Rightarrow> hash list \<Rightarrow> peer_tx_requests \<times> hash list" where
  "promote st now request =
     promote_loop now (waiting st) (st \<lparr> in_flight := retain_live now (in_flight st) \<rparr>) request"

definition announce :: "nat \<Rightarrow> peer_tx_requests \<times> hash list \<Rightarrow> hash \<Rightarrow> peer_tx_requests \<times> hash list" where
  "announce now s hash =
     (case s of (st, request) \<Rightarrow>
        if hm_get (in_flight st) hash \<noteq> None \<or> hash \<in> set (waiting_set st) then (st, request)
        else if length (in_flight st) < MAX_PEER_IN_FLIGHT
        then (st \<lparr> in_flight := hm_insert hash now (in_flight st) \<rparr>, request @ [hash])
        else if length (waiting st) < MAX_PEER_ANNOUNCEMENTS
        then (st \<lparr> waiting := waiting st @ [hash], waiting_set := hs_insert hash (waiting_set st) \<rparr>, request)
        else (st, request))"

text \<open>A peer without requests leaves the map.\<close>

definition put_back :: "'p \<Rightarrow> peer_tx_requests \<Rightarrow> 'p tx_request_tracker \<Rightarrow> 'p tx_request_tracker" where
  "put_back peer st tr =
     (if in_flight st = [] \<and> waiting st = [] then hm_remove peer tr else hm_insert peer st tr)"

definition admit ::
  "'p \<Rightarrow> hash list \<Rightarrow> nat \<Rightarrow> 'p tx_request_tracker \<Rightarrow> 'p tx_request_tracker \<times> hash list" where
  "admit peer hashes now tr =
     (let st0 = (case hm_get tr peer of Some st \<Rightarrow> st | None \<Rightarrow> no_requests);
          (st, request) = foldl (announce now) (promote st0 now []) hashes
      in (put_back peer st tr, request))"

definition complete :: "'p \<Rightarrow> hash \<Rightarrow> nat \<Rightarrow> 'p tx_request_tracker \<Rightarrow> 'p tx_request_tracker \<times> hash list" where
  "complete peer hash now tr =
     (case hm_get tr peer of
        None \<Rightarrow> (tr, [])
      | Some st \<Rightarrow>
          let (st1, request) = promote (st \<lparr> in_flight := hm_remove hash (in_flight st) \<rparr>) now []
          in (put_back peer st1 tr, request))"

definition forget_peer :: "'p \<Rightarrow> 'p tx_request_tracker \<Rightarrow> 'p tx_request_tracker" where
  "forget_peer peer tr = hm_remove peer tr"

definition in_flight_len :: "'p tx_request_tracker \<Rightarrow> 'p \<Rightarrow> nat" where
  "in_flight_len tr peer = (case hm_get tr peer of Some st \<Rightarrow> length (in_flight st) | None \<Rightarrow> 0)"

definition waiting_len :: "'p tx_request_tracker \<Rightarrow> 'p \<Rightarrow> nat" where
  "waiting_len tr peer = (case hm_get tr peer of Some st \<Rightarrow> length (waiting st) | None \<Rightarrow> 0)"

definition is_in_flight :: "'p tx_request_tracker \<Rightarrow> 'p \<Rightarrow> hash \<Rightarrow> bool" where
  "is_in_flight tr peer hash =
     (case hm_get tr peer of Some st \<Rightarrow> hm_get (in_flight st) hash \<noteq> None | None \<Rightarrow> False)"


section \<open>The state of one peer\<close>

abbreviation requested :: "peer_tx_requests \<Rightarrow> hash set" where
  "requested st \<equiv> fst ` set (in_flight st)"

definition peer_inv :: "peer_tx_requests \<Rightarrow> bool" where
  "peer_inv st \<longleftrightarrow>
     hm_wf (in_flight st) \<and> length (in_flight st) \<le> MAX_PEER_IN_FLIGHT
     \<and> distinct (waiting st) \<and> length (waiting st) \<le> MAX_PEER_ANNOUNCEMENTS
     \<and> distinct (waiting_set st) \<and> set (waiting_set st) = set (waiting st)
     \<and> requested st \<inter> set (waiting st) = {}"

text \<open>No slot stays open while a hash waits.\<close>

definition saturated :: "peer_tx_requests \<Rightarrow> bool" where
  "saturated st \<longleftrightarrow> waiting st = [] \<or> length (in_flight st) = MAX_PEER_IN_FLIGHT"

lemma hm_insert_fresh: "hm_get m k = None \<Longrightarrow> hm_insert k v m = m @ [(k, v)]"
  by (induction m) (auto split: if_splits)

lemma hm_get_None: "hm_get m k = None \<longleftrightarrow> k \<notin> fst ` set m"
  by (rule map_of_eq_None_iff)

lemma set_retain_live: "set (retain_live now m) \<subseteq> set m"
  by (auto simp: retain_live_def)

lemma retain_live_wf: "hm_wf m \<Longrightarrow> hm_wf (retain_live now m)"
  by (auto simp: retain_live_def hm_wf_def intro: distinct_map_filter)

text \<open>The window of requests takes hashes from the front of the queue, in order, as long as there is a slot.\<close>

lemma promote_loop_takes:
  assumes "distinct queue" "requested st \<inter> set queue = {}"
  shows "promote_loop now queue st request =
    (let k = MAX_PEER_IN_FLIGHT - length (in_flight st) in
     (st \<lparr> in_flight := in_flight st @ map (\<lambda>h. (h, now)) (take k queue), waiting := drop k queue,
           waiting_set := filter (\<lambda>h. h \<notin> set (take k queue)) (waiting_set st) \<rparr>,
      request @ take k queue))"
  using assms
proof (induction queue arbitrary: st request)
  case Nil
  then show ?case by simp
next
  case (Cons h queue)
  show ?case
  proof (cases "length (in_flight st) < MAX_PEER_IN_FLIGHT")
    case True
    then obtain k where k: "MAX_PEER_IN_FLIGHT - length (in_flight st) = Suc k"
      by (metis Suc_diff_Suc)
    then have k': "MAX_PEER_IN_FLIGHT - Suc (length (in_flight st)) = k" by simp
    have fresh: "hm_get (in_flight st) h = None" using Cons.prems by (auto simp: hm_get_None)
    let ?st1 = "st \<lparr> waiting := queue, waiting_set := hs_remove h (waiting_set st), in_flight := in_flight st @ [(h, now)] \<rparr>"
    have "promote_loop now (h # queue) st request = promote_loop now queue ?st1 (request @ [h])"
      using True fresh by (simp add: Let_def hm_insert_fresh)
    also have "\<dots> = (let k = MAX_PEER_IN_FLIGHT - length (in_flight ?st1) in
       (?st1 \<lparr> in_flight := in_flight ?st1 @ map (\<lambda>h. (h, now)) (take k queue), waiting := drop k queue,
             waiting_set := filter (\<lambda>h. h \<notin> set (take k queue)) (waiting_set ?st1) \<rparr>,
        (request @ [h]) @ take k queue))"
      using Cons.prems by (intro Cons.IH) auto
    finally show ?thesis by (auto simp: k k' Let_def hs_remove_def intro: filter_cong)
  next
    case False
    then show ?thesis by simp
  qed
qed

lemma promote_takes:
  assumes "peer_inv st"
  shows "promote st now request =
    (let live = retain_live now (in_flight st); k = MAX_PEER_IN_FLIGHT - length live in
     (\<lparr> in_flight = live @ map (\<lambda>h. (h, now)) (take k (waiting st)), waiting = drop k (waiting st),
        waiting_set = filter (\<lambda>h. h \<notin> set (take k (waiting st))) (waiting_set st) \<rparr>,
      request @ take k (waiting st)))"
proof -
  have "requested (st \<lparr> in_flight := retain_live now (in_flight st) \<rparr>) \<inter> set (waiting st) = {}"
    using assms set_retain_live [of now "in_flight st"] by (fastforce simp: peer_inv_def)
  with assms show ?thesis
    by (simp add: promote_def promote_loop_takes peer_inv_def Let_def)
qed

lemma promote_inv:
  assumes "peer_inv st"
  shows "peer_inv (fst (promote st now request))" "saturated (fst (promote st now request))"
proof -
  let ?live = "retain_live now (in_flight st)"
  let ?k = "MAX_PEER_IN_FLIGHT - length ?live"
  have le: "length ?live \<le> MAX_PEER_IN_FLIGHT"
    using assms by (auto simp: peer_inv_def retain_live_def intro: order.trans [OF length_filter_le])
  have split: "set (waiting st) = set (take ?k (waiting st)) \<union> set (drop ?k (waiting st))"
    by (metis append_take_drop_id set_append)
  have apart: "set (take ?k (waiting st)) \<inter> set (drop ?k (waiting st)) = {}"
    using assms by (metis append_take_drop_id distinct_append peer_inv_def)
  have keys: "fst ` set ?live \<subseteq> requested st" using set_retain_live by (rule image_mono)
  have disj: "requested st \<inter> set (waiting st) = {}" using assms by (simp add: peer_inv_def)
  have "fst ` set ?live \<inter> set (take ?k (waiting st)) = {}" using keys disj split by blast
  then have "hm_wf (?live @ map (\<lambda>h. (h, now)) (take ?k (waiting st)))"
    using assms retain_live_wf [of "in_flight st" now] by (simp add: hm_wf_def peer_inv_def comp_def)
  moreover have "(fst ` set ?live \<union> set (take ?k (waiting st))) \<inter> set (drop ?k (waiting st)) = {}"
    using keys disj split apart by blast
  ultimately show "peer_inv (fst (promote st now request))"
    unfolding promote_takes [OF assms] Let_def
    using assms le split apart by (auto simp: peer_inv_def image_Un image_image)
  show "saturated (fst (promote st now request))"
    unfolding promote_takes [OF assms] Let_def using le by (auto simp: saturated_def)
qed


lemma announce_inv:
  assumes "peer_inv st" "saturated st" "announce now (st, request) h = (st', request')"
  shows "peer_inv st' \<and> saturated st'"
proof -
  have keys: "hm_get (in_flight st) h = None \<longleftrightarrow> h \<notin> requested st" by (rule hm_get_None)
  show ?thesis
  proof (cases "hm_get (in_flight st) h \<noteq> None \<or> h \<in> set (waiting_set st)")
    case True
    with assms show ?thesis by (auto simp: announce_def)
  next
    case False
    with assms keys show ?thesis
      by (auto simp: announce_def peer_inv_def saturated_def hm_insert_fresh hm_wf_def disjoint_iff split: if_splits)
         (metis fst_conv image_eqI)
  qed
qed

text \<open>
  What a run over announced hashes does: requests and queue only grow, the new requests are distinct, were not
  outstanding and are now, and every announced hash is accounted for unless the queue is full.
\<close>

definition tracked :: "peer_tx_requests \<Rightarrow> hash \<Rightarrow> bool" where
  "tracked st h \<longleftrightarrow> h \<in> requested st \<or> h \<in> set (waiting st) \<or> MAX_PEER_ANNOUNCEMENTS \<le> length (waiting st)"

definition announced ::
  "nat \<Rightarrow> hash set \<Rightarrow> peer_tx_requests \<times> hash list \<Rightarrow> peer_tx_requests \<times> hash list \<Rightarrow> bool" where
  "announced now H s s' \<longleftrightarrow>
     set (in_flight (fst s)) \<subseteq> set (in_flight (fst s'))
     \<and> set (waiting (fst s)) \<subseteq> set (waiting (fst s')) \<and> length (waiting (fst s)) \<le> length (waiting (fst s'))
     \<and> (\<forall>h\<in>H. tracked (fst s') h)
     \<and> (\<exists>more. snd s' = snd s @ more \<and> distinct more \<and> set more \<subseteq> H
          \<and> (\<forall>x\<in>set more. x \<notin> requested (fst s) \<and> (x, now) \<in> set (in_flight (fst s'))))"

lemma announced_empty: "announced now {} s s"
  by (auto simp: announced_def)

lemma tracked_mono:
  "tracked st h \<Longrightarrow> set (in_flight st) \<subseteq> set (in_flight st') \<Longrightarrow> set (waiting st) \<subseteq> set (waiting st')
   \<Longrightarrow> length (waiting st) \<le> length (waiting st') \<Longrightarrow> tracked st' h"
  by (auto simp: tracked_def)

lemma announcedD:
  assumes "announced now H s s'"
  shows "set (in_flight (fst s)) \<subseteq> set (in_flight (fst s'))" "set (waiting (fst s)) \<subseteq> set (waiting (fst s'))"
    "length (waiting (fst s)) \<le> length (waiting (fst s'))" "\<forall>h\<in>H. tracked (fst s') h"
  using assms unfolding announced_def by - (elim conjE, assumption)+

lemma announcedE:
  assumes "announced now H s s'"
  obtains more where "snd s' = snd s @ more" "distinct more" "set more \<subseteq> H"
    "\<forall>x\<in>set more. x \<notin> requested (fst s) \<and> (x, now) \<in> set (in_flight (fst s'))"
  using assms unfolding announced_def by (elim conjE exE) (rule that)

lemma announced_trans:
  assumes a: "announced now A s s1" and b: "announced now B s1 s2"
  shows "announced now (A \<union> B) s s2"
proof -
  from a obtain r1 where r1: "snd s1 = snd s @ r1" "distinct r1" "set r1 \<subseteq> A"
      "\<forall>x\<in>set r1. x \<notin> requested (fst s) \<and> (x, now) \<in> set (in_flight (fst s1))"
    by (rule announcedE) (rule that)
  from b obtain r2 where r2: "snd s2 = snd s1 @ r2" "distinct r2" "set r2 \<subseteq> B"
      "\<forall>x\<in>set r2. x \<notin> requested (fst s1) \<and> (x, now) \<in> set (in_flight (fst s2))"
    by (rule announcedE) (rule that)
  note ga = announcedD [OF a] and gb = announcedD [OF b]
  have mono: "requested (fst s) \<subseteq> requested (fst s1)" using ga(1) by (rule image_mono)
  have old: "x \<in> requested (fst s1)" if "x \<in> set r1" for x using r1(4) that by force
  have "distinct (r1 @ r2)" unfolding distinct_append disjoint_iff using r1(2) r2(2,4) old by blast
  moreover have "x \<notin> requested (fst s) \<and> (x, now) \<in> set (in_flight (fst s2))" if "x \<in> set r1 \<or> x \<in> set r2" for x
    using that bspec [OF r1(4), of x] bspec [OF r2(4), of x] subsetD [OF mono, of x] subsetD [OF gb(1), of "(x, now)"]
    by argo
  moreover have "tracked (fst s2) h" if "h \<in> A \<or> h \<in> B" for h
    using that bspec [OF ga(4), of h] bspec [OF gb(4), of h] tracked_mono [OF _ gb(1-3), of h] by argo
  moreover have "snd s2 = snd s @ (r1 @ r2)" "set (r1 @ r2) \<subseteq> A \<union> B" using r1(1,3) r2(1,3) by auto
  ultimately show ?thesis unfolding announced_def
    using subset_trans [OF ga(1) gb(1)] subset_trans [OF ga(2) gb(2)] order.trans [OF ga(3) gb(3)]
    by (intro conjI exI [of _ "r1 @ r2"] ballI) simp_all
qed

lemma announce_announced: "announced now {h} (st, request) (announce now (st, request) h)" if "peer_inv st"
  using that unfolding announced_def tracked_def announce_def
  by (auto simp: hm_insert_fresh hm_get_None peer_inv_def image_iff dest!: map_of_SomeD)

lemma announces_announced:
  assumes "peer_inv (fst s)" "saturated (fst s)"
  shows "peer_inv (fst (foldl (announce now) s hashes)) \<and> saturated (fst (foldl (announce now) s hashes))
    \<and> announced now (set hashes) s (foldl (announce now) s hashes)"
proof (induction hashes rule: rev_induct)
  case Nil
  with assms show ?case by (simp add: announced_empty)
next
  case (snoc h hashes)
  obtain st r where s1: "foldl (announce now) s hashes = (st, r)" by fastforce
  then have "announced now (set hashes \<union> {h}) s (announce now (st, r) h)"
    using snoc announce_announced [of st now h r] announced_trans by fastforce
  with snoc s1 announce_inv [of st now r h] show ?case by (cases "announce now (st, r) h") simp
qed


section \<open>The tracker\<close>

definition requests_of :: "'p tx_request_tracker \<Rightarrow> 'p \<Rightarrow> peer_tx_requests" where
  "requests_of tr peer = (case hm_get tr peer of Some st \<Rightarrow> st | None \<Rightarrow> no_requests)"

definition tracker_inv :: "'p tx_request_tracker \<Rightarrow> bool" where
  "tracker_inv tr \<longleftrightarrow> (\<forall>peer. peer_inv (requests_of tr peer) \<and> saturated (requests_of tr peer))
     \<and> (\<forall>peer st. hm_get tr peer = Some st \<longrightarrow> in_flight st \<noteq> [])"

inductive tracker_step :: "'p tx_request_tracker \<Rightarrow> 'p tx_request_tracker \<Rightarrow> bool" where
  announces: "tracker_step tr (fst (admit peer hashes now tr))"
| answers: "tracker_step tr (fst (complete peer hash now tr))"
| leaves_peer: "tracker_step tr (forget_peer peer tr)"

lemma no_requests_inv: "peer_inv no_requests" "saturated no_requests"
  by (simp_all add: peer_inv_def saturated_def no_requests_def hm_wf_def)

lemma no_requests_fields [simp]: "in_flight no_requests = []" "waiting no_requests = []"
  by (simp_all add: no_requests_def)

lemma hm_get_put_back:
  "hm_get (put_back peer st tr) p =
     (if p = peer then if in_flight st = [] \<and> waiting st = [] then None else Some st else hm_get tr p)"
  by (simp add: put_back_def hm_simps)

lemma requests_of_put_back:
  "requests_of (put_back peer st tr) p =
     (if p = peer then if in_flight st = [] \<and> waiting st = [] then no_requests else st else requests_of tr p)"
  by (simp add: requests_of_def hm_get_put_back)

lemma put_back_inv:
  assumes "tracker_inv tr" "peer_inv st" "saturated st"
  shows "tracker_inv (put_back peer st tr)"
proof -
  have "in_flight st \<noteq> []" if "\<not> (in_flight st = [] \<and> waiting st = [])"
    using assms(3) that by (auto simp: saturated_def MAX_PEER_IN_FLIGHT_def)
  with assms show ?thesis
    by (auto simp: tracker_inv_def requests_of_put_back no_requests_inv hm_get_put_back split: if_splits)
qed

lemma remove_request_inv:
  assumes "peer_inv st"
  shows "peer_inv (st \<lparr> in_flight := hm_remove h (in_flight st) \<rparr>)"
proof -
  have wf: "hm_wf (in_flight st)" using assms by (simp add: peer_inv_def)
  have "fst ` set (hm_remove h (in_flight st)) \<subseteq> requested st"
    using hm.entries_del [OF wf, of h] by (intro image_mono) simp
  then show ?thesis
    using assms hm.wf_del [OF wf, of h] length_delete_le [of h "in_flight st"]
    by (simp add: peer_inv_def) blast
qed

lemma admit_eq:
  "admit peer hashes now tr =
     (let s = foldl (announce now) (promote (requests_of tr peer) now []) hashes in (put_back peer (fst s) tr, snd s))"
  by (simp add: admit_def requests_of_def Let_def case_prod_beta)

lemma tracker_step_inv: "tracker_step tr tr' \<Longrightarrow> tracker_inv tr \<Longrightarrow> tracker_inv tr'"
proof (induction rule: tracker_step.induct)
  case (announces tr peer hashes now)
  then have "peer_inv (requests_of tr peer)" by (simp add: tracker_inv_def)
  from promote_inv [OF this] have "peer_inv (fst (promote (requests_of tr peer) now []))"
    "saturated (fst (promote (requests_of tr peer) now []))" .
  from announces_announced [OF this] announces show ?case by (simp add: admit_eq Let_def put_back_inv)
next
  case (answers tr peer hash now)
  show ?case
  proof (cases "hm_get tr peer")
    case None
    with answers show ?thesis by (simp add: complete_def)
  next
    case (Some st)
    with answers have "peer_inv st" by (auto simp: tracker_inv_def requests_of_def split: option.splits)
    from promote_inv [OF remove_request_inv [OF this]] answers Some show ?thesis
      by (simp add: complete_def Let_def case_prod_beta put_back_inv)
  qed
next
  case (leaves_peer tr peer)
  then show ?case by (auto simp: tracker_inv_def forget_peer_def requests_of_def hm_simps no_requests_inv)
qed

lemma tracker_reach_inv: "tracker_step\<^sup>*\<^sup>* [] tr \<Longrightarrow> tracker_inv tr"
proof (induction rule: rtranclp_induct)
  case base
  then show ?case by (simp add: tracker_inv_def requests_of_def no_requests_inv)
qed (rule tracker_step_inv)


lemma in_flight_requests: "is_in_flight tr peer h \<longleftrightarrow> h \<in> requested (requests_of tr peer)"
  by (simp add: is_in_flight_def requests_of_def hm_get_None [of "in_flight _"] split: option.split)

lemma waiting_requests: "waiting_len tr peer = length (waiting (requests_of tr peer))"
  by (simp add: waiting_len_def requests_of_def split: option.split)

lemma put_back_fields:
  "in_flight (requests_of (put_back peer st tr) peer) = in_flight st"
  "waiting (requests_of (put_back peer st tr) peer) = waiting st"
  by (simp_all add: requests_of_put_back)

lemma not_retained:
  "hm_get m h = Some t \<Longrightarrow> h \<notin> fst ` set (retain_live now m) \<Longrightarrow> REQUEST_LIFETIME < now - t"
  by (force simp: retain_live_def not_le dest: map_of_SomeD)

lemma admit_parts:
  assumes "peer_inv (requests_of tr peer)" "admit peer hashes now tr = (tr', request)"
  obtains k st more where "tr' = put_back peer st tr" "request = take k (waiting (requests_of tr peer)) @ more"
    "peer_inv st" "distinct more" "set more \<subseteq> set hashes" "\<forall>h\<in>set hashes. tracked st h"
    "\<forall>h\<in>set more. h \<in> requested st \<and> h \<notin> set (take k (waiting (requests_of tr peer)))
       \<and> h \<notin> fst ` set (retain_live now (in_flight (requests_of tr peer)))"
    "set (take k (waiting (requests_of tr peer))) \<subseteq> requested st"
proof -
  let ?old = "requests_of tr peer" and ?mid = "promote (requests_of tr peer) now []"
  let ?live = "retain_live now (in_flight ?old)"
  let ?k = "MAX_PEER_IN_FLIGHT - length ?live"
  let ?res = "foldl (announce now) ?mid hashes"
  have s0: "snd ?mid = take ?k (waiting ?old)" "requested (fst ?mid) = fst ` set ?live \<union> set (take ?k (waiting ?old))"
    by (simp_all add: promote_takes [OF assms(1)] Let_def image_Un image_image)
  note run = announces_announced [OF promote_inv(1) [OF assms(1), of now "[]"] promote_inv(2) [OF assms(1), of now "[]"], of now hashes]
  then obtain more where more: "snd ?res = snd ?mid @ more" "distinct more" "set more \<subseteq> set hashes"
    "\<forall>x\<in>set more. x \<notin> requested (fst ?mid) \<and> (x, now) \<in> set (in_flight (fst ?res))"
    using announcedE by metis
  have grow: "requested (fst ?mid) \<subseteq> requested (fst ?res)" using run announcedD(1) by (intro image_mono) blast
  have "tr' = put_back peer (fst ?res) tr" "request = snd ?res" using assms(2) by (auto simp: admit_eq Let_def)
  moreover have "\<forall>h\<in>set more. h \<in> requested (fst ?res) \<and> h \<notin> set (take ?k (waiting ?old)) \<and> h \<notin> fst ` set ?live"
    using more(4) s0(2) by force
  ultimately show ?thesis
    using run more(1-3) s0 grow announcedD(4) [of now "set hashes" ?mid ?res]
    by (intro that [of "fst ?res" ?k more]) simp_all
qed

text \<open>Polls of one peer without new announcements, one after the other.\<close>

fun polls :: "'p \<Rightarrow> nat list \<Rightarrow> 'p tx_request_tracker \<Rightarrow> hash list list" where
  "polls peer [] tr = []"
| "polls peer (now # instants) tr = (case admit peer [] now tr of (tr', request) \<Rightarrow> request # polls peer instants tr')"

abbreviation expired :: "'p tx_request_tracker \<Rightarrow> 'p \<Rightarrow> nat \<Rightarrow> bool" where
  "expired tr peer now \<equiv> (\<forall>(h, t)\<in>set (in_flight (requests_of tr peer)). t + REQUEST_LIFETIME < now)"

lemma admit_expired:
  assumes "tracker_inv tr" "expired tr peer now" "admit peer [] now tr = (tr', request)"
  shows "request = take 100 (waiting (requests_of tr peer))"
    and "waiting (requests_of tr' peer) = drop 100 (waiting (requests_of tr peer))"
    and "in_flight (requests_of tr' peer) = map (\<lambda>h. (h, now)) (take 100 (waiting (requests_of tr peer)))"
    and "tracker_inv tr'"
proof -
  let ?old = "requests_of tr peer"
  have "peer_inv ?old" using assms(1) by (simp add: tracker_inv_def)
  moreover have "retain_live now (in_flight ?old) = []"
    using assms(2) by (force simp: retain_live_def filter_empty_conv)
  ultimately have "promote ?old now [] =
      (\<lparr> in_flight = map (\<lambda>h. (h, now)) (take 100 (waiting ?old)), waiting = drop 100 (waiting ?old),
         waiting_set = filter (\<lambda>h. h \<notin> set (take 100 (waiting ?old))) (waiting_set ?old) \<rparr>, take 100 (waiting ?old))"
    by (simp add: promote_takes Let_def MAX_PEER_IN_FLIGHT_def)
  with assms(3) show "request = take 100 (waiting ?old)" "waiting (requests_of tr' peer) = drop 100 (waiting ?old)"
    "in_flight (requests_of tr' peer) = map (\<lambda>h. (h, now)) (take 100 (waiting ?old))"
    by (auto simp: admit_eq Let_def put_back_fields)
  show "tracker_inv tr'"
    using tracker_step_inv [OF tracker_step.announces assms(1), of peer "[]" now] assms(3) by simp
qed

lemma polls_drain:
  assumes "tracker_inv tr" "instants \<noteq> [] \<Longrightarrow> expired tr peer (hd instants)" "successively (\<lambda>a b. a + REQUEST_LIFETIME < b) instants"
  shows "polls peer instants tr = map (\<lambda>i. take 100 (drop (100 * i) (waiting (requests_of tr peer)))) [0..<length instants]"
  using assms
proof (induction instants arbitrary: tr)
  case Nil
  then show ?case by simp
next
  case (Cons now instants)
  obtain tr' request where a: "admit peer [] now tr = (tr', request)" by fastforce
  note step = admit_expired [OF Cons.prems(1) _ a]
  have now: "expired tr peer now" using Cons.prems(2) by simp
  have "expired tr' peer (hd instants)" if "instants \<noteq> []"
    using Cons.prems(3) that step(3) [OF now] by (cases instants) auto
  then have "polls peer instants tr' =
      map (\<lambda>i. take 100 (drop (100 * i) (waiting (requests_of tr' peer)))) [0..<length instants]"
    using Cons.prems(3) step(4) [OF now] by (intro Cons.IH) (auto simp: successively_Cons)
  then show ?case
    using step(1,2) [OF now] by (simp add: a upt_conv_Cons map_Suc_upt [symmetric] del: upt_Suc) (simp add: add.commute)
qed

lemma announce_new_peer:
  "distinct hs \<Longrightarrow> length hs \<le> 5100 \<Longrightarrow>
   foldl (announce now) (no_requests, []) hs =
     (\<lparr> in_flight = map (\<lambda>h. (h, now)) (take 100 hs), waiting = drop 100 hs, waiting_set = rev (drop 100 hs) \<rparr>,
      take 100 hs)"
proof (induction hs rule: rev_induct)
  case Nil
  then show ?case by (simp add: no_requests_def)
next
  case (snoc h hs)
  have "h \<notin> set (take 100 hs)" "h \<notin> set (drop 100 hs)"
    using snoc.prems by (auto dest: in_set_takeD in_set_dropD)
  then show ?case
    using snoc
    by (simp add: announce_def hm_insert_fresh hm_get_None image_image hs_insert_def
        MAX_PEER_IN_FLIGHT_def MAX_PEER_ANNOUNCEMENTS_def) linarith
qed

text \<open>A peer that announced 101 hashes at once.\<close>

definition demo_hashes :: "hash list" where
  "demo_hashes = map of_nat [0..<101]"

definition demo_tracker :: "nat tx_request_tracker" where
  "demo_tracker = fst (admit 0 demo_hashes 0 [])"

lemma demo_tracker_reached: "tracker_step\<^sup>*\<^sup>* [] demo_tracker"
  unfolding demo_tracker_def by (rule r_into_rtranclp) (rule tracker_step.announces)

lemma demo_hashes_distinct: "distinct demo_hashes"
proof -
  have "a = b" if "of_nat a = (of_nat b :: hash)" "a < 101" "b < 101" for a b
    using arg_cong [OF that(1), of unat] that(2,3) by (simp add: unat_of_nat)
  then show ?thesis by (auto simp: demo_hashes_def distinct_map inj_on_def)
qed

lemma demo_tracker_state:
  "waiting (requests_of demo_tracker 0) = drop 100 demo_hashes"
  "in_flight (requests_of demo_tracker 0) = map (\<lambda>h. (h, 0)) (take 100 demo_hashes)"
proof -
  have "promote no_requests 0 [] = (no_requests, [])"
    by (simp add: promote_def retain_live_def no_requests_def)
  then have "demo_tracker = put_back 0 (fst (foldl (announce 0) (no_requests, []) demo_hashes)) []"
    by (simp add: demo_tracker_def admit_eq requests_of_def Let_def)
  moreover have "length demo_hashes \<le> 5100" by (simp add: demo_hashes_def)
  ultimately have eq: "demo_tracker = put_back 0 \<lparr> in_flight = map (\<lambda>h. (h, 0)) (take 100 demo_hashes),
      waiting = drop 100 demo_hashes, waiting_set = rev (drop 100 demo_hashes) \<rparr> []"
    using announce_new_peer [OF demo_hashes_distinct, of 0] by simp
  show "waiting (requests_of demo_tracker 0) = drop 100 demo_hashes"
    "in_flight (requests_of demo_tracker 0) = map (\<lambda>h. (h, 0)) (take 100 demo_hashes)"
    unfolding eq put_back_fields by simp_all
qed

lemma demo_waiting: "drop 100 demo_hashes = [100]"
  by (simp add: demo_hashes_def drop_map)


section \<open>Properties\<close>

text \<open>
  C14. In every state the tracker reaches through announcements, answers and departures, each peer has at most a
  hundred requests in flight and five thousand hashes waiting, no hash is both in flight and waiting or waits twice,
  the set of waiting hashes agrees with the queue, and no request slot is open while a hash waits.
\<close>

theorem requests_bounded:
  assumes "tracker_step\<^sup>*\<^sup>* [] tr"
  shows "in_flight_len tr peer \<le> 100 \<and> waiting_len tr peer \<le> 5000
    \<and> (0 < waiting_len tr peer \<longrightarrow> in_flight_len tr peer = 100)
    \<and> (\<forall>st. hm_get tr peer = Some st \<longrightarrow>
         distinct (hm_keys (in_flight st) @ waiting st) \<and> set (waiting_set st) = set (waiting st) \<and> in_flight st \<noteq> [])"
proof (cases "hm_get tr peer")
  case None
  then show ?thesis by (simp add: in_flight_len_def waiting_len_def)
next
  case (Some st)
  with tracker_reach_inv [OF assms] have "peer_inv st" "saturated st" "in_flight st \<noteq> []"
    by (auto simp: tracker_inv_def requests_of_def split: option.splits)
  with Some show ?thesis
    by (auto simp: in_flight_len_def waiting_len_def peer_inv_def saturated_def hm_wf_def
        MAX_PEER_IN_FLIGHT_def MAX_PEER_ANNOUNCEMENTS_def disjoint_iff)
qed

theorem requests_bounded_witness: "waiting_len demo_tracker 0 = 1 \<and> in_flight_len demo_tracker 0 = 100"
  using requests_bounded [OF demo_tracker_reached, of 0] by (simp add: waiting_requests demo_tracker_state(1) demo_waiting)

text \<open>
  Announcements are requested at most once at a time: the hashes \<^verbatim>\<open>admit\<close> returns are distinct, each was announced
  now or waiting, none has an unexpired request outstanding, and all are outstanding afterwards; every announced hash
  is afterwards outstanding or waiting unless the queue is full; other peers are untouched.
\<close>

lemma admit_requests:
  assumes "tracker_step\<^sup>*\<^sup>* [] tr" "admit peer hashes now tr = (tr', request)"
  shows "distinct request
    \<and> (\<forall>h\<in>set request. is_in_flight tr' peer h \<and> (h \<in> set hashes \<or> h \<in> set (waiting (requests_of tr peer)))
         \<and> (\<forall>t. hm_get (in_flight (requests_of tr peer)) h = Some t \<longrightarrow> 60 * 10 ^ 9 < now - t))
    \<and> (\<forall>h\<in>set hashes. is_in_flight tr' peer h \<or> h \<in> set (waiting (requests_of tr' peer)) \<or> waiting_len tr' peer = 5000)
    \<and> (\<forall>p. p \<noteq> peer \<longrightarrow> hm_get tr' p = hm_get tr p)"
proof -
  let ?old = "requests_of tr peer"
  have inv: "peer_inv ?old" using tracker_reach_inv [OF assms(1)] by (simp add: tracker_inv_def)
  obtain k st more where p: "tr' = put_back peer st tr" "request = take k (waiting ?old) @ more"
    "peer_inv st" "distinct more" "set more \<subseteq> set hashes" "\<forall>h\<in>set hashes. tracked st h"
    "\<forall>h\<in>set more. h \<in> requested st \<and> h \<notin> set (take k (waiting ?old))
       \<and> h \<notin> fst ` set (retain_live now (in_flight ?old))"
    "set (take k (waiting ?old)) \<subseteq> requested st"
    using admit_parts [OF inv assms(2)] by metis
  have flying: "is_in_flight tr' peer h \<longleftrightarrow> h \<in> requested st" for h
    by (simp add: in_flight_requests p(1) put_back_fields)
  have "distinct request" using p(2,4,7) inv by (auto simp: peer_inv_def)
  moreover have "is_in_flight tr' peer h \<and> (h \<in> set hashes \<or> h \<in> set (waiting ?old))
      \<and> (\<forall>t. hm_get (in_flight ?old) h = Some t \<longrightarrow> 60 * 10 ^ 9 < now - t)" if "h \<in> set request" for h
  proof (cases "h \<in> set more")
    case True
    with p(5,7) not_retained [of "in_flight ?old" h _ now] show ?thesis
      by (auto simp: flying REQUEST_LIFETIME_def)
  next
    case False
    with that p(2) have h: "h \<in> set (take k (waiting ?old))" by simp
    then have "h \<in> set (waiting ?old)" by (rule in_set_takeD)
    with inv have "hm_get (in_flight ?old) h = None" unfolding peer_inv_def hm_get_None by blast
    with h p(8) \<open>h \<in> set (waiting ?old)\<close> show ?thesis unfolding flying by auto
  qed
  moreover have "is_in_flight tr' peer h \<or> h \<in> set (waiting (requests_of tr' peer)) \<or> waiting_len tr' peer = 5000"
    if "h \<in> set hashes" for h
    using that p(3,6) unfolding flying unfolding waiting_requests p(1) put_back_fields
    by (auto simp: tracked_def peer_inv_def MAX_PEER_ANNOUNCEMENTS_def)
  moreover have "hm_get tr' p = hm_get tr p" if "p \<noteq> peer" for p
    using that by (simp add: p(1) hm_get_put_back)
  ultimately show ?thesis by blast
qed


lemma admit_requests_witness:
  "case admit 0 [100, 200] 1 demo_tracker of (tr', request) \<Rightarrow>
     distinct request \<and> set request \<subseteq> {100, 200}
     \<and> (is_in_flight tr' 0 200 \<or> 200 \<in> set (waiting (requests_of tr' 0)) \<or> waiting_len tr' 0 = 5000)"
proof -
  obtain tr' request where a: "admit 0 [100, 200] 1 demo_tracker = (tr', request)" by fastforce
  note spec = admit_requests [OF demo_tracker_reached a]
  have "h \<in> set [100, 200] \<or> h \<in> set (waiting (requests_of demo_tracker 0))" if "h \<in> set request" for h
    using bspec [OF spec [THEN conjunct2, THEN conjunct1] that] by (elim conjE)
  then have "set request \<subseteq> {100, 200}" by (auto simp: demo_tracker_state(1) demo_waiting)
  moreover have "is_in_flight tr' 0 200 \<or> 200 \<in> set (waiting (requests_of tr' 0)) \<or> waiting_len tr' 0 = 5000"
    using bspec [OF spec [THEN conjunct2, THEN conjunct2, THEN conjunct1], of 200] by simp
  ultimately show ?thesis using spec [THEN conjunct1] unfolding a by simp
qed

text \<open>
  C15. No announced hash is starved by a silent peer: when the outstanding requests have expired at every poll, the
  hash at position k of the queue is requested by the poll number k div 100, in the order of the queue, a hundred per
  poll.
\<close>

theorem waiting_hash_requested:
  assumes "tracker_step\<^sup>*\<^sup>* [] tr" "successively (\<lambda>a b. a + 60 * 10 ^ 9 < b) instants"
    and "\<forall>(h, t)\<in>set (in_flight (requests_of tr peer)). t + 60 * 10 ^ 9 < hd instants"
    and "k < length (waiting (requests_of tr peer))" "k div 100 < length instants"
  shows "polls peer instants tr ! (k div 100) ! (k mod 100) = waiting (requests_of tr peer) ! k
    \<and> k mod 100 < length (polls peer instants tr ! (k div 100))"
proof -
  let ?q = "waiting (requests_of tr peer)"
  have "polls peer instants tr = map (\<lambda>i. take 100 (drop (100 * i) ?q)) [0..<length instants]"
    using assms(2,3) tracker_reach_inv [OF assms(1)] by (intro polls_drain) (simp_all add: REQUEST_LIFETIME_def)
  moreover have "100 * (k div 100) + k mod 100 = k" by simp
  moreover have "k mod 100 < 100" by simp
  moreover have "k mod 100 < length ?q - 100 * (k div 100)" using assms(4) mult_div_mod_eq [of 100 k] by linarith
  ultimately show ?thesis using assms(4,5) by simp
qed

theorem waiting_hash_requested_witness: "polls 0 [60 * 10 ^ 9 + 1] demo_tracker ! 0 ! 0 = 100"
  using waiting_hash_requested [OF demo_tracker_reached, of "[60 * 10 ^ 9 + 1]" 0 0]
  by (simp add: demo_tracker_state demo_waiting)

end
