(* ===== verification/Merkle_Block.thy ===== *)
theory Merkle_Block
  imports Demo_Protocol "HOL-Library.Sublist"
begin

text \<open>
  Proofs that transactions are in a block, \<^verbatim>\<open>rpc/merkle_block.rs\<close>: the partial Merkle tree, its
  construction from the transactions of a block, its bytes, and the extraction of the root and the matched
  transactions. Heights and positions are natural numbers with the 32-bit wrap of the tree width written out; the
  compact sizes of \<^verbatim>\<open>blvm_protocol\<close> are parameters.
\<close>

unbundle bit_operations_syntax


section \<open>Definitions\<close>

record partial_merkle_tree =
  n_transactions :: nat
  v_bits :: "bool list"
  v_hash :: "hash list"
  pmt_bad :: bool

datatype merkle_error = EmptyTransactions | InvalidEncoding string | BadProof

text \<open>Reading a proof either is refused or stops the process: a capacity or a slice out of bounds panics.\<close>

datatype proof_failure = Malformed merkle_error | Panicked

definition calc_tree_width :: "nat \<Rightarrow> nat \<Rightarrow> nat" where
  "calc_tree_width n height = (n + 2 ^ height - 1) mod 2 ^ 32 div 2 ^ height"

definition double_sha256 :: "'a tx_api_scheme \<Rightarrow> byte_string \<Rightarrow> hash" where
  "double_sha256 P data = hash_of_bytes (sha256 P (sha256 P data))"

definition merge_merkle_node :: "'a tx_api_scheme \<Rightarrow> hash \<Rightarrow> hash \<Rightarrow> hash" where
  "merge_merkle_node P left right = double_sha256 P (hash_le left @ hash_le right)"

fun calc_hash :: "'a tx_api_scheme \<Rightarrow> nat \<Rightarrow> nat \<Rightarrow> hash list \<Rightarrow> nat \<Rightarrow> hash" where
  "calc_hash P 0 pos txids n = txids ! pos"
| "calc_hash P (Suc height) pos txids n =
     (let left = calc_hash P height (pos * 2) txids n;
          right = (if pos * 2 + 1 < calc_tree_width n height
                   then calc_hash P height (pos * 2 + 1) txids n else left)
      in merge_merkle_node P left right)"

definition parent_of_match :: "nat \<Rightarrow> nat \<Rightarrow> bool list \<Rightarrow> nat \<Rightarrow> bool" where
  "parent_of_match height pos v_match n =
     list_ex (\<lambda>p. v_match ! p) [pos * 2 ^ height ..< min ((pos + 1) * 2 ^ height) n]"

fun traverse_and_build ::
  "'a tx_api_scheme \<Rightarrow> nat \<Rightarrow> nat \<Rightarrow> hash list \<Rightarrow> bool list \<Rightarrow> nat
    \<Rightarrow> bool list \<times> hash list \<Rightarrow> bool list \<times> hash list" where
  "traverse_and_build P 0 pos txids v_match n (fs, hs) =
     (fs @ [parent_of_match 0 pos v_match n], hs @ [calc_hash P 0 pos txids n])"
| "traverse_and_build P (Suc height) pos txids v_match n (fs, hs) =
     (let m = parent_of_match (Suc height) pos v_match n; fs1 = fs @ [m] in
      if \<not> m then (fs1, hs @ [calc_hash P (Suc height) pos txids n])
      else
        let s = traverse_and_build P height (pos * 2) txids v_match n (fs1, hs)
        in if pos * 2 + 1 < calc_tree_width n height
           then traverse_and_build P height (pos * 2 + 1) txids v_match n s else s)"

text \<open>The counters and results the extraction passes by reference.\<close>

record extraction =
  n_bits_used :: nat
  n_hash_used :: nat
  x_match :: "hash list"
  x_bad :: bool

text \<open>A leaf, or an inner node without a match: one hash is taken.\<close>

definition take_hash :: "nat \<Rightarrow> bool \<Rightarrow> hash list \<Rightarrow> extraction \<Rightarrow> hash \<times> extraction" where
  "take_hash height matched hashes s =
     (if n_hash_used s \<ge> length hashes then (0, s \<lparr> x_bad := True \<rparr>)
      else
        let h = hashes ! n_hash_used s; s1 = s \<lparr> n_hash_used := n_hash_used s + 1 \<rparr>
        in (h, if height = 0 \<and> matched then s1 \<lparr> x_match := x_match s1 @ [h] \<rparr> else s1))"

fun traverse_and_extract ::
  "'a tx_api_scheme \<Rightarrow> nat \<Rightarrow> nat \<Rightarrow> nat \<Rightarrow> bool list \<Rightarrow> hash list \<Rightarrow> extraction \<Rightarrow> hash \<times> extraction" where
  "traverse_and_extract P 0 pos n fs hs s =
     (if n_bits_used s \<ge> length fs then (0, s \<lparr> x_bad := True \<rparr>)
      else take_hash 0 (fs ! n_bits_used s) hs (s \<lparr> n_bits_used := n_bits_used s + 1 \<rparr>))"
| "traverse_and_extract P (Suc height) pos n fs hs s =
     (if n_bits_used s \<ge> length fs then (0, s \<lparr> x_bad := True \<rparr>)
      else
        let matched = fs ! n_bits_used s; s0 = s \<lparr> n_bits_used := n_bits_used s + 1 \<rparr> in
        if \<not> matched then take_hash (Suc height) matched hs s0
        else
          let (left, s1) = traverse_and_extract P height (pos * 2) n fs hs s0;
              (right, s2) = (if pos * 2 + 1 < calc_tree_width n height
                             then traverse_and_extract P height (pos * 2 + 1) n fs hs s1 else (left, s1))
          in (merge_merkle_node P left right,
              if right = left then s2 \<lparr> x_bad := True \<rparr> else s2))"

lemma calc_tree_width_top: "31 \<le> h \<Longrightarrow> calc_tree_width n h \<le> 1"
proof -
  assume "31 \<le> h"
  then have "(2 :: nat) ^ 32 \<le> 2 ^ h * 2" using power_increasing [of 32 "Suc h" "2 :: nat"] by simp
  moreover have "(n + 2 ^ h - 1) mod 2 ^ 32 < (2 :: nat) ^ 32" by (rule mod_less_divisor) simp
  ultimately have "(n + 2 ^ h - 1) mod 2 ^ 32 < (2 :: nat) ^ h * 2" by (rule less_le_trans [rotated])
  then have "(n + 2 ^ h - 1) mod 2 ^ 32 div 2 ^ h < 2" by (simp add: less_mult_imp_div_less mult.commute)
  then show ?thesis by (simp add: calc_tree_width_def)
qed

text \<open>\<^verbatim>\<open>while calc_tree_width(n, height) > 1 { height += 1; }\<close>\<close>

function tree_height :: "nat \<Rightarrow> nat \<Rightarrow> nat" where
  "tree_height n height = (if calc_tree_width n height > 1 then tree_height n (height + 1) else height)"
  by pat_completeness auto
termination
proof (relation "measure (\<lambda>(n, h). 32 - h)")
  fix n h assume "1 < calc_tree_width n h"
  then have "h < 31" using calc_tree_width_top [of h n] by (cases "31 \<le> h") simp_all
  then show "((n, h + 1), n, h) \<in> measure (\<lambda>(n, h). 32 - h)" by simp
qed simp

declare tree_height.simps [simp del]

definition new_pmt :: "'a tx_api_scheme \<Rightarrow> hash list \<Rightarrow> bool list \<Rightarrow> (partial_merkle_tree, merkle_error) result" where
  "new_pmt P txids v_match =
     (if txids = [] then Err EmptyTransactions
      else if length txids \<noteq> length v_match then Err (InvalidEncoding ''txid/match length mismatch'')
      else
        let n = length txids mod 2 ^ 32;
            (fs, hs) = traverse_and_build P (tree_height n 0) 0 txids v_match n ([], [])
        in Ok \<lparr> n_transactions = n, v_bits = fs, v_hash = hs, pmt_bad = False \<rparr>)"

definition extract_matches ::
  "'a tx_api_scheme \<Rightarrow> partial_merkle_tree \<Rightarrow> (hash \<times> hash list) \<times> partial_merkle_tree" where
  "extract_matches P t =
     (if n_transactions t = 0 then ((0, []), t)
      else if length (v_hash t) > n_transactions t then ((0, []), t \<lparr> pmt_bad := True \<rparr>)
      else if length (v_bits t) < length (v_hash t) then ((0, []), t \<lparr> pmt_bad := True \<rparr>)
      else
        let (root, s) = traverse_and_extract P (tree_height (n_transactions t) 0) 0 (n_transactions t)
              (v_bits t) (v_hash t) \<lparr> n_bits_used = 0, n_hash_used = 0, x_match = [], x_bad = pmt_bad t \<rparr>
        in if x_bad s then ((0, []), t \<lparr> pmt_bad := True \<rparr>)
           else if (n_bits_used s + 7) div 8 \<noteq> (length (v_bits t) + 7) div 8
           then ((0, []), t \<lparr> pmt_bad := True \<rparr>)
           else if n_hash_used s \<noteq> length (v_hash t) then ((0, []), t \<lparr> pmt_bad := True \<rparr>)
           else ((root, x_match s), t))"

text \<open>The flag bytes: eight flags each, the first in the lowest bit.\<close>

definition bits_to_bytes :: "bool list \<Rightarrow> byte_string" where
  "bits_to_bytes fs =
     foldl (\<lambda>out (p, b). if b then out[p div 8 := out ! (p div 8) OR push_bit (p mod 8) 1] else out)
       (replicate ((length fs + 7) div 8) 0) (enumerate 0 fs)"

definition bytes_to_bits :: "byte_string \<Rightarrow> bool list" where
  "bytes_to_bits bytes = map (\<lambda>p. bytes ! (p div 8) AND push_bit (p mod 8) 1 \<noteq> 0) [0..<length bytes * 8]"

definition serialize_pmt :: "(u64 \<Rightarrow> byte_string) \<Rightarrow> partial_merkle_tree \<Rightarrow> byte_string" where
  "serialize_pmt encode_varint t =
     (let flag_bytes = bits_to_bytes (v_bits t) in
      le_bytes 4 (n_transactions t) @ encode_varint (of_nat (length (v_hash t)))
      @ concat (map hash_le (v_hash t)) @ encode_varint (of_nat (length flag_bytes)) @ flag_bytes)"

fun read_hashes :: "nat \<Rightarrow> byte_string \<Rightarrow> hash list" where
  "read_hashes 0 data = []"
| "read_hashes (Suc k) data = hash_of_bytes (take 32 data) # read_hashes k (drop 32 data)"

text \<open>The sums of lengths are \<^verbatim>\<open>usize\<close> sums, which wrap.\<close>

abbreviation usize :: "nat \<Rightarrow> nat" where "usize k \<equiv> k mod 2 ^ 64"

definition deserialize_pmt ::
  "(byte_string \<Rightarrow> (u64 \<times> nat, string) result) \<Rightarrow> byte_string \<Rightarrow> (partial_merkle_tree, proof_failure) result" where
  "deserialize_pmt decode_varint data =
     (if length data < 4 then Err (Malformed (InvalidEncoding ''partial merkle tree too short''))
      else case decode_varint (drop 4 data) of
        Err e \<Rightarrow> Err (Malformed (InvalidEncoding (''hash count varint: '' @ e)))
      | Ok (hash_count, used) \<Rightarrow>
          let offset = 4 + used; count = unat hash_count in
          if length data < usize (offset + usize (count * 32))
          then Err (Malformed (InvalidEncoding ''truncated hash list''))
          else if count * 32 \<ge> 2 ^ 63 then Err Panicked
          else
            let offset2 = offset + count * 32 in
            case decode_varint (drop offset2 data) of
              Err e \<Rightarrow> Err (Malformed (InvalidEncoding (''flag length varint: '' @ e)))
            | Ok (flag_len, used2) \<Rightarrow>
                let offset3 = offset2 + used2; stop = usize (offset3 + unat flag_len) in
                if length data < stop then Err (Malformed (InvalidEncoding ''truncated flag bytes''))
                else if stop < offset3 then Err Panicked
                else Ok \<lparr> n_transactions = from_le_bytes (take 4 data),
                          v_bits = bytes_to_bits (slice data offset3 stop),
                          v_hash = read_hashes count (drop offset data), pmt_bad = False \<rparr>)"

text \<open>
  A block header and a partial tree. The codec of the header is \<^verbatim>\<open>blvm_protocol\<close>'s.
\<close>

record header_codec =
  serialize_block_header :: "block_header \<Rightarrow> byte_string"
  deserialize_block_header :: "byte_string \<Rightarrow> (block_header, string) result"
  encode_varint :: "u64 \<Rightarrow> byte_string"
  decode_varint :: "byte_string \<Rightarrow> (u64 \<times> nat, string) result"

record merkle_block =
  mb_header :: block_header
  mb_txn :: partial_merkle_tree

definition new_merkle_block ::
  "'a tx_api_scheme \<Rightarrow> block_header \<Rightarrow> hash list \<Rightarrow> bool list \<Rightarrow> (merkle_block, merkle_error) result" where
  "new_merkle_block P header txids v_match =
     (case new_pmt P txids v_match of
        Err e \<Rightarrow> Err e
      | Ok t \<Rightarrow> Ok \<lparr> mb_header = header, mb_txn = t \<rparr>)"

definition serialize_merkle_block :: "header_codec \<Rightarrow> merkle_block \<Rightarrow> byte_string" where
  "serialize_merkle_block C b = serialize_block_header C (mb_header b) @ serialize_pmt (encode_varint C) (mb_txn b)"

definition deserialize_merkle_block :: "header_codec \<Rightarrow> byte_string \<Rightarrow> (merkle_block, proof_failure) result" where
  "deserialize_merkle_block C data =
     (if length data < 80 then Err (Malformed (InvalidEncoding ''merkle block too short for header''))
      else case deserialize_block_header C (take 80 data) of
        Err e \<Rightarrow> Err (Malformed (InvalidEncoding (''header: '' @ e)))
      | Ok header \<Rightarrow>
          (case deserialize_pmt (decode_varint C) (drop 80 data) of
             Err e \<Rightarrow> Err e
           | Ok t \<Rightarrow> Ok \<lparr> mb_header = header, mb_txn = t \<rparr>))"

definition block_hash_from_header :: "'a tx_api_scheme \<Rightarrow> header_codec \<Rightarrow> block_header \<Rightarrow> hash" where
  "block_hash_from_header P C header = double_sha256 P (serialize_block_header C header)"

text \<open>The identifiers as the RPC writes them: the bytes reversed, in lower-case hexadecimal.\<close>

definition hex_digit :: "nat \<Rightarrow> char" where
  "hex_digit d = ''0123456789abcdef'' ! d"

definition hex_encode :: "byte_string \<Rightarrow> string" where
  "hex_encode bs = concat (map (\<lambda>b. [hex_digit (unat b div 16), hex_digit (unat b mod 16)]) bs)"

definition hash_to_rpc_hex :: "hash \<Rightarrow> string" where
  "hash_to_rpc_hex h = hex_encode (rev (hash_le h))"

datatype rpc_failure = InvalidParams string | InternalError string | BlockNotFound string | Aborted

text \<open>
  The part of \<^verbatim>\<open>gettxoutproof\<close> after the block is found: the requested set and the identifiers of the block
  give the flags, and the proof is its bytes. The set of the requested strings is a duplicate-free list.
\<close>

definition match_flags :: "string hset \<Rightarrow> hash list \<Rightarrow> bool list" where
  "match_flags requested tx_hashes = map (\<lambda>h. hash_to_rpc_hex h \<in> set requested) tx_hashes"

definition gettxoutproof ::
  "'a tx_api_scheme \<Rightarrow> header_codec \<Rightarrow> block_header \<Rightarrow> hash list \<Rightarrow> string hset \<Rightarrow> (byte_string, rpc_failure) result" where
  "gettxoutproof P C header tx_hashes requested =
     (let flags = match_flags requested tx_hashes; found = length (filter id flags) in
      if found \<noteq> length requested
      then Err (InvalidParams ''Not all transactions found in specified or retrieved block'')
      else case new_merkle_block P header tx_hashes flags of
        Err e \<Rightarrow> Err (InternalError ''Failed to build proof'')
      | Ok b \<Rightarrow> Ok (serialize_merkle_block C b))"

lemma hex_digit_inject: "a < 16 \<Longrightarrow> b < 16 \<Longrightarrow> hex_digit a = hex_digit b \<longleftrightarrow> a = b"
  unfolding hex_digit_def by (rule nth_eq_iff_index_eq) simp_all

lemma hex_encode_inject [simp]: "hex_encode bs = hex_encode cs \<longleftrightarrow> bs = cs"
proof (induction bs arbitrary: cs)
  case Nil
  then show ?case by (cases cs) (simp_all add: hex_encode_def)
next
  case (Cons b bs)
  show ?case
  proof (cases cs)
    case Nil
    then show ?thesis by (simp add: hex_encode_def)
  next
    case (Cons c cs')
    have "unat b < 256" "unat c < 256" using unsigned_less [of b] unsigned_less [of c] by simp_all
    then have "hex_digit (unat b div 16) = hex_digit (unat c div 16) \<and> hex_digit (unat b mod 16) = hex_digit (unat c mod 16)
        \<longleftrightarrow> unat b div 16 = unat c div 16 \<and> unat b mod 16 = unat c mod 16"
      by (simp add: hex_digit_inject)
    also have "\<dots> \<longleftrightarrow> b = c" by (metis div_mult_mod_eq unsigned_word_eqI word_unat_eq_iff)
    finally show ?thesis using Cons.IH [of cs'] Cons by (auto simp: hex_encode_def)
  qed
qed

lemma hash_to_rpc_hex_inject [simp]: "hash_to_rpc_hex a = hash_to_rpc_hex b \<longleftrightarrow> a = b"
  by (metis hash_to_rpc_hex_def hex_encode_inject hash_of_bytes_le rev_rev_ident)

text \<open>
  \<^verbatim>\<open>verifytxoutproof\<close> on the decoded bytes, with the optional expected block hash and the stored headers and
  blocks.
\<close>

record stored_blocks =
  get_header :: "hash \<Rightarrow> block_header option"
  get_block :: "hash \<Rightarrow> block option"

definition verifytxoutproof ::
  "'a tx_api_scheme \<Rightarrow> header_codec \<Rightarrow> stored_blocks \<Rightarrow> byte_string \<Rightarrow> (hash, string) result option
    \<Rightarrow> (string list, rpc_failure) result" where
  "verifytxoutproof P C st proof_bytes expected =
     (if proof_bytes = [] then Err (InvalidParams ''Empty proof'')
      else case deserialize_merkle_block C proof_bytes of
        Err Panicked \<Rightarrow> Err Aborted
      | Err (Malformed e) \<Rightarrow> Err (InvalidParams ''Invalid merkle block proof'')
      | Ok b \<Rightarrow>
          let ((extracted_root, matched), pmt) = extract_matches P (mb_txn b);
              header_hash = block_hash_from_header P C (mb_header b) in
          if extracted_root \<noteq> merkle_root (mb_header b) then Ok []
          else case expected of
            Some (Err e) \<Rightarrow> Err (InvalidParams (''Invalid blockhash: '' @ e))
          | _ \<Rightarrow>
              if expected \<noteq> None \<and> expected \<noteq> Some (Ok header_hash) then Ok []
              else if get_header st header_hash = None then Err (BlockNotFound ''Block not found in chain'')
              else case get_block st header_hash of
                None \<Rightarrow> Ok []
              | Some blk \<Rightarrow> if length (block_txs blk) mod 2 ^ 32 \<noteq> n_transactions pmt then Ok []
                    else Ok (map hash_to_rpc_hex matched))"


section \<open>Reference definitions\<close>

text \<open>The root of a block: the level is paired up, an odd last hash with itself, until one hash is left.\<close>

fun pair_up :: "'a tx_api_scheme \<Rightarrow> hash list \<Rightarrow> hash list" where
  "pair_up P (a # b # hs) = merge_merkle_node P a b # pair_up P hs"
| "pair_up P [a] = [merge_merkle_node P a a]"
| "pair_up P [] = []"

lemma length_pair_up [simp]: "length (pair_up P hs) = (length hs + 1) div 2"
  by (induction P hs rule: pair_up.induct) auto

function block_root :: "'a tx_api_scheme \<Rightarrow> hash list \<Rightarrow> hash" where
  "block_root P hs = (if length hs \<le> 1 then hd hs else block_root P (pair_up P hs))"
  by pat_completeness auto
termination by (relation "measure (\<lambda>(P, hs). length hs)") auto

declare block_root.simps [simp del]

text \<open>The transactions below a node, and those of them that are matched, in block order.\<close>

definition leaves :: "nat \<Rightarrow> nat \<Rightarrow> nat \<Rightarrow> nat list" where
  "leaves height pos n = [pos * 2 ^ height ..< min ((pos + 1) * 2 ^ height) n]"

definition matched_below :: "nat \<Rightarrow> nat \<Rightarrow> hash list \<Rightarrow> bool list \<Rightarrow> nat \<Rightarrow> hash list" where
  "matched_below height pos txids v_match n = map ((!) txids) (filter ((!) v_match) (leaves height pos n))"

text \<open>
  The proofs the extraction accepts: wherever it descends, both children exist and differ.
\<close>

fun provable :: "'a tx_api_scheme \<Rightarrow> nat \<Rightarrow> nat \<Rightarrow> hash list \<Rightarrow> bool list \<Rightarrow> nat \<Rightarrow> bool" where
  "provable P 0 pos txids v_match n = True"
| "provable P (Suc height) pos txids v_match n =
     (parent_of_match (Suc height) pos v_match n \<longrightarrow>
       pos * 2 + 1 < calc_tree_width n height
       \<and> calc_hash P height (pos * 2 + 1) txids n \<noteq> calc_hash P height (pos * 2) txids n
       \<and> provable P height (pos * 2) txids v_match n \<and> provable P height (pos * 2 + 1) txids v_match n)"

definition provable_block :: "'a tx_api_scheme \<Rightarrow> hash list \<Rightarrow> bool list \<Rightarrow> bool" where
  "provable_block P txids v_match = provable P (tree_height (length txids) 0) 0 txids v_match (length txids)"


section \<open>The shape of the tree\<close>

lemma calc_tree_width_less:
  assumes "n \<le> 2 ^ 31" and "h \<le> 31"
  shows "pos < calc_tree_width n h \<longleftrightarrow> pos * 2 ^ h < n"
proof -
  have "(2 :: nat) ^ h \<le> 2 ^ 31" using assms(2) by (rule power_increasing) simp
  then have "n + 2 ^ h - 1 < 2 ^ 32" using assms(1) by simp
  then have "calc_tree_width n h = (n + 2 ^ h - 1) div 2 ^ h" by (simp add: calc_tree_width_def)
  then have "pos < calc_tree_width n h \<longleftrightarrow> Suc pos * 2 ^ h \<le> n + 2 ^ h - 1"
    using less_eq_div_iff_mult_less_eq [of "2 ^ h" "Suc pos" "n + 2 ^ h - 1"] by (simp add: Suc_le_eq)
  also have "\<dots> \<longleftrightarrow> pos * 2 ^ h < n"
  proof -
    have "(0 :: nat) < 2 ^ h" by simp
    then show ?thesis by (simp only: mult_Suc) linarith
  qed
  finally show ?thesis .
qed

lemma tree_height_le: "h \<le> 31 \<Longrightarrow> tree_height n h \<le> 31 \<and> calc_tree_width n (tree_height n h) \<le> 1"
proof (induction n h rule: tree_height.induct)
  case (1 n h)
  show ?case
  proof (cases "1 < calc_tree_width n h")
    case True
    then have "h < 31" using calc_tree_width_top [of h n] by (cases "31 \<le> h") simp_all
    with 1 True show ?thesis by (subst (1 2) tree_height.simps) simp
  next
    case False
    with 1 show ?thesis by (subst (1 2) tree_height.simps) simp
  qed
qed

lemma tree_height_covers:
  assumes "n \<le> 2 ^ 31"
  shows "n \<le> 2 ^ tree_height n 0"
  using tree_height_le [of 0 n] calc_tree_width_less [of n "tree_height n 0" 1] assms by simp

lemma leaves_0 [simp]: "pos < n \<Longrightarrow> leaves 0 pos n = [pos]"
  by (simp add: leaves_def)

lemma upt_split: "i \<le> j \<Longrightarrow> j \<le> k \<Longrightarrow> [i..<k] = [i..<j] @ [j..<k]"
  using upt_add_eq_append [of i j "k - j"] by simp

lemma leaves_Suc: "leaves (Suc h) pos n = leaves h (pos * 2) n @ leaves h (pos * 2 + 1) n"
proof (cases "n \<le> (pos * 2 + 1) * 2 ^ h")
  case True
  then have "min ((pos + 1) * 2 ^ Suc h) n = n" "min ((pos * 2 + 1) * 2 ^ h) n = n"
    by (auto simp: algebra_simps min_def)
  with True show ?thesis by (simp add: leaves_def mult.assoc)
next
  case False
  let ?m = "min ((pos + 1) * 2 ^ Suc h) n"
  have "(pos * 2 + 1) * 2 ^ h \<le> ?m" using False by (simp add: algebra_simps)
  then have "[pos * 2 ^ Suc h ..< ?m] = [pos * 2 ^ Suc h ..< (pos * 2 + 1) * 2 ^ h] @ [(pos * 2 + 1) * 2 ^ h ..< ?m]"
    by (intro upt_split) simp_all
  moreover have "(pos * 2 + 1 + 1) * 2 ^ h = (pos + 1) * 2 ^ Suc h" by simp
  ultimately show ?thesis using False by (simp add: leaves_def mult.assoc del: upt_conv_Cons)
qed

lemma leaves_empty: "n \<le> pos * 2 ^ h \<Longrightarrow> leaves h pos n = []"
  by (simp add: leaves_def)

lemma leaves_nonempty: "pos * 2 ^ h < n \<Longrightarrow> leaves h pos n \<noteq> []"
  by (simp add: leaves_def min_def not_le)

lemma leaves_top: "n \<le> 2 ^ h \<Longrightarrow> leaves h 0 n = [0..<n]"
  by (simp add: leaves_def)

lemma parent_of_match_iff: "parent_of_match h pos v_match n \<longleftrightarrow> (\<exists>p\<in>set (leaves h pos n). v_match ! p)"
  by (simp add: parent_of_match_def leaves_def list_ex_iff)

lemma matched_below_0 [simp]: "pos < n \<Longrightarrow> matched_below 0 pos txids v_match n = (if v_match ! pos then [txids ! pos] else [])"
  by (simp add: matched_below_def)

lemma matched_below_Suc:
  "matched_below (Suc h) pos txids v_match n =
     matched_below h (pos * 2) txids v_match n @ matched_below h (pos * 2 + 1) txids v_match n"
  by (simp add: matched_below_def leaves_Suc)

lemma matched_below_none: "\<not> parent_of_match h pos v_match n \<Longrightarrow> matched_below h pos txids v_match n = []"
  by (simp add: matched_below_def parent_of_match_iff filter_empty_conv)

lemma matched_below_empty: "n \<le> pos * 2 ^ h \<Longrightarrow> matched_below h pos txids v_match n = []"
  by (simp add: matched_below_def leaves_empty)


section \<open>Building and extracting\<close>

abbreviation built :: "'a tx_api_scheme \<Rightarrow> nat \<Rightarrow> nat \<Rightarrow> hash list \<Rightarrow> bool list \<Rightarrow> nat \<Rightarrow> bool list \<times> hash list" where
  "built P h pos txids v_match n \<equiv> traverse_and_build P h pos txids v_match n ([], [])"

lemma traverse_and_build_append:
  "traverse_and_build P h pos txids v_match n (fs, hs) =
     (fs @ fst (built P h pos txids v_match n), hs @ snd (built P h pos txids v_match n))"
proof (induction h arbitrary: pos fs hs)
  case 0
  then show ?case by simp
next
  case (Suc h)
  show ?case
    by (simp add: Let_def Suc [of "pos * 2" "fs @ _"] Suc [of "pos * 2" "[_]"]
        Suc [of "Suc (pos * 2)" "_ @ _"] Suc [of "Suc (pos * 2)" "_ # _"])
qed

lemma built_Suc:
  "built P (Suc h) pos txids v_match n =
     (if \<not> parent_of_match (Suc h) pos v_match n then ([False], [calc_hash P (Suc h) pos txids n])
      else
        let (F, H) = built P h (pos * 2) txids v_match n;
            (F', H') = (if pos * 2 + 1 < calc_tree_width n h then built P h (pos * 2 + 1) txids v_match n else ([], []))
        in (True # F @ F', H @ H'))"
  by (simp add: Let_def case_prod_beta traverse_and_build_append [of P h _ txids v_match n "[_]"]
      traverse_and_build_append [of P h _ txids v_match n "_ # _"])

lemma drop_Cons_nth: "drop k xs = y # ys \<Longrightarrow> k < length xs \<and> xs ! k = y \<and> drop (Suc k) xs = ys"
  by (metis Cons_nth_drop_Suc drop_eq_Nil list.discI list.inject not_le)

lemma drop_append_add: "drop k xs = ys @ zs \<Longrightarrow> drop (k + length ys) xs = zs"
  by (metis add.commute append_eq_conv_conj drop_drop)

abbreviation advanced :: "extraction \<Rightarrow> bool list \<times> hash list \<Rightarrow> hash list \<Rightarrow> bool \<Rightarrow> extraction" where
  "advanced s b ms ok \<equiv>
     \<lparr> n_bits_used = n_bits_used s + length (fst b), n_hash_used = n_hash_used s + length (snd b),
       x_match = x_match s @ ms, x_bad = x_bad s \<or> \<not> ok \<rparr>"

lemma extraction_fields:
  "s = \<lparr> n_bits_used = n_bits_used s, n_hash_used = n_hash_used s, x_match = x_match s, x_bad = x_bad s \<rparr>"
  by simp

lemma traverse_and_extract_built:
  assumes "n \<le> 2 ^ 31" "h \<le> 31" "pos * 2 ^ h < n"
    and "drop (n_bits_used s) fs = fst (built P h pos txids v_match n) @ fs'"
    and "drop (n_hash_used s) hs = snd (built P h pos txids v_match n) @ hs'"
  shows "traverse_and_extract P h pos n fs hs s =
           (calc_hash P h pos txids n,
            advanced s (built P h pos txids v_match n) (matched_below h pos txids v_match n)
              (provable P h pos txids v_match n))"
  using assms
proof (induction h arbitrary: pos s fs' hs')
  case 0
  then show ?case
    by (auto simp: take_hash_def parent_of_match_iff Let_def dest!: drop_Cons_nth)
next
  case (Suc h)
  show ?case
  proof (cases "parent_of_match (Suc h) pos v_match n")
    case False
    with Suc.prems show ?thesis
      by (auto simp: built_Suc take_hash_def Let_def matched_below_none dest!: drop_Cons_nth)
  next
    case True
    let ?L = "built P h (pos * 2) txids v_match n" and ?R = "built P h (pos * 2 + 1) txids v_match n"
    let ?right = "pos * 2 + 1 < calc_tree_width n h"
    let ?s0 = "s \<lparr> n_bits_used := n_bits_used s + 1 \<rparr>"
    let ?s1 = "advanced ?s0 ?L (matched_below h (pos * 2) txids v_match n) (provable P h (pos * 2) txids v_match n)"
    have width: "?right \<longleftrightarrow> (pos * 2 + 1) * 2 ^ h < n" using Suc.prems by (intro calc_tree_width_less) simp_all
    have b: "built P (Suc h) pos txids v_match n =
        (True # fst ?L @ (if ?right then fst ?R else []), snd ?L @ (if ?right then snd ?R else []))"
      unfolding built_Suc using True by (simp add: Let_def case_prod_beta)
    from Suc.prems(4) [unfolded b] have f: "n_bits_used s < length fs" "fs ! n_bits_used s"
        "drop (n_bits_used ?s0) fs = fst ?L @ (if ?right then fst ?R else []) @ fs'"
      by (auto dest!: drop_Cons_nth)
    from Suc.prems(5) [unfolded b] have g: "drop (n_hash_used ?s0) hs = snd ?L @ (if ?right then snd ?R else []) @ hs'"
      by simp
    have left: "traverse_and_extract P h (pos * 2) n fs hs ?s0 = (calc_hash P h (pos * 2) txids n, ?s1)"
      using Suc.prems f g by (intro Suc.IH) (simp_all add: mult.assoc)
    have right: "traverse_and_extract P h (pos * 2 + 1) n fs hs ?s1 =
        (calc_hash P h (pos * 2 + 1) txids n,
         advanced ?s1 ?R (matched_below h (pos * 2 + 1) txids v_match n) (provable P h (pos * 2 + 1) txids v_match n))"
      if ?right
      using Suc.prems drop_append_add [OF f(3)] drop_append_add [OF g] that width
      by (intro Suc.IH) (simp_all add: ac_simps)
    show ?thesis
    proof (cases ?right)
      case True
      with \<open>parent_of_match _ _ _ _\<close> f left right show ?thesis
        unfolding b by (simp add: Let_def matched_below_Suc)
    next
      case False
      with width have "matched_below h (pos * 2 + 1) txids v_match n = []" by (intro matched_below_empty) simp
      with False \<open>parent_of_match _ _ _ _\<close> f left show ?thesis
        unfolding b by (simp add: Let_def matched_below_Suc)
    qed
  qed
qed


lemma built_sizes:
  assumes "n \<le> 2 ^ 31" "h \<le> 31" "pos * 2 ^ h < n"
  shows "length (snd (built P h pos txids v_match n)) \<le> length (leaves h pos n)
         \<and> length (snd (built P h pos txids v_match n)) \<le> length (fst (built P h pos txids v_match n))
         \<and> length (fst (built P h pos txids v_match n)) \<le> (h + 1) * length (leaves h pos n)"
  using assms
proof (induction h arbitrary: pos)
  case 0
  then show ?case by simp
next
  case (Suc h)
  have some: "1 \<le> length (leaves (Suc h) pos n)"
    using leaves_nonempty [OF Suc.prems(3)] by (cases "leaves (Suc h) pos n") auto
  have width: "pos * 2 + 1 < calc_tree_width n h \<longleftrightarrow> (pos * 2 + 1) * 2 ^ h < n"
    using Suc.prems by (intro calc_tree_width_less) simp_all
  note left = Suc.IH [of "pos * 2"] and right = Suc.IH [of "pos * 2 + 1"]
  show ?case
  proof (cases "parent_of_match (Suc h) pos v_match n")
    case False
    with some show ?thesis unfolding built_Suc by simp
  next
    case True
    with some left right Suc.prems width show ?thesis
      unfolding built_Suc
      by (cases "pos * 2 + 1 < calc_tree_width n h")
         (auto simp: Let_def case_prod_beta leaves_Suc mult.assoc algebra_simps)
  qed
qed

lemma nth_pair_up:
  "pos < (length hs + 1) div 2 \<Longrightarrow>
   pair_up P hs ! pos = merge_merkle_node P (hs ! (pos * 2)) (if pos * 2 + 1 < length hs then hs ! (pos * 2 + 1) else hs ! (pos * 2))"
  by (induction P hs arbitrary: pos rule: pair_up.induct) (auto simp: less_Suc_eq_0_disj nth_Cons')

lemma level_length:
  "pos < length ((pair_up P ^^ h) txids) \<longleftrightarrow> pos * 2 ^ h < length txids"
proof (induction h arbitrary: pos)
  case 0
  then show ?case by simp
next
  case (Suc h)
  have "pos < (k + 1) div 2 \<longleftrightarrow> pos * 2 < k" for k :: nat by auto
  with Suc [of "pos * 2"] show ?case by (simp add: mult.assoc)
qed

lemma calc_hash_level:
  assumes "length txids \<le> 2 ^ 31" "h \<le> 31" "pos * 2 ^ h < length txids"
  shows "calc_hash P h pos txids (length txids) = (pair_up P ^^ h) txids ! pos"
  using assms
proof (induction h arbitrary: pos)
  case 0
  then show ?case by simp
next
  case (Suc h)
  let ?hs = "(pair_up P ^^ h) txids"
  have "pos * 2 + 1 < calc_tree_width (length txids) h \<longleftrightarrow> pos * 2 + 1 < length ?hs"
    using Suc.prems calc_tree_width_less [of "length txids" h "pos * 2 + 1"] level_length [of "pos * 2 + 1" h P txids]
    by simp
  moreover have "pos < (length ?hs + 1) div 2"
    using Suc.prems level_length [of pos "Suc h" P txids] by simp
  ultimately show ?case
    using Suc.prems Suc.IH [of "pos * 2"] Suc.IH [of "pos * 2 + 1"] level_length [of "pos * 2 + 1" h P txids]
    by (simp add: Let_def nth_pair_up mult.assoc)
qed

lemma block_root_calc_hash:
  assumes "txids \<noteq> []" "length txids \<le> 2 ^ 31" "h \<le> 31"
  shows "block_root P ((pair_up P ^^ h) txids) = calc_hash P (tree_height (length txids) h) 0 txids (length txids)"
  using assms(3)
proof (induction "length txids" h rule: tree_height.induct)
  case (1 h)
  let ?hs = "(pair_up P ^^ h) txids"
  have wide: "1 < calc_tree_width (length txids) h \<longleftrightarrow> 1 < length ?hs"
    using calc_tree_width_less [OF assms(2) 1(2), of 1] level_length [of 1 h P txids] by simp
  show ?case
  proof (cases "1 < length ?hs")
    case True
    with wide calc_tree_width_top [of h "length txids"] have "h < 31" by (cases "31 \<le> h") simp_all
    with True wide 1 show ?thesis
      by (subst block_root.simps, subst tree_height.simps) simp
  next
    case False
    have "0 < length ?hs" using assms(1) level_length [of 0 h P txids] by simp
    with False wide 1 assms show ?thesis
      by (subst block_root.simps, subst tree_height.simps) (simp add: calc_hash_level hd_conv_nth)
  qed
qed

lemma filter_zip_nth:
  "length xs = length ms \<Longrightarrow> map ((!) xs) (filter ((!) ms) [0..<length xs]) = map fst (filter snd (zip xs ms))"
proof (induction xs arbitrary: ms rule: rev_induct)
  case Nil
  then show ?case by simp
next
  case (snoc x xs)
  then obtain ns m where ms: "ms = ns @ [m]" by (cases ms rule: rev_cases) simp_all
  have "map ((!) (xs @ [x])) (filter ((!) (ns @ [m])) [0..<length xs]) = map ((!) xs) (filter ((!) ns) [0..<length xs])"
    using snoc.prems ms by (intro map_cong filter_cong) (auto simp: nth_append)
  moreover have "(ns @ [m]) ! length xs = m" "(xs @ [x]) ! length ns = x"
    using snoc.prems ms by (simp_all add: nth_append)
  ultimately show ?case using snoc ms by simp
qed


lemma provable_block_extracts:
  assumes "txids \<noteq> []" "length txids \<le> 2 ^ 31" "length txids = length v_match"
    and "(F, H) = built P (tree_height (length txids) 0) 0 txids v_match (length txids)"
    and "(length (F @ pad) + 7) div 8 = (length F + 7) div 8"
  shows "fst (extract_matches P \<lparr> n_transactions = length txids, v_bits = F @ pad, v_hash = H, pmt_bad = False \<rparr>) =
           (if provable_block P txids v_match then (block_root P txids, map fst (filter snd (zip txids v_match)))
            else (0, []))"
proof -
  let ?n = "length txids" and ?h = "tree_height (length txids) 0"
  let ?s = "\<lparr> n_bits_used = 0, n_hash_used = 0, x_match = [], x_bad = False \<rparr>"
  have h: "?h \<le> 31" using tree_height_le [of 0 ?n] by simp
  have FH: "fst (built P ?h 0 txids v_match ?n) = F" "snd (built P ?h 0 txids v_match ?n) = H"
    by (simp_all add: assms(4) [symmetric])
  have top: "leaves ?h 0 ?n = [0..<?n]" using assms(2) by (intro leaves_top tree_height_covers)
  have m: "matched_below ?h 0 txids v_match ?n = map fst (filter snd (zip txids v_match))"
    using filter_zip_nth [OF assms(3)] by (simp add: matched_below_def top)
  have sizes: "length H \<le> ?n" "length H \<le> length F"
    using built_sizes [of ?n ?h 0 P txids v_match] assms(1,2) h by (simp_all add: FH top)
  have "traverse_and_extract P ?h 0 ?n (F @ pad) H ?s =
      (calc_hash P ?h 0 txids ?n, advanced ?s (F, H) (matched_below ?h 0 txids v_match ?n) (provable P ?h 0 txids v_match ?n))"
    using traverse_and_extract_built [of ?n ?h 0 ?s "F @ pad" P txids v_match pad H "[]"] assms(1,2) h
    by (simp add: FH)
  then show ?thesis
    using sizes assms(1,5) block_root_calc_hash [OF assms(1,2), of 0 P]
    by (simp add: extract_matches_def provable_block_def m)
qed


section \<open>The bytes of a proof\<close>

abbreviation set_flag :: "byte_string \<Rightarrow> nat \<times> bool \<Rightarrow> byte_string" where
  "set_flag out pb \<equiv> (case pb of (p, b) \<Rightarrow> if b then out[p div 8 := out ! (p div 8) OR push_bit (p mod 8) 1] else out)"

lemma bits_to_bytes_bits:
  assumes "length fs \<le> k * 8"
  shows "length (foldl set_flag (replicate k 0) (enumerate 0 fs)) = k
    \<and> (\<forall>p < k * 8. bit (foldl set_flag (replicate k 0) (enumerate 0 fs) ! (p div 8)) (p mod 8)
          \<longleftrightarrow> p < length fs \<and> fs ! p)"
  using assms
proof (induction fs rule: rev_induct)
  case Nil
  have "p div 8 < k" if "p < k * 8" for p using that by (simp add: less_mult_imp_div_less)
  then show ?case by simp
next
  case (snoc b fs)
  let ?out = "foldl set_flag (replicate k 0) (enumerate 0 fs)" and ?q = "length fs"
  from snoc have len: "length ?out = k" and q: "?q div 8 < k"
    and IH: "\<And>p. p < k * 8 \<Longrightarrow> bit (?out ! (p div 8)) (p mod 8) \<longleftrightarrow> p < ?q \<and> fs ! p"
    by (simp_all add: less_mult_imp_div_less)
  have step: "foldl set_flag (replicate k 0) (enumerate 0 (fs @ [b])) = set_flag ?out (?q, b)"
    by (simp add: enumerate_append_eq)
  have "bit (set_flag ?out (?q, b) ! (p div 8)) (p mod 8) \<longleftrightarrow> p < Suc ?q \<and> (fs @ [b]) ! p" if p: "p < k * 8" for p
  proof (cases "p = ?q")
    case True
    with IH [OF p] len q show ?thesis by (auto simp: bit_simps nth_append)
  next
    case False
    have "p mod 8 = ?q mod 8 \<longrightarrow> p div 8 \<noteq> ?q div 8" using False by (metis div_mult_mod_eq)
    with IH [OF p] len q False show ?thesis
      by (cases "p div 8 = ?q div 8") (auto simp: bit_or_iff nth_append bit_simps)
  qed
  with len show ?case by (auto simp: step)
qed

lemma bytes_to_bits_bits_to_bytes:
  "bytes_to_bits (bits_to_bytes fs) = fs @ replicate ((length fs + 7) div 8 * 8 - length fs) False"
proof -
  let ?k = "(length fs + 7) div 8"
  have fits: "length fs \<le> ?k * 8" by linarith
  note b = bits_to_bytes_bits [OF fits]
  have "bytes_to_bits (bits_to_bytes fs) = map (\<lambda>p. p < length fs \<and> fs ! p) [0..<?k * 8]"
    using b unfolding bytes_to_bits_def bits_to_bytes_def bit_iff_and_push_bit_not_eq_0 [symmetric]
    by (intro map_cong) auto
  also have "\<dots> = fs @ replicate (?k * 8 - length fs) False"
    using fits by (intro nth_equalityI) (auto simp: nth_append)
  finally show ?thesis .
qed


text \<open>The documented behaviour of the codecs: a size reads back with its length, a header has eighty bytes.\<close>

definition compact_sizes :: "header_codec \<Rightarrow> bool" where
  "compact_sizes C \<longleftrightarrow>
     (\<forall>k rest. decode_varint C (encode_varint C k @ rest) = Ok (k, length (encode_varint C k)))
     \<and> (\<forall>k. length (encode_varint C k) \<le> 9)"

definition header_bytes :: "header_codec \<Rightarrow> block_header \<Rightarrow> bool" where
  "header_bytes C header \<longleftrightarrow>
     length (serialize_block_header C header) = 80
     \<and> deserialize_block_header C (serialize_block_header C header) = Ok header"

lemma read_hashes_concat: "read_hashes (length hs) (concat (map hash_le hs) @ rest) = hs"
  by (induction hs) simp_all

lemma length_bits_to_bytes [simp]: "length (bits_to_bytes fs) = (length fs + 7) div 8"
  using bits_to_bytes_bits [of fs "(length fs + 7) div 8"] by (simp add: bits_to_bytes_def)

lemma length_concat_hash_le [simp]: "length (concat (map hash_le hs)) = 32 * length hs"
  by (induction hs) simp_all

lemma pmt_roundtrip:
  assumes "compact_sizes C" "n_transactions t < 2 ^ 32" "length (v_hash t) < 2 ^ 40" "length (v_bits t) < 2 ^ 40"
    and "\<not> pmt_bad t"
  shows "deserialize_pmt (decode_varint C) (serialize_pmt (encode_varint C) t) =
    Ok (t \<lparr> v_bits := v_bits t @ replicate ((length (v_bits t) + 7) div 8 * 8 - length (v_bits t)) False \<rparr>)"
proof -
  let ?hs = "v_hash t" and ?fb = "bits_to_bytes (v_bits t)"
  let ?e1 = "encode_varint C (of_nat (length ?hs))" and ?e2 = "encode_varint C (of_nat (length ?fb))"
  have dec: "decode_varint C (encode_varint C k @ rest) = Ok (k, length (encode_varint C k))"
    and short: "length (encode_varint C k) \<le> 9" for k rest
    using assms(1) by (simp_all add: compact_sizes_def)
  have u1: "unat (of_nat (length ?hs) :: u64) = length ?hs"
    using assms(3) by (simp add: unat_of_nat)
  have u2: "unat (of_nat (length ?fb) :: u64) = length ?fb"
    using assms(4) by (simp add: unat_of_nat)
  let ?data = "le_bytes 4 (n_transactions t) @ ?e1 @ concat (map hash_le ?hs) @ ?e2 @ ?fb"
  have cuts: "drop 4 ?data = ?e1 @ concat (map hash_le ?hs) @ ?e2 @ ?fb"
    "drop (4 + length ?e1) ?data = concat (map hash_le ?hs) @ ?e2 @ ?fb"
    "drop (4 + length ?e1 + length ?hs * 32) ?data = ?e2 @ ?fb"
    "drop (4 + length ?e1 + length ?hs * 32 + length ?e2) ?data = ?fb" "take 4 ?data = le_bytes 4 (n_transactions t)"
    by simp_all
  have lens: "length ?data = 4 + length ?e1 + length ?hs * 32 + length ?e2 + length ?fb" by simp
  have small: "length ?data < 2 ^ 64" "length ?hs * 32 < 2 ^ 63"
    using lens short [of "of_nat (length ?hs)"] short [of "of_nat (length ?fb)"] assms(3,4) by simp_all
  have "slice ?data (4 + length ?e1 + length ?hs * 32 + length ?e2) (length ?data) = ?fb"
    using cuts(4) by (simp add: slice_def lens)
  then show ?thesis
    using small lens assms(2,5)
    by (simp add: serialize_pmt_def deserialize_pmt_def Let_def cuts dec u1 u2 read_hashes_concat
        bytes_to_bits_bits_to_bytes del: length_append drop_append take_append length_bits_to_bytes)
qed


section \<open>Proofs made by the node verify\<close>

text \<open>A block the node has stored under the hash of its header, with the root of its transactions.\<close>

abbreviation block_ids :: "'a tx_api_scheme \<Rightarrow> block \<Rightarrow> hash list" where
  "block_ids P blk \<equiv> map (calculate_tx_id P) (block_txs blk)"

definition stored_block :: "'a tx_api_scheme \<Rightarrow> header_codec \<Rightarrow> stored_blocks \<Rightarrow> block \<Rightarrow> bool" where
  "stored_block P C st blk \<longleftrightarrow>
     get_block st (block_hash_from_header P C (blk_header blk)) = Some blk
     \<and> get_header st (block_hash_from_header P C (blk_header blk)) = Some (blk_header blk)
     \<and> merkle_root (blk_header blk) = block_root P (block_ids P blk)
     \<and> 0 < length (block_txs blk) \<and> length (block_txs blk) \<le> 2 ^ 31"

lemma filter_match_flags:
  "map hash_to_rpc_hex (map fst (filter snd (zip xs (match_flags requested xs)))) =
     filter (\<lambda>id. id \<in> set requested) (map hash_to_rpc_hex xs)"
  by (induction xs) (simp_all add: match_flags_def)

lemma built_proof_read_back:
  assumes "compact_sizes C" "txids \<noteq> []" "length txids \<le> 2 ^ 31" "length txids = length v_match"
    and "new_pmt P txids v_match = Ok t"
  obtains t' where "deserialize_pmt (decode_varint C) (serialize_pmt (encode_varint C) t) = Ok t'"
    and "n_transactions t' = length txids"
    and "fst (extract_matches P t') =
           (if provable_block P txids v_match then (block_root P txids, map fst (filter snd (zip txids v_match)))
            else (0, []))"
proof -
  let ?n = "length txids" and ?h = "tree_height (length txids) 0"
  obtain F H where FH: "built P ?h 0 txids v_match ?n = (F, H)" by (cases "built P ?h 0 txids v_match ?n")
  let ?pad = "replicate ((length F + 7) div 8 * 8 - length F) False"
  let ?t' = "\<lparr> n_transactions = ?n, v_bits = F @ ?pad, v_hash = H, pmt_bad = False \<rparr>"
  have t: "t = \<lparr> n_transactions = ?n, v_bits = F, v_hash = H, pmt_bad = False \<rparr>"
    using assms(2-5) FH by (simp add: new_pmt_def Let_def)
  have h: "?h \<le> 31" using tree_height_le [of 0 ?n] by simp
  have "length H \<le> ?n" "length F \<le> (?h + 1) * ?n"
    using built_sizes [of ?n ?h 0 P txids v_match] assms(2,3) h FH leaves_top [OF tree_height_covers [OF assms(3)]]
    by simp_all
  moreover have "(?h + 1) * ?n \<le> 32 * 2 ^ 31" using h assms(3) by (intro mult_le_mono) simp_all
  ultimately have "deserialize_pmt (decode_varint C) (serialize_pmt (encode_varint C) t) = Ok ?t'"
    using pmt_roundtrip [OF assms(1), of t] assms(3) by (simp add: t)
  moreover have "(length (F @ ?pad) + 7) div 8 = (length F + 7) div 8"
  proof -
    have "length (F @ ?pad) = (length F + 7) div 8 * 8" by simp
    then show ?thesis by simp
  qed
  then have "fst (extract_matches P ?t') =
      (if provable_block P txids v_match then (block_root P txids, map fst (filter snd (zip txids v_match))) else (0, []))"
    using assms(2-4) FH by (intro provable_block_extracts) simp_all
  ultimately show ?thesis by (intro that) simp_all
qed

lemma extract_keeps_count [simp]: "n_transactions (snd (extract_matches P t)) = n_transactions t"
  by (simp add: extract_matches_def Let_def case_prod_beta)

lemma own_proof_verifies:
  assumes "compact_sizes C" "header_bytes C (blk_header blk)" "stored_block P C st blk"
    and "gettxoutproof P C (blk_header blk) (block_ids P blk) requested = Ok proof_bytes"
  shows "verifytxoutproof P C st proof_bytes None =
    Ok (if provable_block P (block_ids P blk) (match_flags requested (block_ids P blk))
        then filter (\<lambda>id. id \<in> set requested) (map hash_to_rpc_hex (block_ids P blk)) else [])"
proof -
  let ?ids = "block_ids P blk" and ?fs = "match_flags requested (block_ids P blk)"
  from assms(3) have ids: "?ids \<noteq> []" "length ?ids \<le> 2 ^ 31" by (auto simp: stored_block_def)
  have len: "length ?ids = length ?fs" by (simp add: match_flags_def)
  from assms(4) obtain t where t: "new_pmt P ?ids ?fs = Ok t"
    and bytes: "proof_bytes = serialize_block_header C (blk_header blk) @ serialize_pmt (encode_varint C) t"
    by (auto simp: gettxoutproof_def Let_def new_merkle_block_def serialize_merkle_block_def
        split: if_splits sum.splits)
  obtain t' where t': "deserialize_pmt (decode_varint C) (serialize_pmt (encode_varint C) t) = Ok t'"
    "n_transactions t' = length ?ids"
    "fst (extract_matches P t') =
       (if provable_block P ?ids ?fs then (block_root P ?ids, map fst (filter snd (zip ?ids ?fs))) else (0, []))"
    using built_proof_read_back [OF assms(1) ids len t] by blast
  have "deserialize_merkle_block C proof_bytes = Ok \<lparr> mb_header = blk_header blk, mb_txn = t' \<rparr>"
    using assms(2) t'(1) by (simp add: deserialize_merkle_block_def bytes header_bytes_def)
  moreover have "proof_bytes \<noteq> []" using assms(2) by (auto simp: bytes header_bytes_def)
  moreover have "n_transactions (snd (extract_matches P t')) = length (block_txs blk)" using t'(2) by simp
  moreover have "length (block_txs blk) mod 2 ^ 32 = length (block_txs blk)" using ids(2) by simp
  ultimately show ?thesis
    using t'(3) assms(3) unfolding verifytxoutproof_def stored_block_def filter_match_flags [symmetric]
    by (cases "extract_matches P t'") (auto simp: Let_def)
qed


lemma odd_last_not_provable:
  assumes "odd n" "n \<le> 2 ^ 31" "v_match ! (n - 1)"
  shows "Suc h \<le> 31 \<Longrightarrow> n - 1 \<in> set (leaves (Suc h) pos n) \<Longrightarrow> \<not> provable P (Suc h) pos txids v_match n"
proof (induction h arbitrary: pos)
  case 0
  then have "pos * 2 \<le> n - 1" "n - 1 < pos * 2 + 2" by (auto simp: leaves_def)
  with assms(1) have "n = pos * 2 + 1" by presburger
  moreover have "parent_of_match (Suc 0) pos v_match n" using 0 assms(3) by (auto simp: parent_of_match_iff)
  ultimately show ?case using calc_tree_width_less [OF assms(2), of 0 "pos * 2 + 1"] by simp
next
  case (Suc h)
  have "parent_of_match (Suc (Suc h)) pos v_match n" using Suc.prems assms(3) by (auto simp: parent_of_match_iff)
  moreover have "n - 1 \<in> set (leaves (Suc h) (pos * 2) n) \<or> n - 1 \<in> set (leaves (Suc h) (pos * 2 + 1) n)"
    using Suc.prems by (simp add: leaves_Suc [of "Suc h"])
  ultimately show ?case using Suc.IH [of "pos * 2"] Suc.IH [of "pos * 2 + 1"] Suc.prems(1)
    by (auto simp del: provable.simps simp: provable.simps(2) [of _ "Suc h"])
qed

lemma odd_block_not_provable:
  assumes "odd (length txids)" "1 < length txids" "length txids \<le> 2 ^ 31" "v_match ! (length txids - 1)"
  shows "\<not> provable_block P txids v_match"
proof -
  let ?n = "length txids"
  have top: "?n \<le> 2 ^ tree_height ?n 0" by (rule tree_height_covers [OF assms(3)])
  with assms(2) obtain h where h: "tree_height ?n 0 = Suc h" by (cases "tree_height ?n 0") auto
  have "?n - 1 \<in> set (leaves (Suc h) 0 ?n)" using leaves_top [of ?n "Suc h"] top h assms(2) by simp
  with odd_last_not_provable [OF assms(1,3,4), of h 0 P txids] tree_height_le [of 0 ?n] h show ?thesis
    by (simp add: provable_block_def)
qed


section \<open>Accepted proofs are about the block\<close>

text \<open>
  The byte strings a verification hashes, and those behind the hash and the root of a block: the header, and the two
  children of every inner node. Two different ones of equal length with the same hash are a collision of double
  SHA-256 that the proof exhibits.
\<close>

fun extract_preimages ::
  "'a tx_api_scheme \<Rightarrow> nat \<Rightarrow> nat \<Rightarrow> nat \<Rightarrow> bool list \<Rightarrow> hash list \<Rightarrow> extraction \<Rightarrow> byte_string list" where
  "extract_preimages P 0 pos n fs hs s = []"
| "extract_preimages P (Suc height) pos n fs hs s =
     (if n_bits_used s \<ge> length fs \<or> \<not> fs ! n_bits_used s then []
      else
        let s0 = s \<lparr> n_bits_used := n_bits_used s + 1 \<rparr>;
            (left, s1) = traverse_and_extract P height (pos * 2) n fs hs s0;
            has_right = (pos * 2 + 1 < calc_tree_width n height);
            right = (if has_right then fst (traverse_and_extract P height (pos * 2 + 1) n fs hs s1) else left)
        in (hash_le left @ hash_le right) # extract_preimages P height (pos * 2) n fs hs s0
           @ (if has_right then extract_preimages P height (pos * 2 + 1) n fs hs s1 else []))"

definition start_extraction :: "partial_merkle_tree \<Rightarrow> extraction" where
  "start_extraction t = \<lparr> n_bits_used = 0, n_hash_used = 0, x_match = [], x_bad = pmt_bad t \<rparr>"

definition verifier_preimages :: "'a tx_api_scheme \<Rightarrow> header_codec \<Rightarrow> byte_string \<Rightarrow> byte_string list" where
  "verifier_preimages P C proof_bytes =
     (case deserialize_merkle_block C proof_bytes of
        Err _ \<Rightarrow> []
      | Ok b \<Rightarrow>
          let t = mb_txn b; n = n_transactions t in
          serialize_block_header C (mb_header b)
          # extract_preimages P (tree_height n 0) 0 n (v_bits t) (v_hash t) (start_extraction t))"

definition node_preimage :: "'a tx_api_scheme \<Rightarrow> hash list \<Rightarrow> nat \<Rightarrow> nat \<Rightarrow> byte_string" where
  "node_preimage P txids height pos =
     (let left = calc_hash P height (pos * 2) txids (length txids);
          right = (if pos * 2 + 1 < calc_tree_width (length txids) height
                   then calc_hash P height (pos * 2 + 1) txids (length txids) else left)
      in hash_le left @ hash_le right)"

definition block_preimages :: "'a tx_api_scheme \<Rightarrow> header_codec \<Rightarrow> block \<Rightarrow> byte_string list" where
  "block_preimages P C blk =
     serialize_block_header C (blk_header blk)
     # concat (map (\<lambda>height. map (node_preimage P (block_ids P blk) height)
           [0..<calc_tree_width (length (block_txs blk)) (Suc height)])
         [0..<tree_height (length (block_txs blk)) 0])"

definition collides :: "'a tx_api_scheme \<Rightarrow> byte_string list \<Rightarrow> byte_string list \<Rightarrow> bool" where
  "collides P xs ys \<longleftrightarrow>
     list_ex (\<lambda>x. list_ex (\<lambda>y. length x = length y \<and> x \<noteq> y \<and> double_sha256 P x = double_sha256 P y) ys) xs"

lemma collidesI:
  "x \<in> set xs \<Longrightarrow> y \<in> set ys \<Longrightarrow> length x = length y \<Longrightarrow> x \<noteq> y \<Longrightarrow> double_sha256 P x = double_sha256 P y \<Longrightarrow> collides P xs ys"
  by (auto simp: collides_def list_ex_iff)

lemma collides_mono: "collides P xs ys \<Longrightarrow> set xs \<subseteq> set xs' \<Longrightarrow> set ys \<subseteq> set ys' \<Longrightarrow> collides P xs' ys'"
  by (auto simp: collides_def list_ex_iff)

lemma node_in_block:
  assumes "length (block_txs blk) \<le> 2 ^ 31" "Suc h \<le> tree_height (length (block_txs blk)) 0"
    and "pos * 2 ^ Suc h < length (block_txs blk)"
  shows "node_preimage P (block_ids P blk) h pos \<in> set (block_preimages P C blk)"
proof -
  have "Suc h \<le> 31" using assms(2) tree_height_le [of 0 "length (block_txs blk)"] by simp
  then have "pos < calc_tree_width (length (block_txs blk)) (Suc h)"
    using calc_tree_width_less [OF assms(1), of "Suc h" pos] assms(3) by simp
  with assms(2) have "\<exists>i\<in>{0..<tree_height (length (block_txs blk)) 0}.
      node_preimage P (block_ids P blk) h pos
      \<in> node_preimage P (block_ids P blk) i ` {0..<calc_tree_width (length (block_txs blk)) (Suc i)}"
    by (intro bexI [of _ h]) simp_all
  then show ?thesis by (simp add: block_preimages_def)
qed

lemma calc_hash_node: "calc_hash P (Suc h) pos txids (length txids) = double_sha256 P (node_preimage P txids h pos)"
  by (simp add: node_preimage_def Let_def merge_merkle_node_def)

lemma hash_pair_inject: "hash_le a @ hash_le b = hash_le c @ hash_le d \<longleftrightarrow> a = c \<and> b = d"
  using append_eq_append_conv [of "hash_le a" "hash_le c" "hash_le b" "hash_le d"] hash_le_inject by auto

lemma take_hash_bad: "\<not> x_bad (snd (take_hash h m hs s)) \<Longrightarrow> \<not> x_bad s"
  by (auto simp: take_hash_def Let_def split: if_splits)

lemma traverse_and_extract_sound:
  fixes P :: "'a tx_api_scheme" and blk
  defines "txids \<equiv> block_ids P blk"
  assumes "length txids \<le> 2 ^ 31" "h \<le> tree_height (length txids) 0" "pos * 2 ^ h < length txids"
    and "traverse_and_extract P h pos (length txids) fs hs s = (calc_hash P h pos txids (length txids), s')"
    and "\<not> x_bad s'"
    and "\<not> collides P (extract_preimages P h pos (length txids) fs hs s) (block_preimages P C blk)"
  shows "\<not> x_bad s \<and> (\<exists>ms. x_match s' = x_match s @ ms \<and> subseq ms (map ((!) txids) (leaves h pos (length txids))))"
  using assms(3-7)
proof (induction h arbitrary: pos s s')
  case 0
  then show ?case by (auto simp: take_hash_def Let_def split: if_splits)
next
  case (Suc h)
  let ?n = "length txids" and ?Y = "block_preimages P C blk"
  let ?s0 = "s \<lparr> n_bits_used := n_bits_used s + 1 \<rparr>"
  obtain left s1 where l: "traverse_and_extract P h (pos * 2) ?n fs hs ?s0 = (left, s1)" by fastforce
  obtain right s2 where r: "traverse_and_extract P h (pos * 2 + 1) ?n fs hs s1 = (right, s2)" by fastforce
  have used: "n_bits_used s < length fs" using Suc.prems(3,4) by (auto split: if_splits)
  show ?case
  proof (cases "fs ! n_bits_used s")
    case False
    with used Suc.prems(3,4) show ?thesis by (auto simp: take_hash_def Let_def split: if_splits)
  next
    case True
    have width: "pos * 2 + 1 < calc_tree_width ?n h \<longleftrightarrow> (pos * 2 + 1) * 2 ^ h < ?n"
      using Suc.prems(1) tree_height_le [of 0 ?n] assms(2) by (intro calc_tree_width_less) simp_all
    show ?thesis
    proof (cases "pos * 2 + 1 < calc_tree_width ?n h")
      case right_child: True
      let ?x = "hash_le left @ hash_le right" and ?y = "node_preimage P txids h pos"
      let ?L = "extract_preimages P h (pos * 2) ?n fs hs ?s0" and ?R = "extract_preimages P h (pos * 2 + 1) ?n fs hs s1"
      have pre: "extract_preimages P (Suc h) pos ?n fs hs s = ?x # ?L @ ?R"
        using True used right_child l r by (simp add: not_le)
      from True used Suc.prems(3) right_child l r
      have eq: "double_sha256 P ?x = double_sha256 P ?y" and s': "s' = (if right = left then s2 \<lparr> x_bad := True \<rparr> else s2)"
        by (simp_all add: calc_hash_node del: calc_hash.simps add: merge_merkle_node_def)
      have "?y \<in> set ?Y" using node_in_block [of blk h pos P C] assms(2) Suc.prems(1,2) by (simp add: txids_def)
      moreover have "length ?x = length ?y" by (simp add: node_preimage_def Let_def)
      ultimately have "?x = ?y" using Suc.prems(5) eq collidesI [of ?x "?x # ?L @ ?R" ?y ?Y P] unfolding pre by auto
      then have "left = calc_hash P h (pos * 2) txids ?n" "right = calc_hash P h (pos * 2 + 1) txids ?n"
        using right_child by (simp_all add: node_preimage_def hash_pair_inject)
      moreover have "\<not> collides P ?L ?Y" "\<not> collides P ?R ?Y"
        using Suc.prems(5) collides_mono [of P _ ?Y "?x # ?L @ ?R" ?Y] unfolding pre by fastforce+
      moreover have "\<not> x_bad s2" "s' = s2" using s' Suc.prems(4) by (simp_all split: if_splits)
      moreover have "pos * 2 * 2 ^ h < ?n" "h \<le> tree_height ?n 0" using Suc.prems(1,2) by (simp_all add: mult.assoc)
      moreover note child = Suc.IH [of "pos * 2" ?s0 s1] Suc.IH [of "pos * 2 + 1" s1 s2]
      ultimately show ?thesis
        using l r width right_child by (fastforce simp: leaves_Suc intro: list_emb_append_mono)
    next
      case no_right: False
      with True used Suc.prems(3,4) l show ?thesis by (auto simp: Let_def)
    qed
  qed
qed

lemma extract_matches_sound:
  fixes P :: "'a tx_api_scheme" and blk
  defines "txids \<equiv> block_ids P blk"
  assumes "0 < length txids" "length txids \<le> 2 ^ 31" "n_transactions t = length txids"
    and "fst (extract_matches P t) = (block_root P txids, ms)"
    and "\<not> collides P (extract_preimages P (tree_height (length txids) 0) 0 (length txids) (v_bits t) (v_hash t)
        (start_extraction t)) (block_preimages P C blk)"
  shows "subseq ms txids"
proof (cases "ms = []")
  case False
  let ?n = "length txids"
  obtain root s where x: "traverse_and_extract P (tree_height ?n 0) 0 ?n (v_bits t) (v_hash t)
      (start_extraction t) = (root, s)" by fastforce
  have "root = block_root P txids" "\<not> x_bad s" "ms = x_match s"
    using False assms(2,4,5) x by (auto simp: extract_matches_def start_extraction_def split: if_splits)
  moreover have "block_root P txids = calc_hash P (tree_height ?n 0) 0 txids ?n"
    using block_root_calc_hash [of txids 0 P] assms(2,3) by simp
  moreover have "map ((!) txids) (leaves (tree_height ?n 0) 0 ?n) = txids"
    using leaves_top [OF tree_height_covers [OF assms(3)]] by (simp add: map_nth)
  moreover have "x_match (start_extraction t) = []" by (simp add: start_extraction_def)
  ultimately show ?thesis
    using traverse_and_extract_sound [where P = P and blk = blk and C = C, folded txids_def,
        OF assms(3) order.refl, of 0 "v_bits t" "v_hash t" "start_extraction t" s] x assms(2,6) by auto
qed simp

lemma verified_header:
  assumes "verifytxoutproof P C st proof_bytes expected = Ok ms" "ms \<noteq> []"
  obtains b blk hs where "deserialize_merkle_block C proof_bytes = Ok b"
    and "fst (extract_matches P (mb_txn b)) = (merkle_root (mb_header b), hs)" "ms = map hash_to_rpc_hex hs"
    and "get_block st (block_hash_from_header P C (mb_header b)) = Some blk"
    and "get_header st (block_hash_from_header P C (mb_header b)) \<noteq> None"
    and "length (block_txs blk) mod 2 ^ 32 = n_transactions (mb_txn b)"
    and "expected \<in> {None, Some (Ok (block_hash_from_header P C (mb_header b)))}"
proof -
  from assms obtain b where b: "deserialize_merkle_block C proof_bytes = Ok b"
    by (auto simp: verifytxoutproof_def split: if_splits sum.splits proof_failure.splits)
  let ?t = "mb_txn b" and ?h = "mb_header b"
  show ?thesis
  proof (rule that [OF b, of "snd (fst (extract_matches P ?t))" "the (get_block st (block_hash_from_header P C ?h))"])
  qed (use assms b in \<open>auto simp: verifytxoutproof_def Let_def case_prod_beta prod_eq_iff
      split: if_splits option.splits sum.splits\<close>)
qed

lemma parsed_header:
  assumes "deserialize_merkle_block C proof_bytes = Ok b"
  shows "deserialize_block_header C (take 80 proof_bytes) = Ok (mb_header b)"
  using assms by (auto simp: deserialize_merkle_block_def split: if_splits sum.splits)


section \<open>Example blocks\<close>

text \<open>
  Instances of the parameters: a header is its root and zeros, a size its eight bytes. In the second instance the
  hash of one pair is met by no other.
\<close>

definition demo_codec :: header_codec where
  "demo_codec =
     \<lparr> serialize_block_header = (\<lambda>h. hash_le (merkle_root h) @ replicate 48 0),
       deserialize_block_header =
         (\<lambda>bs. Ok \<lparr> hdr_version = 1, prev_block_hash = 0, merkle_root = hash_of_bytes (take 32 bs),
                    timestamp = 0, bits = 0, nonce = 0 \<rparr>),
       encode_varint = u64_le,
       decode_varint = (\<lambda>bs. if length bs < 8 then Err ''short'' else Ok (u64_of (take 8 bs), 8)) \<rparr>"

definition demo_block :: "hash \<Rightarrow> u64 list \<Rightarrow> block" where
  "demo_block root ids =
     \<lparr> blk_header = \<lparr> hdr_version = 1, prev_block_hash = 0, merkle_root = root, timestamp = 0, bits = 0, nonce = 0 \<rparr>,
       block_txs = map (\<lambda>i. \<lparr> version = 1, inputs = [], outputs = [], lock_time = i \<rparr>) ids \<rparr>"

definition demo_blocks :: "block \<Rightarrow> stored_blocks" where
  "demo_blocks blk =
     \<lparr> get_header = (\<lambda>h. if h = merkle_root (blk_header blk) then Some (blk_header blk) else None),
       get_block = (\<lambda>h. if h = merkle_root (blk_header blk) then Some blk else None) \<rparr>"

definition binding_sha :: "byte_string \<Rightarrow> byte_string" where
  "binding_sha bs =
     (if bs = hash_le 1 @ hash_le 2 then hash_le 3 else if length bs = 64 then hash_le 4 else take 32 bs)"

definition binding_demo :: protocol where
  "binding_demo = demo \<lparr> sha256 := binding_sha \<rparr>"

lemma demo_codec_laws: "compact_sizes demo_codec" "header_bytes demo_codec (blk_header (demo_block root ids))"
  by (simp_all add: compact_sizes_def header_bytes_def demo_codec_def demo_block_def)

lemma hash_le_neq [simp]: "length bs \<noteq> 32 \<Longrightarrow> hash_le h \<noteq> bs" "length bs \<noteq> 32 \<Longrightarrow> bs \<noteq> hash_le h"
  by (metis length_le(3))+

lemma demo_header_hash:
  "block_hash_from_header demo demo_codec header = merkle_root header"
  "block_hash_from_header binding_demo demo_codec header = merkle_root header"
  by (simp_all add: block_hash_from_header_def double_sha256_def demo_codec_def demo_def binding_demo_def binding_sha_def)

lemma demo_block_ids:
  "block_ids demo (demo_block root ids) = map ucast ids"
  "block_ids binding_demo (demo_block root ids) = map ucast ids"
  by (simp_all add: demo_block_def demo_def binding_demo_def)

lemma demo_merge:
  "merge_merkle_node demo l r = l"
  "merge_merkle_node binding_demo l r = (if l = 1 \<and> r = 2 then 3 else 4)"
  by (simp_all add: merge_merkle_node_def double_sha256_def demo_def binding_demo_def binding_sha_def)

lemma demo_stored:
  "stored_block demo demo_codec (demo_blocks (demo_block 1 [1, 2])) (demo_block 1 [1, 2])"
  "stored_block demo demo_codec (demo_blocks (demo_block 1 [1, 2, 3])) (demo_block 1 [1, 2, 3])"
  "stored_block binding_demo demo_codec (demo_blocks (demo_block 3 [1, 2])) (demo_block 3 [1, 2])"
  unfolding stored_block_def demo_header_hash demo_block_ids
  by (simp_all add: demo_blocks_def demo_block_def block_root.simps demo_merge)

lemma demo_gettxoutproof:
  "txids \<noteq> [] \<Longrightarrow> length (filter id (match_flags requested txids)) = length requested \<Longrightarrow>
   \<exists>bs. gettxoutproof P C header txids requested = Ok bs"
  by (simp add: gettxoutproof_def new_merkle_block_def new_pmt_def match_flags_def Let_def case_prod_beta)


section \<open>Properties\<close>

text \<open>
  C37. A merkle proof the node makes for requested transactions of a block it has stored is answered by its own
  verification with exactly those transactions, in block order, when wherever the proof descends both children of
  the node exist and differ, and with no transaction otherwise.
\<close>

theorem proof_roundtrip:
  assumes "compact_sizes C" "header_bytes C (blk_header blk)" "stored_block P C st blk"
    and "gettxoutproof P C (blk_header blk) (block_ids P blk) requested = Ok proof_bytes"
  shows "verifytxoutproof P C st proof_bytes None =
    Ok (if provable_block P (block_ids P blk) (match_flags requested (block_ids P blk))
        then filter (\<lambda>id. id \<in> set requested) (map hash_to_rpc_hex (block_ids P blk)) else [])"
  using assms by (rule own_proof_verifies)

theorem proof_roundtrip_witness:
  "\<exists>proof_bytes. gettxoutproof demo demo_codec (blk_header (demo_block 1 [1, 2])) [1, 2] [hash_to_rpc_hex 2] = Ok proof_bytes
     \<and> verifytxoutproof demo demo_codec (demo_blocks (demo_block 1 [1, 2])) proof_bytes None = Ok [hash_to_rpc_hex 2]"
proof -
  have ids: "block_ids demo (demo_block 1 [1, 2]) = [1, 2]" by (simp add: demo_block_ids)
  have flags: "match_flags [hash_to_rpc_hex 2] [1, 2] = [False, True]" by (simp add: match_flags_def)
  have "provable_block demo [1, 2] [False, True]"
    by (simp add: provable_block_def tree_height.simps calc_tree_width_def)
  moreover obtain bs where
    "gettxoutproof demo demo_codec (blk_header (demo_block 1 [1, 2])) [1, 2] [hash_to_rpc_hex 2] = Ok bs"
    using demo_gettxoutproof [of "[1, 2]" "[hash_to_rpc_hex 2]" demo] flags by fastforce
  ultimately show ?thesis
    using proof_roundtrip [OF demo_codec_laws demo_stored(1), of "[hash_to_rpc_hex 2]" bs] by (simp add: ids flags)
qed

text \<open>
  C38. In a block with an odd number of transactions, more than one, a proof that includes the last transaction never
  verifies: the extraction compares the missing right child, which stands for the left one, with it and takes the
  equality for the duplication attack, so \<^verbatim>\<open>verifytxoutproof\<close> answers an honest proof with the empty list.
\<close>

theorem odd_block_unverifiable:
  assumes "compact_sizes C" "header_bytes C (blk_header blk)" "stored_block P C st blk"
    and "odd (length (block_txs blk))" "1 < length (block_txs blk)"
    and "hash_to_rpc_hex (last (block_ids P blk)) \<in> set requested"
    and "gettxoutproof P C (blk_header blk) (block_ids P blk) requested = Ok proof_bytes"
  shows "verifytxoutproof P C st proof_bytes None = Ok []"
proof -
  let ?ids = "block_ids P blk"
  have "?ids \<noteq> []" using assms(5) by auto
  then have "match_flags requested ?ids ! (length ?ids - 1)"
    using assms(6) by (simp add: match_flags_def last_conv_nth)
  then have "\<not> provable_block P ?ids (match_flags requested ?ids)"
    using assms(3-5) by (intro odd_block_not_provable) (simp_all add: stored_block_def)
  with own_proof_verifies [OF assms(1-3) assms(7)] show ?thesis by simp
qed

theorem odd_block_unverifiable_witness:
  "\<exists>proof_bytes. gettxoutproof demo demo_codec (blk_header (demo_block 1 [1, 2, 3])) [1, 2, 3] [hash_to_rpc_hex 3] = Ok proof_bytes
     \<and> verifytxoutproof demo demo_codec (demo_blocks (demo_block 1 [1, 2, 3])) proof_bytes None = Ok []"
proof -
  have ids: "block_ids demo (demo_block 1 [1, 2, 3]) = [1, 2, 3]" by (simp add: demo_block_ids)
  have "match_flags [hash_to_rpc_hex 3] [1, 2, 3] = [False, False, True]" by (simp add: match_flags_def)
  then obtain bs where
    "gettxoutproof demo demo_codec (blk_header (demo_block 1 [1, 2, 3])) [1, 2, 3] [hash_to_rpc_hex 3] = Ok bs"
    using demo_gettxoutproof [of "[1, 2, 3]" "[hash_to_rpc_hex 3]" demo] by fastforce
  then show ?thesis
    using odd_block_unverifiable [OF demo_codec_laws demo_stored(2), of "[hash_to_rpc_hex 3]" bs]
    by (simp add: ids demo_block_def)
qed

text \<open>
  C11. Whatever bytes a caller submits, the transactions that \<^verbatim>\<open>verifytxoutproof\<close> confirms are transactions of one
  stored block, in its order, and that block is the expected one when a hash is given; or else the proof exhibits a
  collision of double SHA-256: a byte string the verification hashes and a different one of the same length behind the
  header or an inner node of a stored block have the same hash. The stored blocks are kept under the hash of their
  header, with the root of their transactions, and a header that was parsed is written as it was read.
\<close>

theorem verified_in_block:
  assumes "\<And>hash blk. get_block st hash = Some blk \<Longrightarrow> stored_block P C st blk \<and> header_bytes C (blk_header blk)
      \<and> hash = block_hash_from_header P C (blk_header blk)"
    and "\<And>bytes header. deserialize_block_header C bytes = Ok header \<Longrightarrow> header_bytes C header"
    and "verifytxoutproof P C st proof_bytes expected = Ok ms" "ms \<noteq> []"
  shows "\<exists>hash blk. get_header st hash \<noteq> None \<and> get_block st hash = Some blk \<and> expected \<in> {None, Some (Ok hash)}
    \<and> (subseq ms (map hash_to_rpc_hex (block_ids P blk))
       \<or> collides P (verifier_preimages P C proof_bytes) (block_preimages P C blk))"
proof -
  obtain b blk hs where b: "deserialize_merkle_block C proof_bytes = Ok b"
    and v: "fst (extract_matches P (mb_txn b)) = (merkle_root (mb_header b), hs)"
      "get_block st (block_hash_from_header P C (mb_header b)) = Some blk"
      "get_header st (block_hash_from_header P C (mb_header b)) \<noteq> None"
      "length (block_txs blk) mod 2 ^ 32 = n_transactions (mb_txn b)"
      "expected \<in> {None, Some (Ok (block_hash_from_header P C (mb_header b)))}"
    and ms: "ms = map hash_to_rpc_hex hs"
    by (rule verified_header [OF assms(3,4)]) (rule that)
  let ?x = "serialize_block_header C (mb_header b)" and ?y = "serialize_block_header C (blk_header blk)"
  let ?X = "verifier_preimages P C proof_bytes" and ?Y = "block_preimages P C blk"
  note stored = assms(1) [OF v(2)] and parsed = assms(2) [OF parsed_header [OF b]]
  have "subseq ms (map hash_to_rpc_hex (block_ids P blk))" if free: "\<not> collides P ?X ?Y"
  proof -
    have "?x \<in> set ?X" "?y \<in> set ?Y" by (simp_all add: verifier_preimages_def b Let_def block_preimages_def)
    moreover have "length ?x = length ?y" "double_sha256 P ?x = double_sha256 P ?y"
      using stored parsed by (simp_all add: header_bytes_def block_hash_from_header_def)
    ultimately have "?x = ?y" using free collidesI by blast
    then have "mb_header b = blk_header blk" using stored parsed unfolding header_bytes_def by (metis sum.inject(2))
    then have root: "merkle_root (mb_header b) = block_root P (block_ids P blk)"
      and n: "0 < length (block_ids P blk)" "length (block_ids P blk) \<le> 2 ^ 31"
        "n_transactions (mb_txn b) = length (block_ids P blk)"
      using stored v(4) by (auto simp: stored_block_def simp flip: length_greater_0_conv)
    have "\<not> collides P (extract_preimages P (tree_height (length (block_ids P blk)) 0) 0 (length (block_ids P blk))
        (v_bits (mb_txn b)) (v_hash (mb_txn b)) (start_extraction (mb_txn b))) ?Y"
      using free collides_mono [of P _ ?Y ?X ?Y] n(3) by (fastforce simp: verifier_preimages_def b Let_def)
    then have "subseq hs (block_ids P blk)"
      using n v(1) unfolding root by (intro extract_matches_sound [of P blk "mb_txn b"])
    then show ?thesis unfolding ms by (rule subseq_map)
  qed
  with v show ?thesis by blast
qed

lemma extract_preimages_pairs:
  "x \<in> set (extract_preimages P h pos n fs hs s) \<Longrightarrow> \<exists>l r. x = hash_le l @ hash_le r"
  by (induction h arbitrary: pos s) (auto simp: Let_def split: if_splits prod.splits)

lemma demo_no_collision:
  "\<not> collides binding_demo (verifier_preimages binding_demo demo_codec bs) (block_preimages binding_demo demo_codec (demo_block 3 [1, 2]))"
proof -
  let ?P = "binding_demo" and ?blk = "demo_block 3 [1, 2]"
  have "tree_height 2 0 = 1" "calc_tree_width 2 0 = 2" "calc_tree_width 2 1 = 1"
    by (simp_all add: tree_height.simps calc_tree_width_def)
  then have Y: "set (block_preimages ?P demo_codec ?blk) = {serialize_block_header demo_codec (blk_header ?blk), hash_le 1 @ hash_le 2}"
    by (simp add: block_preimages_def node_preimage_def demo_block_ids Let_def)
      (simp add: demo_block_def numeral_2_eq_2)
  have X: "(\<exists>header. x = serialize_block_header demo_codec header) \<or> (\<exists>l r. x = hash_le l @ hash_le r)"
    if "x \<in> set (verifier_preimages ?P demo_codec bs)" for x
    using that by (auto simp: verifier_preimages_def Let_def split: sum.splits dest: extract_preimages_pairs)
  have header: "double_sha256 ?P (hash_le root @ replicate 48 0) = root" for root
    by (simp add: double_sha256_def binding_demo_def binding_sha_def)
  have "x = y" if x: "x \<in> set (verifier_preimages ?P demo_codec bs)" and y: "y \<in> set (block_preimages ?P demo_codec ?blk)"
    and "length x = length y" "double_sha256 ?P x = double_sha256 ?P y" for x y
    using X [OF x] y that(3,4) demo_merge(2) header unfolding Y
    by (auto simp: merge_merkle_node_def demo_codec_def demo_block_def split: if_splits)
  then show ?thesis by (auto simp: collides_def list_ex_iff)
qed

theorem verified_in_block_witness:
  "\<exists>proof_bytes. verifytxoutproof binding_demo demo_codec (demo_blocks (demo_block 3 [1, 2]))
       proof_bytes None = Ok [hash_to_rpc_hex 2]
     \<and> (\<exists>hash blk. get_block (demo_blocks (demo_block 3 [1, 2])) hash = Some blk
          \<and> subseq [hash_to_rpc_hex 2] (map hash_to_rpc_hex (block_ids binding_demo blk)))"
proof -
  let ?P = "binding_demo" and ?blk = "demo_block 3 [1, 2]"
  have ids: "block_ids ?P ?blk = [1, 2]" by (simp add: demo_block_ids)
  have flags: "match_flags [hash_to_rpc_hex 2] [1, 2] = [False, True]" by (simp add: match_flags_def)
  have "provable_block ?P [1, 2] [False, True]"
    by (simp add: provable_block_def tree_height.simps calc_tree_width_def)
  moreover obtain bs where "gettxoutproof ?P demo_codec (blk_header ?blk) [1, 2] [hash_to_rpc_hex 2] = Ok bs"
    using demo_gettxoutproof [of "[1, 2]" "[hash_to_rpc_hex 2]" ?P] flags by fastforce
  ultimately have verified: "verifytxoutproof ?P demo_codec (demo_blocks ?blk) bs None = Ok [hash_to_rpc_hex 2]"
    using own_proof_verifies [OF demo_codec_laws demo_stored(3), of "[hash_to_rpc_hex 2]" bs] by (simp add: ids flags)
  have only: "blk = ?blk \<and> hash = 3" if "get_block (demo_blocks ?blk) hash = Some blk" for hash blk
    using that by (auto simp: demo_blocks_def demo_block_def split: if_splits)
  have stored: "stored_block ?P demo_codec (demo_blocks ?blk) blk \<and> header_bytes demo_codec (blk_header blk)
      \<and> hash = block_hash_from_header ?P demo_codec (blk_header blk)"
    if "get_block (demo_blocks ?blk) hash = Some blk" for hash blk
    using only [OF that] demo_stored(3) demo_codec_laws(2) [of 3 "[1, 2]"] by (simp add: demo_header_hash) (simp add: demo_block_def)
  have parsed: "header_bytes demo_codec header" if "deserialize_block_header demo_codec bytes = Ok header" for bytes header
    using that by (auto simp: header_bytes_def demo_codec_def)
  have "\<exists>hash blk. get_header (demo_blocks ?blk) hash \<noteq> None \<and> get_block (demo_blocks ?blk) hash = Some blk
      \<and> (None :: (hash, string) result option) \<in> {None, Some (Ok hash)}
      \<and> (subseq [hash_to_rpc_hex 2] (map hash_to_rpc_hex (block_ids ?P blk))
         \<or> collides ?P (verifier_preimages ?P demo_codec bs) (block_preimages ?P demo_codec blk))"
    by (rule verified_in_block [OF _ _ verified]) (use stored parsed in \<open>blast | simp\<close>)+
  then obtain hash blk where found: "get_block (demo_blocks ?blk) hash = Some blk"
    "subseq [hash_to_rpc_hex 2] (map hash_to_rpc_hex (block_ids ?P blk))
     \<or> collides ?P (verifier_preimages ?P demo_codec bs) (block_preimages ?P demo_codec blk)"
    by (elim exE conjE) (rule that)
  with only [OF found(1)] demo_no_collision [of bs] verified show ?thesis by blast
qed

text \<open>
  A proof of about a hundred bytes stops the node: with a hash count of \<^term>\<open>2 ^ 59 :: nat\<close> the length of the
  hash list wraps to zero, the truncation check passes, and the allocation of the list panics.
\<close>

lemma huge_hash_count_aborts:
  assumes "compact_sizes C" "length hdr = 80" "deserialize_block_header C hdr = Ok header" "length nt = 4"
  shows "verifytxoutproof P C st (hdr @ nt @ encode_varint C (2 ^ 59)) expected = Err Aborted"
proof -
  have v: "decode_varint C (encode_varint C (2 ^ 59)) = Ok (2 ^ 59, length (encode_varint C (2 ^ 59)))"
    "length (encode_varint C (2 ^ 59)) \<le> 9"
    using assms(1) append_Nil2 [of "encode_varint C (2 ^ 59)"] unfolding compact_sizes_def by metis+
  have u: "unat (2 ^ 59 :: u64) = 2 ^ 59" by simp
  have w: "(2 :: nat) ^ 63 \<le> 2 ^ 59 * 32" "usize (2 ^ 59 * 32) = 0"
    "usize (4 + length (encode_varint C (2 ^ 59))) = 4 + length (encode_varint C (2 ^ 59))"
    using v(2) by simp_all
  have "deserialize_pmt (decode_varint C) (nt @ encode_varint C (2 ^ 59)) = Err Panicked"
    using assms(4) unfolding deserialize_pmt_def by (simp add: v(1) u w Let_def del: power_numeral)
  moreover have "hdr @ nt @ encode_varint C (2 ^ 59) \<noteq> []" using assms(2) by auto
  ultimately show ?thesis
    using assms(2,3) by (simp add: verifytxoutproof_def deserialize_merkle_block_def)
qed

lemma huge_hash_count_aborts_witness:
  "verifytxoutproof demo demo_codec (demo_blocks (demo_block 1 [1]))
     (replicate 80 0 @ replicate 4 0 @ encode_varint demo_codec (2 ^ 59)) None = Err Aborted"
  by (rule huge_hash_count_aborts [OF demo_codec_laws(1)]) (simp_all add: demo_codec_def)

end
