(* ===== verification/Compact_Blocks.thy ===== *)
theory Compact_Blocks
  imports Mempool_Admit Merkle_Block
begin

text \<open>
  Compact block relay, \<^verbatim>\<open>network/compact_blocks.rs\<close> and the handlers of \<^verbatim>\<open>network/wire_dispatch.rs\<close>: the compact
  form of a block, its reconstruction from the transactions of the pool, the request for the missing ones and the
  table of the assemblies in flight. SipHash-2-4 and the size of a slot in memory are parameters.
\<close>


section \<open>Definitions\<close>

type_synonym short_id = "48 word"
type_synonym slot = "transaction \<times> witness list option"

record compact_api = header_codec +
  siphash24 :: "u64 \<Rightarrow> u64 \<Rightarrow> byte_string \<Rightarrow> u64"
  slot_size :: nat

record compact_block =
  cb_header :: block_header
  cb_nonce :: u64
  short_ids :: "short_id list"
  prefilled_txs :: "(nat \<times> transaction \<times> witness list option) list"

definition MAX_COMPACT_BLOCK_TXS :: nat where "MAX_COMPACT_BLOCK_TXS = 100000"
definition MAX_COMPACT_MISSING :: nat where "MAX_COMPACT_MISSING = 128"
definition MAX_PENDING_COMPACT :: nat where "MAX_PENDING_COMPACT = 4"
definition MAX_PENDING_COMPACT_BYTES :: nat where "MAX_PENDING_COMPACT_BYTES = 8 * 1024 * 1024"
definition COMPACT_ASSEMBLY_DEADLINE :: nat where "COMPACT_ASSEMBLY_DEADLINE = 60 * 10 ^ 9"

definition short_id_keys :: "'a tx_api_scheme \<Rightarrow> 'c compact_api_scheme \<Rightarrow> block_header \<Rightarrow> u64 \<Rightarrow> u64 \<times> u64" where
  "short_id_keys P C header salt =
     (let h = sha256 P (serialize_block_header C header @ u64_le salt)
      in (u64_of (slice h 0 8), u64_of (slice h 8 16)))"

text \<open>The first six little-endian bytes of the 64-bit hash are its lowest 48 bits.\<close>

definition calculate_short_tx_id ::
  "'a tx_api_scheme \<Rightarrow> 'c compact_api_scheme \<Rightarrow> block_header \<Rightarrow> hash \<Rightarrow> u64 \<Rightarrow> short_id" where
  "calculate_short_tx_id P C header wtxid salt =
     (case short_id_keys P C header salt of (k0, k1) \<Rightarrow> ucast (siphash24 C k0 k1 (hash_le wtxid)))"

text \<open>\<^verbatim>\<open>while prefilled.contains(&next_block_index) { next_block_index += 1 }\<close>\<close>

function next_free :: "nat list \<Rightarrow> nat \<Rightarrow> nat" where
  "next_free prefilled i = (if i \<in> set prefilled then next_free prefilled (i + 1) else i)"
  by pat_completeness auto
termination
proof (relation "measure (\<lambda>(prefilled, i). card {j \<in> set prefilled. i \<le> j})")
  fix prefilled and i :: nat
  assume "i \<in> set prefilled"
  then have "card ({j \<in> set prefilled. i \<le> j} - {i}) < card {j \<in> set prefilled. i \<le> j}"
    by (intro card_Diff1_less) simp_all
  moreover have "{j \<in> set prefilled. i + 1 \<le> j} = {j \<in> set prefilled. i \<le> j} - {i}" by (rule set_eqI) auto
  ultimately show "((prefilled, i + 1), prefilled, i) \<in> measure (\<lambda>(prefilled, i). card {j \<in> set prefilled. i \<le> j})"
    by simp
qed simp

declare next_free.simps [simp del]

definition conflicts_with_tx :: "transaction \<Rightarrow> transaction \<Rightarrow> bool" where
  "conflicts_with_tx tx1 tx2 =
     list_ex (\<lambda>input1. list_ex (\<lambda>input2. prevout input1 = prevout input2) (inputs tx2)) (inputs tx1)"

text \<open>The pool transactions by short id: all of them for the matching, the first of them for the filling.\<close>

definition by_short ::
  "'a tx_api_scheme \<Rightarrow> 'c compact_api_scheme \<Rightarrow> compact_block \<Rightarrow> (hash, transaction) hmap \<Rightarrow> (short_id, transaction list) hmap"
where
  "by_short P C cb txs =
     foldl (\<lambda>m (tx_hash, tx).
         let sid = calculate_short_tx_id P C (cb_header cb) tx_hash (cb_nonce cb)
         in hm_insert sid (hm_get_or m sid [] @ [tx]) m)
       [] txs"

definition first_by_short ::
  "'a tx_api_scheme \<Rightarrow> 'c compact_api_scheme \<Rightarrow> compact_block \<Rightarrow> (hash, slot) hmap \<Rightarrow> (short_id, slot) hmap" where
  "first_by_short P C cb pool =
     foldl (\<lambda>m (tx_hash, pair).
         let sid = calculate_short_tx_id P C (cb_header cb) tx_hash (cb_nonce cb)
         in if hm_get m sid = None then hm_insert sid pair m else m)
       [] pool"

fun reconstruct_loop ::
  "(short_id, transaction list) hmap \<Rightarrow> compact_block \<Rightarrow> short_id list \<Rightarrow> nat \<Rightarrow> transaction list \<Rightarrow> nat list" where
  "reconstruct_loop table cb [] next_index placed = []"
| "reconstruct_loop table cb (sid # ids) next_index placed =
     (let block_index = next_free (map fst (prefilled_txs cb)) next_index in
      case hm_get_or table sid [] of
        [tx] \<Rightarrow>
          if list_ex (conflicts_with_tx tx) placed
             \<or> list_ex (\<lambda>(_, existing, _). conflicts_with_tx tx existing) (prefilled_txs cb)
          then block_index # reconstruct_loop table cb ids (block_index + 1) placed
          else reconstruct_loop table cb ids (block_index + 1) (placed @ [tx])
      | _ \<Rightarrow> block_index # reconstruct_loop table cb ids (block_index + 1) placed)"

definition reconstruct_block ::
  "'a tx_api_scheme \<Rightarrow> 'c compact_api_scheme \<Rightarrow> compact_block \<Rightarrow> (hash, transaction) hmap \<Rightarrow> nat list" where
  "reconstruct_block P C cb txs = reconstruct_loop (by_short P C cb txs) cb (short_ids cb) 0 []"

record compact_assembly =
  ca_header :: block_header
  ca_nonce :: u64
  slots :: "slot option list"
  missing :: "nat list"
  started :: nat
  short_id_bytes :: nat

definition expired_at :: "compact_assembly \<Rightarrow> nat \<Rightarrow> bool" where
  "expired_at a now = (now - started a \<ge> COMPACT_ASSEMBLY_DEADLINE)"

abbreviation sat_usize :: "nat \<Rightarrow> nat" where "sat_usize k \<equiv> min k (2 ^ 64 - 1)"

definition serialized_slot_bytes :: "'a tx_api_scheme \<Rightarrow> slot \<Rightarrow> nat" where
  "serialized_slot_bytes P pair =
     (case pair of (tx, wits) \<Rightarrow>
        sat_usize (length (serialize_transaction P tx)
          + (case wits of Some stacks \<Rightarrow> sum_list (map (\<lambda>stack. sum_list (map length stack)) stacks) | None \<Rightarrow> 0)))"

text \<open>The vector of the slots is allocated at its length, so its capacity is its length.\<close>

definition assembly_retained_bytes :: "'a tx_api_scheme \<Rightarrow> 'c compact_api_scheme \<Rightarrow> compact_assembly \<Rightarrow> nat" where
  "assembly_retained_bytes P C a =
     sat_usize (sat_usize (sum_list (map (\<lambda>slot. case slot of Some pair \<Rightarrow> serialized_slot_bytes P pair | None \<Rightarrow> 0) (slots a))
         + sat_usize (length (slots a) * slot_size C))
       + short_id_bytes a)"

fun place_prefilled ::
  "nat \<Rightarrow> (nat \<times> transaction \<times> witness list option) list \<Rightarrow> slot option list \<Rightarrow> (slot option list, string) result" where
  "place_prefilled n [] ss = Ok ss"
| "place_prefilled n ((i, pair) # rest) ss =
     (if i \<ge> n then Err ''prefilled compact-block index is past the block''
      else place_prefilled n rest (ss[i := Some pair]))"

fun fill_slots ::
  "(short_id, slot) hmap \<Rightarrow> nat list \<Rightarrow> nat list \<Rightarrow> short_id list \<Rightarrow> nat \<Rightarrow> slot option list \<Rightarrow> slot option list" where
  "fill_slots table prefilled holes [] next_index ss = ss"
| "fill_slots table prefilled holes (sid # ids) next_index ss =
     (let block_index = next_free prefilled next_index;
          ss1 = (if block_index \<in> set holes then ss
                 else case hm_get table sid of
                   None \<Rightarrow> ss
                 | Some pair \<Rightarrow> if block_index < length ss then ss[block_index := Some pair] else ss)
      in fill_slots table prefilled holes ids (block_index + 1) ss1)"

definition begin_compact_assembly ::
  "'a tx_api_scheme \<Rightarrow> 'c compact_api_scheme \<Rightarrow> nat \<Rightarrow> compact_block \<Rightarrow> (hash, slot) hmap \<Rightarrow> (compact_assembly, string) result"
where
  "begin_compact_assembly P C now cb pool =
     (let holes = reconstruct_block P C cb (map (\<lambda>(h, tx, _). (h, tx)) pool);
          n = length (short_ids cb) + length (prefilled_txs cb)
      in case place_prefilled n (prefilled_txs cb) (replicate n None) of
           Err e \<Rightarrow> Err e
         | Ok ss \<Rightarrow>
             Ok \<lparr> ca_header = cb_header cb, ca_nonce = cb_nonce cb,
                  slots = fill_slots (first_by_short P C cb pool) (map fst (prefilled_txs cb)) holes (short_ids cb) 0 ss,
                  missing = holes, started = now, short_id_bytes = sat_usize (6 * length (short_ids cb)) \<rparr>)"

record compact_budget =
  assemblies :: nat
  retained_bytes :: nat
  same_hash :: bool

datatype compact_decision = Hold compact_assembly | FullBlock | KeepCurrent

definition decide_compact_block ::
  "'a tx_api_scheme \<Rightarrow> 'c compact_api_scheme \<Rightarrow> nat \<Rightarrow> compact_block \<Rightarrow> (hash, slot) hmap \<Rightarrow> compact_budget
    \<Rightarrow> (compact_decision, string) result" where
  "decide_compact_block P C now cb pool budget =
     (if length (short_ids cb) + length (prefilled_txs cb) > MAX_COMPACT_BLOCK_TXS then Ok FullBlock
      else case begin_compact_assembly P C now cb pool of
        Err e \<Rightarrow> Err e
      | Ok a \<Rightarrow>
          if length (missing a) > MAX_COMPACT_MISSING \<or> list_ex (\<lambda>i. i \<ge> 2 ^ 16) (missing a) then Ok FullBlock
          else if assemblies budget + (if same_hash budget then 0 else 1) > MAX_PENDING_COMPACT then Ok FullBlock
          else if sat_usize (retained_bytes budget + assembly_retained_bytes P C a) > MAX_PENDING_COMPACT_BYTES
          then (if same_hash budget then Ok KeepCurrent else Ok FullBlock)
          else Ok (Hold a))"

fun fill_missing ::
  "nat list \<Rightarrow> transaction list \<Rightarrow> nat \<Rightarrow> witness list list option \<Rightarrow> slot option list \<Rightarrow> (slot option list, string) result" where
  "fill_missing (i # holes) (tx # txs) k wits ss =
     (if i \<ge> length ss then Err ''blocktxn index is past the compact block''
      else fill_missing holes txs (k + 1) wits (ss[i := Some (tx, Option.bind wits (\<lambda>all. list_get all k))]))"
| "fill_missing holes txs k wits ss = Ok ss"

definition apply_blocktxn ::
  "compact_assembly \<Rightarrow> transaction list \<Rightarrow> witness list list option \<Rightarrow> (compact_assembly, string) result" where
  "apply_blocktxn a txs wits =
     (if length txs \<noteq> length (missing a) then Err ''blocktxn count does not match the missing positions''
      else case fill_missing (missing a) txs 0 wits (slots a) of
        Err e \<Rightarrow> Err e
      | Ok ss \<Rightarrow> Ok (a \<lparr> slots := ss, missing := [] \<rparr>))"

fun collect_slots :: "slot option list \<Rightarrow> (transaction list \<times> witness list list, string) result" where
  "collect_slots [] = Ok ([], [])"
| "collect_slots (None # ss) = Err ''compact block position is still missing''"
| "collect_slots (Some (tx, wits) # ss) =
     (case collect_slots ss of
        Err e \<Rightarrow> Err e
      | Ok (txs, ws) \<Rightarrow>
          Ok (tx # txs, (case wits of Some stacks \<Rightarrow> stacks | None \<Rightarrow> map (\<lambda>_. []) (inputs tx)) # ws))"

definition completed_compact_block :: "compact_assembly \<Rightarrow> (block \<times> witness list list, string) result" where
  "completed_compact_block a =
     (case collect_slots (slots a) of
        Err e \<Rightarrow> Err e
      | Ok (txs, ws) \<Rightarrow> Ok (\<lparr> blk_header = ca_header a, block_txs = txs \<rparr>, ws))"

definition prefilled_witness :: "witness list option list \<Rightarrow> nat \<Rightarrow> witness list option" where
  "prefilled_witness wits i =
     (case Option.bind (list_get wits i) id of
        None \<Rightarrow> None
      | Some stacks \<Rightarrow> if list_ex (\<lambda>stack. stack \<noteq> []) stacks then Some stacks else None)"

definition create_compact_block_with_witnesses ::
  "'a tx_api_scheme \<Rightarrow> 'c compact_api_scheme \<Rightarrow> block \<Rightarrow> u64 \<Rightarrow> nat hset \<Rightarrow> witness list option list \<Rightarrow> compact_block" where
  "create_compact_block_with_witnesses P C blk salt prefilled wits =
     (let indexed = enumerate 0 (block_txs blk) in
      \<lparr> cb_header = blk_header blk, cb_nonce = salt,
        short_ids =
          map (\<lambda>(i, tx). calculate_short_tx_id P C (blk_header blk)
                 (calculate_wtxid P tx (Option.bind (list_get wits i) id)) salt)
            (filter (\<lambda>(i, _). i \<notin> set prefilled) indexed),
        prefilled_txs =
          map (\<lambda>(i, tx). (i, tx, prefilled_witness wits i)) (filter (\<lambda>(i, _). i \<in> set prefilled) indexed) \<rparr>)"

definition create_compact_block ::
  "'a tx_api_scheme \<Rightarrow> 'c compact_api_scheme \<Rightarrow> block \<Rightarrow> u64 \<Rightarrow> nat hset \<Rightarrow> compact_block" where
  "create_compact_block P C blk salt prefilled = create_compact_block_with_witnesses P C blk salt prefilled []"


text \<open>\<^verbatim>\<open>transactions_for_short_ids\<close> of the pool.\<close>

definition pool_wtxid :: "'a tx_api_scheme \<Rightarrow> 'm mempool_pool_scheme \<Rightarrow> hash \<Rightarrow> transaction \<Rightarrow> hash" where
  "pool_wtxid P m txid tx =
     (case hm_get (wtxids m) txid of
        Some w \<Rightarrow> w
      | None \<Rightarrow> calculate_wtxid P tx (hm_get (tx_witnesses m) txid))"

definition transactions_for_short_ids ::
  "'a tx_api_scheme \<Rightarrow> 'c compact_api_scheme \<Rightarrow> 'm mempool_pool_scheme \<Rightarrow> block_header \<Rightarrow> u64 \<Rightarrow> short_id list
    \<Rightarrow> (hash, slot) hmap" where
  "transactions_for_short_ids P C m header salt ids =
     foldl (\<lambda>matched (txid, tx).
         let w = pool_wtxid P m txid tx in
         if calculate_short_tx_id P C header w salt \<in> set ids
         then hm_insert w (tx, hm_get (tx_witnesses m) txid) matched else matched)
       [] (transactions m)"

text \<open>The handlers: the table of pending assemblies and the blocks queued for processing.\<close>

record compact_node =
  pending_compact :: "(hash, compact_assembly) hmap"
  queued_blocks :: "(block \<times> witness list list) list"

datatype staged_compact =
  Fetch "hash list"
| Complete compact_assembly "hash list"
| Holes "nat list" "hash list"

datatype compact_request = GetData hash | GetBlockTxn hash "nat list"

definition wire_block_hash :: "'a tx_api_scheme \<Rightarrow> block_header \<Rightarrow> hash" where
  "wire_block_hash P header =
     double_sha256 P (le_bytes 4 (nat (hdr_version header mod 2 ^ 32)) @ hash_le (prev_block_hash header)
       @ hash_le (merkle_root header) @ le_bytes 4 (unat (timestamp header) mod 2 ^ 32)
       @ le_bytes 4 (unat (bits header) mod 2 ^ 32) @ le_bytes 4 (unat (nonce header) mod 2 ^ 32))"

definition keep_started :: "(hash, compact_assembly) hmap \<Rightarrow> hash \<Rightarrow> compact_assembly \<Rightarrow> compact_assembly" where
  "keep_started pending h a =
     (case hm_get pending h of Some previous \<Rightarrow> a \<lparr> started := started previous \<rparr> | None \<Rightarrow> a)"

definition stage_compact_block ::
  "'a tx_api_scheme \<Rightarrow> 'c compact_api_scheme \<Rightarrow> nat \<Rightarrow> hash \<Rightarrow> compact_block \<Rightarrow> (hash, slot) hmap
    \<Rightarrow> (hash, compact_assembly) hmap \<Rightarrow> (staged_compact, string) result \<times> (hash, compact_assembly) hmap" where
  "stage_compact_block P C now block_hash cb pool table =
     (let expired = map fst (filter (\<lambda>(_, a). expired_at a now) table);
          pending = filter (\<lambda>(_, a). \<not> expired_at a now) table;
          same = hm_contains pending block_hash;
          budget = \<lparr> assemblies = length pending - (if same then 1 else 0),
                     retained_bytes = sum_list (map (\<lambda>(_, a). assembly_retained_bytes P C a)
                       (filter (\<lambda>(h, _). h \<noteq> block_hash) pending)),
                     same_hash = same \<rparr>
      in case decide_compact_block P C now cb pool budget of
           Err e \<Rightarrow> (Err e, pending)
         | Ok FullBlock \<Rightarrow> (Ok (Fetch (expired @ [block_hash])), pending)
         | Ok KeepCurrent \<Rightarrow> (Ok (Fetch expired), pending)
         | Ok (Hold a) \<Rightarrow>
             let a1 = keep_started pending block_hash a in
             if missing a1 = [] then (Ok (Complete a1 expired), pending)
             else (Ok (Holes (missing a1) expired), hm_insert block_hash a1 pending))"

definition queue_completed_compact :: "compact_assembly \<Rightarrow> compact_node \<Rightarrow> (unit, string) result \<times> compact_node" where
  "queue_completed_compact a node =
     (case completed_compact_block a of
        Err e \<Rightarrow> (Err e, node)
      | Ok blk \<Rightarrow> (Ok (), node \<lparr> queued_blocks := queued_blocks node @ [blk] \<rparr>))"

text \<open>The result, the requests sent to the peer in order, and the node.\<close>

definition handle_cmpctblock ::
  "'a tx_api_scheme \<Rightarrow> 'c compact_api_scheme \<Rightarrow> nat \<Rightarrow> 'm mempool_pool_scheme \<Rightarrow> compact_block \<Rightarrow> compact_node
    \<Rightarrow> (unit, string) result \<times> compact_request list \<times> compact_node" where
  "handle_cmpctblock P C now m cb node =
     (let block_hash = wire_block_hash P (cb_header cb) in
      if length (short_ids cb) + length (prefilled_txs cb) > MAX_COMPACT_BLOCK_TXS
      then (Ok (), [GetData block_hash], node)
      else
        let pool = transactions_for_short_ids P C m (cb_header cb) (cb_nonce cb) (short_ids cb);
            (staged, table) = stage_compact_block P C now block_hash cb pool (pending_compact node);
            node1 = node \<lparr> pending_compact := table \<rparr>
        in case staged of
             Err e \<Rightarrow> (Err e, [], node1)
           | Ok (Fetch hashes) \<Rightarrow> (Ok (), map GetData hashes, node1)
           | Ok (Complete a expired) \<Rightarrow>
               (case queue_completed_compact a node1 of (r, node2) \<Rightarrow> (r, map GetData expired, node2))
           | Ok (Holes indices expired) \<Rightarrow>
               (Ok (), map GetData expired @ [GetBlockTxn block_hash indices], node1))"

definition handle_blocktxn_fill ::
  "hash \<Rightarrow> transaction list \<Rightarrow> witness list list option \<Rightarrow> compact_node \<Rightarrow> (unit, string) result \<times> compact_node" where
  "handle_blocktxn_fill block_hash txs wits node =
     (case hm_get (pending_compact node) block_hash of
        None \<Rightarrow> (Ok (), node)
      | Some a \<Rightarrow>
          let node1 = node \<lparr> pending_compact := hm_remove block_hash (pending_compact node) \<rparr> in
          case apply_blocktxn a txs wits of
            Err e \<Rightarrow> (Err e, node1)
          | Ok a1 \<Rightarrow> queue_completed_compact a1 node1)"

text \<open>The answer of a peer that has the block, with the witnesses it stored with it.\<close>

definition handle_getblocktxn ::
  "block option \<Rightarrow> witness list list option \<Rightarrow> nat list
    \<Rightarrow> ((transaction list \<times> witness list list option) option, string) result" where
  "handle_getblocktxn stored wits indices =
     (case stored of
        None \<Rightarrow> Ok None
      | Some blk \<Rightarrow>
          if list_ex (\<lambda>i. i \<ge> length (block_txs blk)) indices then Err ''getblocktxn index past end of block''
          else Ok (Some (map (\<lambda>i. block_txs blk ! i) indices,
                         map_option (\<lambda>all. map (\<lambda>i. case list_get all i of Some w \<Rightarrow> w | None \<Rightarrow> []) indices) wits)))"


text \<open>The transaction hash with its own serialisation, and the choice of the transport.\<close>

definition tx_varint :: "u64 \<Rightarrow> byte_string" where
  "tx_varint n =
     (if n < 0xfd then [ucast n]
      else if n \<le> 0xffff then 0xfd # le_bytes 2 (unat n)
      else if n \<le> 0xffffffff then 0xfe # le_bytes 4 (unat n)
      else 0xff # le_bytes 8 (unat n))"

definition calculate_tx_hash :: "'a tx_api_scheme \<Rightarrow> transaction \<Rightarrow> hash" where
  "calculate_tx_hash P tx =
     double_sha256 P
       (le_bytes 4 (unat (version tx) mod 2 ^ 32) @ tx_varint (of_nat (length (inputs tx)))
        @ concat (map (\<lambda>inp. hash_le (op_hash (prevout inp)) @ le_bytes 4 (unat (op_index (prevout inp)))
            @ tx_varint (of_nat (length (script_sig inp))) @ script_sig inp
            @ le_bytes 4 (unat (sequence inp) mod 2 ^ 32)) (inputs tx))
        @ tx_varint (of_nat (length (outputs tx)))
        @ concat (map (\<lambda>out. i64_le (out_value out) @ tx_varint (of_nat (length (script_pubkey out))) @ script_pubkey out)
            (outputs tx))
        @ le_bytes 4 (unat (lock_time tx) mod 2 ^ 32))"

datatype transport_type = Tcp | Quinn | Iroh

fun should_prefer_compact_blocks :: "transport_type \<Rightarrow> bool" where
  "should_prefer_compact_blocks Quinn = True"
| "should_prefer_compact_blocks Iroh = True"
| "should_prefer_compact_blocks Tcp = False"

fun recommended_compact_block_version :: "transport_type \<Rightarrow> u64" where
  "recommended_compact_block_version Tcp = 1"
| "recommended_compact_block_version Quinn = 2"
| "recommended_compact_block_version Iroh = 2"

definition negotiate_optimizations :: "u64 \<Rightarrow> transport_type \<Rightarrow> u64 \<Rightarrow> u64 \<times> bool \<times> bool" where
  "negotiate_optimizations NODE_COMPACT_FILTERS transport services =
     (recommended_compact_block_version transport, should_prefer_compact_blocks transport,
      services AND NODE_COMPACT_FILTERS \<noteq> 0)"

definition create_optimized_sendcmpct :: "u64 \<Rightarrow> transport_type \<Rightarrow> u64 \<Rightarrow> u64 \<times> u8" where
  "create_optimized_sendcmpct NODE_COMPACT_FILTERS transport services =
     (case negotiate_optimizations NODE_COMPACT_FILTERS transport services of
        (ver, prefer_cmpct, _) \<Rightarrow> (ver, if prefer_cmpct then 1 else 0))"

fun is_quic_transport :: "transport_type \<Rightarrow> bool" where
  "is_quic_transport Quinn = True"
| "is_quic_transport Iroh = True"
| "is_quic_transport Tcp = False"


section \<open>Positions\<close>

text \<open>The block positions of the short ids: the positions not prefilled, in order.\<close>

fun positions :: "nat list \<Rightarrow> nat \<Rightarrow> nat \<Rightarrow> nat list" where
  "positions prefilled 0 i = []"
| "positions prefilled (Suc k) i =
     (let j = next_free prefilled i in j # positions prefilled k (j + 1))"

lemma next_free_ge: "i \<le> next_free prefilled i"
proof (induction prefilled i rule: next_free.induct)
  case (1 prefilled i)
  then show ?case by (subst next_free.simps) auto
qed

lemma positions_ge: "j \<in> set (positions prefilled k i) \<Longrightarrow> i \<le> j"
proof (induction k arbitrary: i)
  case (Suc k)
  then show ?case using next_free_ge [of i prefilled] by (fastforce simp: Let_def)
qed simp

lemma distinct_positions: "distinct (positions prefilled k i)"
proof (induction k arbitrary: i)
  case (Suc k)
  then show ?case using positions_ge by (fastforce simp: Let_def)
qed simp

lemma length_positions [simp]: "length (positions prefilled k i) = k"
  by (induction k arbitrary: i) (simp_all add: Let_def)

lemma positions_skip: "i \<in> set prefilled \<Longrightarrow> positions prefilled k i = positions prefilled k (i + 1)"
  by (cases k) (simp_all add: next_free.simps [of prefilled i])

lemma positions_filter:
  "length (filter (\<lambda>j. j \<notin> set prefilled) [i..<m]) = k \<Longrightarrow>
   positions prefilled k i = filter (\<lambda>j. j \<notin> set prefilled) [i..<m]"
proof (induction "m - i" arbitrary: i k)
  case 0
  then show ?case by simp
next
  case (Suc d)
  then have upt: "[i..<m] = i # [i + 1..<m]" by (simp add: upt_conv_Cons)
  show ?case
  proof (cases "i \<in> set prefilled")
    case True
    with Suc upt show ?thesis by (simp add: positions_skip)
  next
    case False
    with Suc.prems upt obtain k' where k: "k = Suc k'" by auto
    have "next_free prefilled i = i" using False by (simp add: next_free.simps)
    with Suc.hyps(1) [of "i + 1" k'] Suc.hyps(2) Suc.prems False upt k show ?thesis by simp
  qed
qed

text \<open>A compact block whose prefilled positions are distinct positions of the block.\<close>

definition block_size :: "compact_block \<Rightarrow> nat" where
  "block_size cb = length (short_ids cb) + length (prefilled_txs cb)"

abbreviation prefilled_at :: "compact_block \<Rightarrow> nat list" where
  "prefilled_at cb \<equiv> map fst (prefilled_txs cb)"

definition well_placed :: "compact_block \<Rightarrow> bool" where
  "well_placed cb \<longleftrightarrow> distinct (prefilled_at cb) \<and> (\<forall>i\<in>set (prefilled_at cb). i < block_size cb)"

lemma positions_block:
  assumes "well_placed cb"
  shows "positions (prefilled_at cb) (length (short_ids cb)) 0 =
    filter (\<lambda>j. j \<notin> set (prefilled_at cb)) [0..<block_size cb]"
proof (rule positions_filter)
  let ?pre = "set (prefilled_at cb)" and ?n = "block_size cb"
  have sub: "?pre \<subseteq> {0..<?n}" using assms by (auto simp: well_placed_def)
  have "card ?pre = length (prefilled_txs cb)"
    using assms distinct_card [of "prefilled_at cb"] by (simp add: well_placed_def)
  then have "card ({0..<?n} - ?pre) = length (short_ids cb)"
    using sub by (simp add: card_Diff_subset block_size_def)
  moreover have "length (filter (\<lambda>j. j \<notin> ?pre) [0..<?n]) = card ({0..<?n} - ?pre)"
    using distinct_card [of "filter (\<lambda>j. j \<notin> ?pre) [0..<?n]"] by (simp add: set_diff_eq)
  ultimately show "length (filter (\<lambda>j. j \<notin> ?pre) [0..<?n]) = length (short_ids cb)" by simp
qed


section \<open>Matching\<close>

abbreviation short_of :: "'a tx_api_scheme \<Rightarrow> 'c compact_api_scheme \<Rightarrow> compact_block \<Rightarrow> hash \<Rightarrow> short_id" where
  "short_of P C cb h \<equiv> calculate_short_tx_id P C (cb_header cb) h (cb_nonce cb)"

lemma by_short_get:
  "hm_get_or (by_short P C cb txs) sid [] = map snd (filter (\<lambda>(h, _). short_of P C cb h = sid) txs)"
proof -
  have "hm_get_or (foldl (\<lambda>m (h, tx). let sid = short_of P C cb h in hm_insert sid (hm_get_or m sid [] @ [tx]) m) m txs) sid []
      = hm_get_or m sid [] @ map snd (filter (\<lambda>(h, _). short_of P C cb h = sid) txs)" for m
    by (induction txs arbitrary: m) (auto simp: Let_def hm_get_or_def update_conv')
  from this [of "[]"] show ?thesis by (simp add: by_short_def hm_get_or_def)
qed

lemma first_by_short_get:
  "hm_get (first_by_short P C cb pool) sid =
     (case filter (\<lambda>(h, _). short_of P C cb h = sid) pool of [] \<Rightarrow> None | (h, pair) # _ \<Rightarrow> Some pair)"
proof -
  have "hm_get (foldl (\<lambda>m (h, pair). let sid = short_of P C cb h in
            if hm_get m sid = None then hm_insert sid pair m else m) m pool) sid
      = (case hm_get m sid of
           Some pair \<Rightarrow> Some pair
         | None \<Rightarrow> (case filter (\<lambda>(h, _). short_of P C cb h = sid) pool of [] \<Rightarrow> None | (h, pair) # _ \<Rightarrow> Some pair))" for m
  proof (induction pool arbitrary: m)
    case (Cons e pool)
    obtain h pair where e: "e = (h, pair)" by (cases e)
    show ?case
      by (cases "hm_get m (short_of P C cb h)"; cases "short_of P C cb h = sid"; cases "hm_get m sid")
         (auto simp: e Cons [unfolded Let_def] Let_def update_conv')
  qed (simp split: option.split)
  from this [of "[]"] show ?thesis by (simp add: first_by_short_def)
qed

text \<open>A short id that one pool transaction has is filled with that transaction and its witness.\<close>

lemma unique_match:
  assumes "hm_get_or (by_short P C cb (map (\<lambda>(h, tx, _). (h, tx)) pool)) sid [] = [tx]"
  obtains h wits where "(h, tx, wits) \<in> set pool" "short_of P C cb h = sid"
    "hm_get (first_by_short P C cb pool) sid = Some (tx, wits)"
proof -
  let ?f = "filter (\<lambda>(h, _). short_of P C cb h = sid) pool"
  have "map snd (filter (\<lambda>(h, _). short_of P C cb h = sid) (map (\<lambda>(h, tx, _). (h, tx)) pool)) = map (\<lambda>(h, tx, _). tx) ?f"
    by (induction pool) auto
  with assms have "map (\<lambda>(h, tx, _). tx) ?f = [tx]" by (simp add: by_short_get)
  then obtain h wits where f: "?f = [(h, tx, wits)]" by (auto simp: map_eq_Cons_conv)
  have "(h, tx, wits) \<in> set ?f" unfolding f by simp
  then have "(h, tx, wits) \<in> set pool" "short_of P C cb h = sid" by simp_all
  then show ?thesis using f by (intro that [of h wits]) (simp_all add: first_by_short_get)
qed

lemma reconstruct_loop_subseq:
  "subseq (reconstruct_loop table cb ids i placed) (positions (prefilled_at cb) (length ids) i)"
  by (induction ids arbitrary: i placed)
     (auto simp: Let_def list_emb_Cons split: list.split)

lemma reconstruct_loop_matched:
  assumes "(j, sid) \<in> set (zip (positions (prefilled_at cb) (length ids) i) ids)"
    and "j \<notin> set (reconstruct_loop table cb ids i placed)"
  shows "\<exists>tx. hm_get_or table sid [] = [tx]"
  using assms
proof (induction ids arbitrary: i placed)
  case (Cons s ids)
  let ?j = "next_free (prefilled_at cb) i"
  show ?case
  proof (cases "j = ?j")
    case True
    have "j \<notin> set (positions (prefilled_at cb) (length ids) (j + 1))" using positions_ge by fastforce
    with Cons.prems True show ?thesis
      by (auto simp: Let_def dest: set_zip_leftD split: list.splits)
  next
    case False
    with Cons show ?thesis by (auto simp: Let_def split: list.splits if_splits)
  qed
qed simp


section \<open>Slots\<close>

lemma place_prefilled_ok:
  assumes "\<forall>i\<in>set (map fst pre). i < n" "length ss = n" "distinct (map fst pre)"
  obtains ss' where "place_prefilled n pre ss = Ok ss'" "length ss' = n"
    "\<And>i pair. (i, pair) \<in> set pre \<Longrightarrow> ss' ! i = Some pair"
    "\<And>i. i < n \<Longrightarrow> i \<notin> set (map fst pre) \<Longrightarrow> ss' ! i = ss ! i"
proof -
  have "\<exists>ss'. place_prefilled n pre ss = Ok ss' \<and> length ss' = n
      \<and> (\<forall>i pair. (i, pair) \<in> set pre \<longrightarrow> ss' ! i = Some pair)
      \<and> (\<forall>i < n. i \<notin> set (map fst pre) \<longrightarrow> ss' ! i = ss ! i)"
    using assms
  proof (induction n pre ss rule: place_prefilled.induct)
    case (2 n i pair rest ss)
    then obtain ss' where "place_prefilled n rest (ss[i := Some pair]) = Ok ss'" "length ss' = n"
      "\<forall>k q. (k, q) \<in> set rest \<longrightarrow> ss' ! k = Some q"
      "\<forall>k < n. k \<notin> set (map fst rest) \<longrightarrow> ss' ! k = ss[i := Some pair] ! k" by auto
    with 2 show ?case by (intro exI [of _ ss']) (auto simp: nth_list_update)
  qed simp
  then show ?thesis using that by metis
qed

lemma fill_slots_spec:
  assumes "\<forall>j\<in>set (positions prefilled (length ids) i). j < length ss"
  shows "length (fill_slots table prefilled holes ids i ss) = length ss
    \<and> (\<forall>j < length ss. fill_slots table prefilled holes ids i ss ! j =
         (if j \<in> set (positions prefilled (length ids) i) \<and> j \<notin> set holes
          then case hm_get table (the (map_of (zip (positions prefilled (length ids) i) ids) j)) of
                 Some pair \<Rightarrow> Some pair | None \<Rightarrow> ss ! j
          else ss ! j))"
  using assms
proof (induction ids arbitrary: i ss)
  case (Cons sid ids)
  let ?j = "next_free prefilled i"
  let ?ss = "if ?j \<in> set holes then ss
             else case hm_get table sid of None \<Rightarrow> ss | Some pair \<Rightarrow> if ?j < length ss then ss[?j := Some pair] else ss"
  have len: "length ?ss = length ss" by (simp split: option.split)
  have "\<forall>j\<in>set (positions prefilled (length ids) (?j + 1)). j < length ?ss"
    using Cons.prems by (simp add: len Let_def)
  note IH = Cons.IH [OF this]
  have notin: "?j \<notin> set (positions prefilled (length ids) (?j + 1))" using positions_ge by fastforce
  have "?ss ! j = ss ! j" if "j \<noteq> ?j" for j using that by (simp split: option.split)
  moreover have "?ss ! ?j = (if ?j \<in> set holes then ss ! ?j else case hm_get table sid of Some pair \<Rightarrow> Some pair | None \<Rightarrow> ss ! ?j)"
    using Cons.prems by (simp add: Let_def split: option.split)
  ultimately show ?case using IH notin by (auto simp: Let_def len split: option.splits)
qed simp


lemma fill_missing_ok:
  assumes "length txs = length holes" "\<forall>i\<in>set holes. i < length ss" "distinct holes"
  obtains ss' where "fill_missing holes txs k wits ss = Ok ss'" "length ss' = length ss"
    "\<And>q. q < length holes \<Longrightarrow> ss' ! (holes ! q) = Some (txs ! q, Option.bind wits (\<lambda>all. list_get all (k + q)))"
    "\<And>i. i < length ss \<Longrightarrow> i \<notin> set holes \<Longrightarrow> ss' ! i = ss ! i"
proof -
  have "\<exists>ss'. fill_missing holes txs k wits ss = Ok ss' \<and> length ss' = length ss
      \<and> (\<forall>q < length holes. ss' ! (holes ! q) = Some (txs ! q, Option.bind wits (\<lambda>all. list_get all (k + q))))
      \<and> (\<forall>i < length ss. i \<notin> set holes \<longrightarrow> ss' ! i = ss ! i)"
    using assms
  proof (induction holes txs arbitrary: k ss rule: list_induct2')
    case (4 i holes tx txs)
    let ?ss = "ss[i := Some (tx, Option.bind wits (\<lambda>all. list_get all k))]"
    from 4 obtain ss' where IH: "fill_missing holes txs (k + 1) wits ?ss = Ok ss'" "length ss' = length ss"
      "\<forall>q < length holes. ss' ! (holes ! q) = Some (txs ! q, Option.bind wits (\<lambda>all. list_get all (k + 1 + q)))"
      "\<forall>j < length ss. j \<notin> set holes \<longrightarrow> ss' ! j = ?ss ! j"
      using "4.IH" [of ?ss "k + 1"] by auto
    have "ss' ! i = Some (tx, Option.bind wits (\<lambda>all. list_get all k))" using IH(4) 4 by simp
    then have "\<forall>q < length (i # holes). ss' ! ((i # holes) ! q) =
        Some ((tx # txs) ! q, Option.bind wits (\<lambda>all. list_get all (k + q)))"
      using IH(3) by (auto simp: less_Suc_eq_0_disj)
    with IH 4 show ?case by auto
  qed simp_all
  then show ?thesis using that by metis
qed

abbreviation effective :: "slot \<Rightarrow> witness list" where
  "effective pair \<equiv> (case snd pair of Some stacks \<Rightarrow> stacks | None \<Rightarrow> map (\<lambda>_. []) (inputs (fst pair)))"

lemma collect_slots_full: "collect_slots (map Some pairs) = Ok (map fst pairs, map effective pairs)"
  by (induction pairs) (auto split: prod.split option.split)

lemma collect_slots_fails: "None \<in> set ss \<Longrightarrow> \<exists>e. collect_slots ss = Err e"
  by (induction ss rule: collect_slots.induct) auto

text \<open>
  Every position of a well-placed compact block is prefilled, filled with the only pool transaction that has its
  short id, or missing.
\<close>

lemma begin_compact_assembly_ok:
  assumes "well_placed cb"
  obtains a where "begin_compact_assembly P C now cb pool = Ok a" "ca_header a = cb_header cb"
    "length (slots a) = block_size cb" "distinct (missing a)"
    "set (missing a) \<subseteq> {j. j < block_size cb \<and> j \<notin> set (prefilled_at cb)}"
    "\<And>j pair. (j, pair) \<in> set (prefilled_txs cb) \<Longrightarrow> slots a ! j = Some pair"
    "\<And>j. j < block_size cb \<Longrightarrow> j \<notin> set (prefilled_at cb) \<Longrightarrow> j \<notin> set (missing a) \<Longrightarrow>
       \<exists>h tx wits. slots a ! j = Some (tx, wits) \<and> (h, tx, wits) \<in> set pool
         \<and> short_of P C cb h = the (map_of (zip (filter (\<lambda>j. j \<notin> set (prefilled_at cb)) [0..<block_size cb]) (short_ids cb)) j)"
    "\<And>j. j \<in> set (missing a) \<Longrightarrow> slots a ! j = None"
proof -
  let ?n = "block_size cb" and ?pre = "prefilled_at cb"
  let ?holes = "reconstruct_block P C cb (map (\<lambda>(h, tx, _). (h, tx)) pool)"
  let ?pos = "positions ?pre (length (short_ids cb)) 0"
  have pos: "?pos = filter (\<lambda>j. j \<notin> set ?pre) [0..<?n]" by (rule positions_block [OF assms])
  obtain ss where ss: "place_prefilled ?n (prefilled_txs cb) (replicate ?n None) = Ok ss" "length ss = ?n"
    "\<And>i pair. (i, pair) \<in> set (prefilled_txs cb) \<Longrightarrow> ss ! i = Some pair"
    "\<And>i. i < ?n \<Longrightarrow> i \<notin> set ?pre \<Longrightarrow> ss ! i = replicate ?n None ! i"
    using place_prefilled_ok [of "prefilled_txs cb" ?n "replicate ?n None"] assms by (auto simp: well_placed_def)
  let ?filled = "fill_slots (first_by_short P C cb pool) ?pre ?holes (short_ids cb) 0 ss"
  let ?sid = "\<lambda>j. the (map_of (zip ?pos (short_ids cb)) j)"
  have fill: "length ?filled = ?n"
    "\<And>j. j < ?n \<Longrightarrow> ?filled ! j = (if j \<in> set ?pos \<and> j \<notin> set ?holes
        then case hm_get (first_by_short P C cb pool) (?sid j) of Some pair \<Rightarrow> Some pair | None \<Rightarrow> ss ! j else ss ! j)"
    using fill_slots_spec [of ?pre "short_ids cb" 0 ss "first_by_short P C cb pool" ?holes] ss(2) by (auto simp: pos)
  have sub: "subseq ?holes ?pos" unfolding reconstruct_block_def by (rule reconstruct_loop_subseq)
  then obtain N where "?holes = nths ?pos N" by (auto simp: subseq_conv_nths)
  then have holes: "distinct ?holes" "set ?holes \<subseteq> set ?pos"
    using distinct_positions [of ?pre "length (short_ids cb)" 0] by (simp_all add: distinct_nthsI set_nths_subset)
  have match: "\<exists>h tx wits. ?filled ! j = Some (tx, wits) \<and> (h, tx, wits) \<in> set pool \<and> short_of P C cb h = ?sid j"
    if "j \<in> set ?pos" "j \<notin> set ?holes" for j
  proof -
    obtain sid where "map_of (zip ?pos (short_ids cb)) j = Some sid"
      using \<open>j \<in> set ?pos\<close> by (metis length_positions map_of_zip_is_Some)
    moreover from map_of_SomeD [OF this] obtain tx where
      "hm_get_or (by_short P C cb (map (\<lambda>(h, tx, _). (h, tx)) pool)) sid [] = [tx]"
      using reconstruct_loop_matched \<open>j \<notin> set ?holes\<close> unfolding reconstruct_block_def by metis
    then obtain h wits where "(h, tx, wits) \<in> set pool" "short_of P C cb h = sid"
      "hm_get (first_by_short P C cb pool) sid = Some (tx, wits)" by (rule unique_match)
    ultimately show ?thesis using fill(2) [of j] that by (auto simp: pos)
  qed
  have pre: "?filled ! j = Some pair" if "(j, pair) \<in> set (prefilled_txs cb)" for j pair
  proof -
    have "j \<in> set ?pre" using that by force
    moreover from this have "j < ?n" using assms by (auto simp: well_placed_def)
    ultimately show ?thesis using fill(2) [of j] ss(3) [OF that] by (simp add: pos)
  qed
  have hole: "?filled ! j = None" if "j \<in> set ?holes" for j
  proof -
    have "j < ?n" "j \<notin> set ?pre" using holes(2) that by (auto simp: pos)
    with fill(2) [of j] ss(4) [of j] that show ?thesis by simp
  qed
  show ?thesis
  proof (rule that)
    show "begin_compact_assembly P C now cb pool = Ok \<lparr> ca_header = cb_header cb, ca_nonce = cb_nonce cb,
        slots = ?filled, missing = ?holes, started = now, short_id_bytes = sat_usize (6 * length (short_ids cb)) \<rparr>"
      using ss(1) by (simp add: begin_compact_assembly_def Let_def block_size_def)
  qed (use fill(1) holes match pre hole in \<open>simp_all add: pos subset_iff\<close>)
qed


section \<open>The compact form of a block\<close>

lemma enumerate_nth: "enumerate 0 xs = map (\<lambda>i. (i, xs ! i)) [0..<length xs]"
  by (intro nth_equalityI) (simp_all add: nth_enumerate_eq)

abbreviation stored_witness :: "witness list option list \<Rightarrow> nat \<Rightarrow> witness list option" where
  "stored_witness wits i \<equiv> Option.bind (list_get wits i) id"

lemma create_compact_block_fields:
  fixes P :: "'a tx_api_scheme" and C :: "'c compact_api_scheme" and blk salt prefilled wits
  defines "cb \<equiv> create_compact_block_with_witnesses P C blk salt prefilled wits"
    and "n \<equiv> length (block_txs blk)"
  shows "cb_header cb = blk_header blk" "cb_nonce cb = salt"
    "short_ids cb = map (\<lambda>i. calculate_short_tx_id P C (blk_header blk)
        (calculate_wtxid P (block_txs blk ! i) (stored_witness wits i)) salt) (filter (\<lambda>i. i \<notin> set prefilled) [0..<n])"
    "prefilled_txs cb = map (\<lambda>i. (i, block_txs blk ! i, prefilled_witness wits i)) (filter (\<lambda>i. i \<in> set prefilled) [0..<n])"
    "prefilled_at cb = filter (\<lambda>i. i \<in> set prefilled) [0..<n]" "block_size cb = n" "well_placed cb"
proof -
  show fields: "cb_header cb = blk_header blk" "cb_nonce cb = salt"
    "short_ids cb = map (\<lambda>i. calculate_short_tx_id P C (blk_header blk)
        (calculate_wtxid P (block_txs blk ! i) (stored_witness wits i)) salt) (filter (\<lambda>i. i \<notin> set prefilled) [0..<n])"
    "prefilled_txs cb = map (\<lambda>i. (i, block_txs blk ! i, prefilled_witness wits i)) (filter (\<lambda>i. i \<in> set prefilled) [0..<n])"
    by (simp_all add: cb_def n_def create_compact_block_with_witnesses_def Let_def enumerate_nth filter_map comp_def)
  show at: "prefilled_at cb = filter (\<lambda>i. i \<in> set prefilled) [0..<n]" by (simp add: fields comp_def)
  have "length (filter (\<lambda>i. i \<in> set prefilled) [0..<n]) + length (filter (\<lambda>i. i \<notin> set prefilled) [0..<n]) = n"
    using sum_length_filter_compl [of "\<lambda>i. i \<in> set prefilled" "[0..<n]"] by simp
  then show size: "block_size cb = n" by (simp add: block_size_def fields)
  show "well_placed cb" unfolding well_placed_def at size by simp
qed

lemma create_compact_block_sid:
  fixes P :: "'a tx_api_scheme" and C :: "'c compact_api_scheme" and blk salt prefilled wits
  defines "cb \<equiv> create_compact_block_with_witnesses P C blk salt prefilled wits"
  assumes "j < block_size cb" "j \<notin> set (prefilled_at cb)"
  shows "the (map_of (zip (filter (\<lambda>j. j \<notin> set (prefilled_at cb)) [0..<block_size cb]) (short_ids cb)) j) =
    calculate_short_tx_id P C (blk_header blk) (calculate_wtxid P (block_txs blk ! j) (stored_witness wits j)) salt"
proof -
  note f = create_compact_block_fields [of P C blk salt prefilled wits, folded cb_def]
  have "filter (\<lambda>j. j \<notin> set (prefilled_at cb)) [0..<block_size cb] = filter (\<lambda>i. i \<notin> set prefilled) [0..<length (block_txs blk)]"
    unfolding f by (intro filter_cong) auto
  moreover have "j \<in> set (filter (\<lambda>i. i \<notin> set prefilled) [0..<length (block_txs blk)])"
    using assms(2,3) unfolding f by simp
  ultimately show ?thesis unfolding f(3) by (simp add: map_of_zip_map)
qed


section \<open>Reconstruction\<close>

text \<open>
  What a block and its witnesses are taken for: one stack per input, and no pooled transaction that has the short id
  of a transaction of the block is another transaction or has another witness.
\<close>

definition witnessed :: "block \<Rightarrow> witness list list \<Rightarrow> bool" where
  "witnessed blk W \<longleftrightarrow> length W = length (block_txs blk)
     \<and> (\<forall>i < length W. length (W ! i) = length (inputs (block_txs blk ! i)))"

definition no_false_match ::
  "'a tx_api_scheme \<Rightarrow> 'c compact_api_scheme \<Rightarrow> block \<Rightarrow> u64 \<Rightarrow> witness list list \<Rightarrow> (hash, slot) hmap \<Rightarrow> bool" where
  "no_false_match P C blk salt W pool \<longleftrightarrow>
     (\<forall>i < length W. \<forall>(h, pair)\<in>set pool.
        calculate_short_tx_id P C (blk_header blk) h salt =
          calculate_short_tx_id P C (blk_header blk) (calculate_wtxid P (block_txs blk ! i) (Some (W ! i))) salt
        \<longrightarrow> fst pair = block_txs blk ! i \<and> effective pair = W ! i)"

lemma all_empty_stacks: "\<not> list_ex (\<lambda>s. s \<noteq> []) ws \<Longrightarrow> map (\<lambda>_. []) ys = ws \<longleftrightarrow> length ys = length ws"
  by (induction ws arbitrary: ys) (auto simp: length_Suc_conv map_eq_Cons_conv)

lemma prefilled_effective:
  assumes "witnessed blk W" "i < length W"
  shows "effective (block_txs blk ! i, prefilled_witness (map Some W) i) = W ! i"
  using assms all_empty_stacks [of "W ! i" "inputs (block_txs blk ! i)"]
  by (auto simp: prefilled_witness_def list_get_def witnessed_def)

text \<open>The positions filled at once already hold the transactions of the block.\<close>

lemma honest_assembly:
  fixes P :: "'a tx_api_scheme" and C :: "'c compact_api_scheme" and blk salt prefilled W
  defines "cb \<equiv> create_compact_block_with_witnesses P C blk salt prefilled (map Some W)"
  assumes "witnessed blk W" "no_false_match P C blk salt W pool"
  obtains a where "begin_compact_assembly P C now cb pool = Ok a" "ca_header a = blk_header blk"
    "length (slots a) = length W" "distinct (missing a)" "\<forall>j\<in>set (missing a). j < length W"
    "\<And>j. j < length W \<Longrightarrow> j \<notin> set (missing a) \<Longrightarrow>
       \<exists>wits. slots a ! j = Some (block_txs blk ! j, wits) \<and> effective (block_txs blk ! j, wits) = W ! j"
proof -
  note f = create_compact_block_fields [of P C blk salt prefilled "map Some W", folded cb_def]
  note sid = create_compact_block_sid [of _ P C blk salt prefilled "map Some W", folded cb_def]
  have n: "length W = length (block_txs blk)" using assms(2) by (simp add: witnessed_def)
  obtain a where a: "begin_compact_assembly P C now cb pool = Ok a" "ca_header a = cb_header cb"
    "length (slots a) = block_size cb" "distinct (missing a)"
    "set (missing a) \<subseteq> {j. j < block_size cb \<and> j \<notin> set (prefilled_at cb)}"
    "\<And>j pair. (j, pair) \<in> set (prefilled_txs cb) \<Longrightarrow> slots a ! j = Some pair"
    "\<And>j. j < block_size cb \<Longrightarrow> j \<notin> set (prefilled_at cb) \<Longrightarrow> j \<notin> set (missing a) \<Longrightarrow>
       \<exists>h tx wits. slots a ! j = Some (tx, wits) \<and> (h, tx, wits) \<in> set pool
         \<and> short_of P C cb h = the (map_of (zip (filter (\<lambda>j. j \<notin> set (prefilled_at cb)) [0..<block_size cb]) (short_ids cb)) j)"
    by (rule begin_compact_assembly_ok [OF f(7), of P C now pool]) (rule that)
  have "\<exists>wits. slots a ! j = Some (block_txs blk ! j, wits) \<and> effective (block_txs blk ! j, wits) = W ! j"
    if j: "j < length W" "j \<notin> set (missing a)" for j
  proof (cases "j \<in> set (prefilled_at cb)")
    case True
    then have "(j, block_txs blk ! j, prefilled_witness (map Some W) j) \<in> set (prefilled_txs cb)"
      unfolding f(4,5) by auto
    with a(6) prefilled_effective [OF assms(2) j(1)] show ?thesis by blast
  next
    case False
    obtain h tx wits where m: "slots a ! j = Some (tx, wits)" "(h, tx, wits) \<in> set pool"
      "short_of P C cb h = calculate_short_tx_id P C (blk_header blk)
         (calculate_wtxid P (block_txs blk ! j) (Some (W ! j))) salt"
      using a(7) [of j] j False sid [of j] by (auto simp: f(6) n list_get_def)
    then have "tx = block_txs blk ! j \<and> effective (tx, wits) = W ! j"
      using assms(3) j(1) unfolding no_false_match_def f(1,2) by fastforce
    with m(1) show ?thesis by auto
  qed
  then show ?thesis using a(1-5) n by (intro that [of a]) (auto simp: f(1,6))
qed


lemma completed_when_filled:
  assumes "length W = length (block_txs blk)" "length (slots a) = length W" "ca_header a = blk_header blk"
    and "\<And>j. j < length W \<Longrightarrow> \<exists>wits. slots a ! j = Some (block_txs blk ! j, wits) \<and> effective (block_txs blk ! j, wits) = W ! j"
  shows "completed_compact_block a = Ok (blk, W)"
proof -
  obtain w where w: "\<And>j. j < length W \<Longrightarrow> slots a ! j = Some (block_txs blk ! j, w j)"
    "\<And>j. j < length W \<Longrightarrow> effective (block_txs blk ! j, w j) = W ! j" using assms(4) by metis
  let ?pairs = "map (\<lambda>j. (block_txs blk ! j, w j)) [0..<length W]"
  have "slots a = map Some ?pairs" using assms(2) w(1) by (intro nth_equalityI) simp_all
  moreover have "map fst ?pairs = block_txs blk" using assms(1) by (intro nth_equalityI) simp_all
  moreover have "map effective ?pairs = W" using w(2) by (intro nth_equalityI) simp_all
  ultimately show ?thesis
    using assms(3) by (simp add: completed_compact_block_def collect_slots_full del: map_map)
qed

lemma honest_answer_completes:
  assumes "witnessed blk W" "ca_header a = blk_header blk" "length (slots a) = length W" "distinct (missing a)"
    and "\<forall>j\<in>set (missing a). j < length W"
    and "\<And>j. j < length W \<Longrightarrow> j \<notin> set (missing a) \<Longrightarrow>
       \<exists>wits. slots a ! j = Some (block_txs blk ! j, wits) \<and> effective (block_txs blk ! j, wits) = W ! j"
  obtains txs ws a' where "handle_getblocktxn (Some blk) (Some W) (missing a) = Ok (Some (txs, ws))"
    "apply_blocktxn a txs ws = Ok a'" "completed_compact_block a' = Ok (blk, W)"
proof -
  let ?txs = "map (\<lambda>i. block_txs blk ! i) (missing a)"
  let ?ws = "map (\<lambda>i. case list_get W i of Some w \<Rightarrow> w | None \<Rightarrow> []) (missing a)"
  have n: "length W = length (block_txs blk)" using assms(1) by (simp add: witnessed_def)
  obtain ss where ss: "fill_missing (missing a) ?txs 0 (Some ?ws) (slots a) = Ok ss" "length ss = length (slots a)"
    "\<And>q. q < length (missing a) \<Longrightarrow> ss ! (missing a ! q) = Some (?txs ! q, Option.bind (Some ?ws) (\<lambda>all. list_get all (0 + q)))"
    "\<And>i. i < length (slots a) \<Longrightarrow> i \<notin> set (missing a) \<Longrightarrow> ss ! i = slots a ! i"
    using fill_missing_ok [of ?txs "missing a" "slots a" 0 "Some ?ws"] assms(3-5) by auto
  have "\<exists>wits. ss ! j = Some (block_txs blk ! j, wits) \<and> effective (block_txs blk ! j, wits) = W ! j"
    if "j < length W" for j
  proof (cases "j \<in> set (missing a)")
    case True
    then obtain q where "q < length (missing a)" "missing a ! q = j" by (auto simp: in_set_conv_nth)
    with ss(3) [of q] that show ?thesis by (auto simp: list_get_def)
  next
    case False
    with ss(4) [of j] assms(3,6) that show ?thesis by simp
  qed
  then have "completed_compact_block (a \<lparr> slots := ss, missing := [] \<rparr>) = Ok (blk, W)"
    using assms(2,3) n ss(2) by (intro completed_when_filled) simp_all
  moreover have "handle_getblocktxn (Some blk) (Some W) (missing a) = Ok (Some (?txs, Some ?ws))"
    using assms(5) n by (auto simp: handle_getblocktxn_def list_ex_iff)
  moreover have "apply_blocktxn a ?txs (Some ?ws) = Ok (a \<lparr> slots := ss, missing := [] \<rparr>)"
    using ss(1) by (simp add: apply_blocktxn_def)
  ultimately show ?thesis by (intro that)
qed

text \<open>The pool the reconstruction draws from.\<close>

lemma set_hm_insert: "set (hm_insert k v m) \<subseteq> insert (k, v) (set m)"
  by (induction m) auto

lemma transactions_for_short_ids_sub:
  "set (transactions_for_short_ids P C m header salt ids) \<subseteq>
     {(pool_wtxid P m txid tx, tx, hm_get (tx_witnesses m) txid) | txid tx. (txid, tx) \<in> set (transactions m)}"
proof -
  let ?step = "\<lambda>matched (txid, tx). let w = pool_wtxid P m txid tx in
    if calculate_short_tx_id P C header w salt \<in> set ids
    then hm_insert w (tx, hm_get (tx_witnesses m) txid) matched else matched"
  let ?row = "\<lambda>(txid, tx). (pool_wtxid P m txid tx, tx, hm_get (tx_witnesses m) txid)"
  have "set (foldl ?step acc xs) \<subseteq> set acc \<union> ?row ` set xs" for acc xs
  proof (induction xs arbitrary: acc)
    case (Cons x xs)
    have "set (?step acc x) \<subseteq> insert (?row x) (set acc)"
      using set_hm_insert [of "pool_wtxid P m (fst x) (snd x)" "(snd x, hm_get (tx_witnesses m) (fst x))" acc]
      by (cases x) (auto simp: Let_def)
    with Cons [of "?step acc x"] show ?case by auto
  qed simp
  from this [of "[]" "transactions m"]
  have "set (transactions_for_short_ids P C m header salt ids) \<subseteq> ?row ` set (transactions m)"
    unfolding transactions_for_short_ids_def by simp
  then show ?thesis by (rule order.trans) auto
qed

definition pool_no_false_match ::
  "'a tx_api_scheme \<Rightarrow> 'c compact_api_scheme \<Rightarrow> block \<Rightarrow> u64 \<Rightarrow> witness list list \<Rightarrow> 'm mempool_pool_scheme \<Rightarrow> bool" where
  "pool_no_false_match P C blk salt W m \<longleftrightarrow>
     (\<forall>i < length W. \<forall>(txid, tx)\<in>set (transactions m).
        calculate_short_tx_id P C (blk_header blk) (pool_wtxid P m txid tx) salt =
          calculate_short_tx_id P C (blk_header blk) (calculate_wtxid P (block_txs blk ! i) (Some (W ! i))) salt
        \<longrightarrow> tx = block_txs blk ! i \<and> effective (tx, hm_get (tx_witnesses m) txid) = W ! i)"

lemma pool_no_false_match_matches:
  assumes "pool_no_false_match P C blk salt W m"
  shows "no_false_match P C blk salt W (transactions_for_short_ids P C m header salt' ids)"
  unfolding no_false_match_def
proof (intro allI impI ballI)
  fix i row
  assume i: "i < length W" and "row \<in> set (transactions_for_short_ids P C m header salt' ids)"
  then obtain txid tx where row: "row = (pool_wtxid P m txid tx, tx, hm_get (tx_witnesses m) txid)"
    "(txid, tx) \<in> set (transactions m)" using transactions_for_short_ids_sub by blast
  with assms i show "case row of (h, pair) \<Rightarrow>
      calculate_short_tx_id P C (blk_header blk) h salt =
        calculate_short_tx_id P C (blk_header blk) (calculate_wtxid P (block_txs blk ! i) (Some (W ! i))) salt
      \<longrightarrow> fst pair = block_txs blk ! i \<and> effective pair = W ! i"
    unfolding pool_no_false_match_def row by auto
qed


section \<open>The table of assemblies\<close>

abbreviation unexpired :: "nat \<Rightarrow> (hash, compact_assembly) hmap \<Rightarrow> (hash, compact_assembly) hmap" where
  "unexpired now table \<equiv> filter (\<lambda>(_, a). \<not> expired_at a now) table"

abbreviation retained :: "'a tx_api_scheme \<Rightarrow> 'c compact_api_scheme \<Rightarrow> (hash, compact_assembly) hmap \<Rightarrow> nat" where
  "retained P C table \<equiv> sum_list (map (\<lambda>(_, a). assembly_retained_bytes P C a) table)"

lemma keep_started_fields [simp]:
  "slots (keep_started table h a) = slots a" "missing (keep_started table h a) = missing a"
  "ca_header (keep_started table h a) = ca_header a"
  "assembly_retained_bytes P C (keep_started table h a) = assembly_retained_bytes P C a"
  by (simp_all add: keep_started_def assembly_retained_bytes_def split: option.split)

lemma decide_cases:
  fixes P :: "'a tx_api_scheme" and C :: "'c compact_api_scheme"
  obtains (failed) e where "decide_compact_block P C now cb pool budget = Err e"
    "\<forall>a. begin_compact_assembly P C now cb pool \<noteq> Ok a"
  | (full) "decide_compact_block P C now cb pool budget = Ok FullBlock"
  | (keep) "decide_compact_block P C now cb pool budget = Ok KeepCurrent" "same_hash budget"
  | (hold) a where "decide_compact_block P C now cb pool budget = Ok (Hold a)"
    "begin_compact_assembly P C now cb pool = Ok a"
    "length (missing a) \<le> MAX_COMPACT_MISSING" "\<forall>i\<in>set (missing a). i < 2 ^ 16"
    "same_hash budget \<or> assemblies budget < MAX_PENDING_COMPACT"
    "retained_bytes budget + assembly_retained_bytes P C a \<le> MAX_PENDING_COMPACT_BYTES"
proof (cases "begin_compact_assembly P C now cb pool")
  case (Inl e)
  then show ?thesis
    by (cases "length (short_ids cb) + length (prefilled_txs cb) > MAX_COMPACT_BLOCK_TXS")
       (auto simp: decide_compact_block_def intro: full failed)
next
  case (Inr a)
  let ?bytes = "retained_bytes budget + assembly_retained_bytes P C a"
  have bytes: "?bytes \<le> MAX_PENDING_COMPACT_BYTES" if "\<not> sat_usize ?bytes > MAX_PENDING_COMPACT_BYTES"
    using that by (simp add: MAX_PENDING_COMPACT_BYTES_def min_def split: if_splits)
  note d = decide_compact_block_def [of P C now cb pool budget, unfolded Inr sum.case]
  let ?fetch = "length (short_ids cb) + length (prefilled_txs cb) > MAX_COMPACT_BLOCK_TXS
      \<or> length (missing a) > MAX_COMPACT_MISSING \<or> list_ex (\<lambda>i. i \<ge> 2 ^ 16) (missing a)
      \<or> assemblies budget + (if same_hash budget then 0 else 1) > MAX_PENDING_COMPACT"
  show ?thesis
  proof (cases ?fetch)
    case True
    then have "decide_compact_block P C now cb pool budget = Ok FullBlock" unfolding d by meson
    then show ?thesis by (rule full)
  next
    case False
    then have r: "decide_compact_block P C now cb pool budget =
        (if sat_usize ?bytes > MAX_PENDING_COMPACT_BYTES then if same_hash budget then Ok KeepCurrent else Ok FullBlock
         else Ok (Hold a))" unfolding d de_Morgan_disj by (simp only: if_False simp_thms)
    show ?thesis
    proof (cases "sat_usize ?bytes > MAX_PENDING_COMPACT_BYTES")
      case True
      with r show ?thesis by (cases "same_hash budget") (simp_all add: full keep)
    next
      case small: False
      have "\<forall>i\<in>set (missing a). i < 2 ^ 16" "length (missing a) \<le> MAX_COMPACT_MISSING"
        "same_hash budget \<or> assemblies budget < MAX_PENDING_COMPACT"
        using False by (auto simp: list_ex_iff not_le split: if_splits)
      with small r bytes Inr show ?thesis by (intro hold [of a]) simp_all
    qed
  qed
qed

lemma stage_cases:
  fixes P :: "'a tx_api_scheme" and C :: "'c compact_api_scheme"
  obtains (failed) e where "stage_compact_block P C now h cb pool table = (Err e, unexpired now table)"
    "\<forall>a. begin_compact_assembly P C now cb pool \<noteq> Ok a"
  | (fetched) hashes where "stage_compact_block P C now h cb pool table = (Ok (Fetch hashes), unexpired now table)"
    "h \<in> set hashes \<or> hm_contains (unexpired now table) h"
  | (complete) a expired where "begin_compact_assembly P C now cb pool = Ok a" "missing a = []"
    "stage_compact_block P C now h cb pool table =
       (Ok (Complete (keep_started (unexpired now table) h a) expired), unexpired now table)"
  | (holes) a expired where "begin_compact_assembly P C now cb pool = Ok a" "missing a \<noteq> []"
    "length (missing a) \<le> MAX_COMPACT_MISSING" "\<forall>i\<in>set (missing a). i < 2 ^ 16"
    "hm_contains (unexpired now table) h \<or> length (unexpired now table) < MAX_PENDING_COMPACT"
    "retained P C (filter (\<lambda>(k, _). k \<noteq> h) (unexpired now table)) + assembly_retained_bytes P C a \<le> MAX_PENDING_COMPACT_BYTES"
    "stage_compact_block P C now h cb pool table =
       (Ok (Holes (missing a) expired), hm_insert h (keep_started (unexpired now table) h a) (unexpired now table))"
proof -
  let ?t = "unexpired now table"
  define same where "same = hm_contains ?t h"
  define budget where "budget = \<lparr> assemblies = length ?t - (if same then 1 else 0),
      retained_bytes = retained P C (filter (\<lambda>(k, _). k \<noteq> h) ?t), same_hash = same \<rparr>"
  let ?expired = "map fst (filter (\<lambda>(_, a). expired_at a now) table)"
  have stage: "stage_compact_block P C now h cb pool table =
    (case decide_compact_block P C now cb pool budget of
       Err e \<Rightarrow> (Err e, ?t)
     | Ok FullBlock \<Rightarrow> (Ok (Fetch (?expired @ [h])), ?t)
     | Ok KeepCurrent \<Rightarrow> (Ok (Fetch ?expired), ?t)
     | Ok (Hold a) \<Rightarrow>
         if missing (keep_started ?t h a) = [] then (Ok (Complete (keep_started ?t h a) ?expired), ?t)
         else (Ok (Holes (missing (keep_started ?t h a)) ?expired), hm_insert h (keep_started ?t h a) ?t))"
    unfolding stage_compact_block_def Let_def budget_def same_def by (rule refl)
  show ?thesis
  proof (cases rule: decide_cases [of P C now cb pool budget])
    case (failed e)
    then show ?thesis by (intro that(1)) (simp_all add: stage)
  next
    case full
    then show ?thesis by (intro that(2) [of "?expired @ [h]"]) (simp_all add: stage)
  next
    case keep
    then have "hm_contains ?t h" by (simp add: budget_def same_def)
    with keep show ?thesis by (intro that(2) [of ?expired]) (simp_all add: stage)
  next
    case (hold a)
    have "hm_contains ?t h \<or> length ?t < MAX_PENDING_COMPACT"
      using hold(5) by (simp add: budget_def same_def split: if_splits)
    moreover have "retained P C (filter (\<lambda>(k, _). k \<noteq> h) ?t) + assembly_retained_bytes P C a \<le> MAX_PENDING_COMPACT_BYTES"
      using hold(6) by (simp add: budget_def)
    ultimately show ?thesis
      using hold by (cases "missing a = []") (simp_all add: stage that(3) that(4))
  qed
qed


inductive compact_step :: "'a tx_api_scheme \<Rightarrow> 'c compact_api_scheme \<Rightarrow> compact_node \<Rightarrow> compact_node \<Rightarrow> bool"
  for P C where
  announced_block: "compact_step P C node (snd (snd (handle_cmpctblock P C now (m :: mempool_manager) cb node)))"
| answered: "compact_step P C node (snd (handle_blocktxn_fill h txs wits node))"

definition pending_inv :: "'a tx_api_scheme \<Rightarrow> 'c compact_api_scheme \<Rightarrow> (hash, compact_assembly) hmap \<Rightarrow> bool" where
  "pending_inv P C table \<longleftrightarrow> hm_wf table \<and> length table \<le> MAX_PENDING_COMPACT
     \<and> retained P C table \<le> MAX_PENDING_COMPACT_BYTES
     \<and> (\<forall>(h, a)\<in>set table. missing a \<noteq> [] \<and> length (missing a) \<le> MAX_COMPACT_MISSING \<and> (\<forall>i\<in>set (missing a). i < 2 ^ 16))"

lemma sum_list_filter_le: "sum_list (map f (filter Q xs)) \<le> sum_list (map (f :: 'b \<Rightarrow> nat) xs)"
  by (induction xs) auto

lemma pending_inv_filter: "pending_inv P C table \<Longrightarrow> pending_inv P C (filter Q table)"
  using sum_list_filter_le [of "\<lambda>(_, a). assembly_retained_bytes P C a" Q table]
  by (auto simp: pending_inv_def hm_wf_def intro: distinct_map_filter order.trans [OF length_filter_le])

lemma hm_remove_filter: "hm_remove k m = filter (\<lambda>(k', _). k' \<noteq> k) m"
  by (induction m) auto

lemma retained_insert:
  assumes "hm_wf table"
  shows "sum_list (map f (hm_insert h a table)) = sum_list (map f (filter (\<lambda>(k, _). k \<noteq> h) table)) + (f (h, a) :: nat)"
  using assms
proof (induction table)
  case (Cons row table)
  then have "\<forall>x\<in>set table. fst x \<noteq> fst row" by (simp add: hm_wf_def image_iff) metis
  then have "filter (\<lambda>(k, _). k \<noteq> h) table = table" if "fst row = h"
    using that by (intro filter_True) (simp add: case_prod_beta)
  with Cons show ?case by (cases row) (auto simp: hm_wf_def)
qed simp

lemma length_hm_insert: "length (hm_insert h a table) = (if hm_contains table h then length table else Suc (length table))"
  by (induction table) auto

lemma stage_inv:
  assumes "pending_inv P C table"
  shows "pending_inv P C (snd (stage_compact_block P C now h cb pool table))"
proof (cases rule: stage_cases [of P C now h cb pool table])
  case (holes a expired)
  let ?t = "unexpired now table" and ?a = "keep_started (unexpired now table) h a"
  have t: "pending_inv P C ?t" using assms by (rule pending_inv_filter)
  then have "hm_wf (hm_insert h ?a ?t)" by (simp add: pending_inv_def hm.wf_ins)
  moreover have "length (hm_insert h ?a ?t) \<le> MAX_PENDING_COMPACT"
    using t holes(5) unfolding length_hm_insert pending_inv_def by (simp del: hm_contains_iff add: Suc_le_eq) blast
  moreover have "retained P C (hm_insert h ?a ?t) \<le> MAX_PENDING_COMPACT_BYTES"
    using holes(6) t by (simp add: retained_insert pending_inv_def)
  moreover have "missing x \<noteq> [] \<and> length (missing x) \<le> MAX_COMPACT_MISSING \<and> (\<forall>i\<in>set (missing x). i < 2 ^ 16)"
    if "(k, x) \<in> set (hm_insert h ?a ?t)" for k x
    using that set_hm_insert [of h ?a ?t] t holes(2-4) unfolding pending_inv_def by fastforce
  ultimately have "pending_inv P C (hm_insert h ?a ?t)" unfolding pending_inv_def by blast
  then show ?thesis by (simp add: holes(7))
qed (use assms in \<open>simp_all add: pending_inv_filter\<close>)

lemma queue_keeps_pending [simp]: "pending_compact (snd (queue_completed_compact a node)) = pending_compact node"
  by (simp add: queue_completed_compact_def split: sum.split)

lemma handle_cmpctblock_pending:
  "pending_compact (snd (snd (handle_cmpctblock P C now m cb node))) = pending_compact node \<or>
   (\<exists>pool. pending_compact (snd (snd (handle_cmpctblock P C now m cb node))) =
      snd (stage_compact_block P C now (wire_block_hash P (cb_header cb)) cb pool (pending_compact node)))"
proof (cases "length (short_ids cb) + length (prefilled_txs cb) > MAX_COMPACT_BLOCK_TXS")
  case False
  let ?pool = "transactions_for_short_ids P C m (cb_header cb) (cb_nonce cb) (short_ids cb)"
  obtain staged table where st: "stage_compact_block P C now (wire_block_hash P (cb_header cb)) cb ?pool (pending_compact node)
      = (staged, table)" by fastforce
  have "pending_compact (snd (snd (handle_cmpctblock P C now m cb node))) = table"
    using False by (auto simp: handle_cmpctblock_def Let_def st case_prod_beta split: sum.split staged_compact.split)
  with st show ?thesis by (metis snd_conv)
qed (simp add: handle_cmpctblock_def)

lemma compact_step_inv:
  "compact_step P C node node' \<Longrightarrow> pending_inv P C (pending_compact node) \<Longrightarrow> pending_inv P C (pending_compact node')"
proof (induction rule: compact_step.induct)
  case (announced_block node now m cb)
  then show ?case using handle_cmpctblock_pending [of P C now m cb node] stage_inv by metis
next
  case (answered node h txs wits)
  then show ?case
    by (auto simp: handle_blocktxn_fill_def Let_def hm_remove_filter pending_inv_filter split: option.split sum.split)
qed

lemma compact_reach_inv:
  "(compact_step P C)\<^sup>*\<^sup>* \<lparr> pending_compact = [], queued_blocks = q \<rparr> node \<Longrightarrow> pending_inv P C (pending_compact node)"
proof (induction rule: rtranclp_induct)
  case base
  then show ?case by (simp add: pending_inv_def hm_wf_def)
qed (rule compact_step_inv)


section \<open>Example\<close>

text \<open>A hash function that returns the first bytes, a block of two transactions, and a pool with the second.\<close>

definition demo_compact :: compact_api where
  "demo_compact = header_codec.extend demo_codec \<lparr> siphash24 = (\<lambda>k0 k1 bs. u64_of (take 8 bs)), slot_size = 100 \<rparr>"

definition demo_pool_second :: mempool_manager where
  "demo_pool_second = new_mempool \<lparr> transactions := [(2, block_txs (demo_block 1 [1, 2]) ! 1)] \<rparr>"

definition idle_node :: compact_node where
  "idle_node = \<lparr> pending_compact = [], queued_blocks = [] \<rparr>"

definition demo_compact_block :: compact_block where
  "demo_compact_block = create_compact_block_with_witnesses demo demo_compact (demo_block 1 [1, 2]) 0 [0] (map Some [[], []])"

definition demo_assembly :: compact_assembly where
  "demo_assembly = \<lparr> ca_header = blk_header (demo_block 1 [1]), ca_nonce = 0, slots = [None], missing = [0], started = 0,
     short_id_bytes = 6 \<rparr>"

lemma demo_short_id: "calculate_short_tx_id demo demo_compact header w salt = ucast (u64_of (take 8 (hash_le w)))"
  by (simp add: calculate_short_tx_id_def short_id_keys_def Let_def demo_compact_def header_codec.extend_def)

lemma take_le_bytes: "take k (le_bytes (k + j) n) = le_bytes k n"
  by (induction k arbitrary: n) simp_all

lemma demo_short_ids: "ucast (u64_of (take 8 (hash_le 1))) = (1 :: short_id)" "ucast (u64_of (take 8 (hash_le 2))) = (2 :: short_id)"
  using take_le_bytes [of 8 24] by (simp_all add: u64_of_def hash_le_def)

lemma demo_relay:
  "witnessed (demo_block 1 [1, 2]) [[], []]"
  "pool_no_false_match demo demo_compact (demo_block 1 [1, 2]) 0 [[], []] demo_pool_second"
proof -
  show "witnessed (demo_block 1 [1, 2]) [[], []]"
    by (auto simp: witnessed_def demo_block_def less_Suc_eq)
  have "calculate_wtxid demo tx (Some []) = of_nat (unat (lock_time tx))" for tx
    by (simp add: calculate_wtxid_def Let_def)
  then show "pool_no_false_match demo demo_compact (demo_block 1 [1, 2]) 0 [[], []] demo_pool_second"
    by (auto simp: pool_no_false_match_def demo_pool_second_def demo_block_def pool_wtxid_def calculate_wtxid_def
        new_mempool_def with_rbf_config_def demo_short_id demo_short_ids less_Suc_eq Let_def)
qed


section \<open>Properties\<close>

text \<open>
  C10. Compact relay delivers the block: when no pooled transaction has the short id of another transaction of the
  block, a node that receives the compact form of a block never reports an error. It queues exactly the block with its
  witnesses at once; or it queues nothing and asks for missing positions, or for the whole block, or keeps unchanged the
  assembly of the block that it had before and that has not expired. Whenever it asks for positions, the answer of a
  peer that has the block with its witnesses queues exactly that block and ends the assembly.
\<close>

theorem compact_relay_roundtrip:
  assumes "witnessed blk W" "pool_no_false_match P C blk salt W m"
  shows "\<exists>requests node'.
    handle_cmpctblock P C now m (create_compact_block_with_witnesses P C blk salt prefilled (map Some W)) node
      = (Ok (), requests, node')
    \<and> (queued_blocks node' = queued_blocks node @ [(blk, W)]
       \<or> queued_blocks node' = queued_blocks node
         \<and> ((\<exists>indices. GetBlockTxn (wire_block_hash P (blk_header blk)) indices \<in> set requests)
            \<or> GetData (wire_block_hash P (blk_header blk)) \<in> set requests
            \<or> (\<exists>a. hm_get (unexpired now (pending_compact node)) (wire_block_hash P (blk_header blk)) = Some a
                 \<and> hm_get (pending_compact node') (wire_block_hash P (blk_header blk)) = Some a)))
    \<and> (\<forall>indices. GetBlockTxn (wire_block_hash P (blk_header blk)) indices \<in> set requests \<longrightarrow>
         (\<exists>txs ws node''. handle_getblocktxn (Some blk) (Some W) indices = Ok (Some (txs, ws))
            \<and> handle_blocktxn_fill (wire_block_hash P (blk_header blk)) txs ws node' = (Ok (), node'')
            \<and> queued_blocks node'' = queued_blocks node @ [(blk, W)]
            \<and> hm_get (pending_compact node'') (wire_block_hash P (blk_header blk)) = None))"
proof -
  let ?cb = "create_compact_block_with_witnesses P C blk salt prefilled (map Some W)"
  let ?h = "wire_block_hash P (blk_header blk)" and ?table = "pending_compact node"
  let ?pool = "transactions_for_short_ids P C m (cb_header ?cb) (cb_nonce ?cb) (short_ids ?cb)"
  let ?handle = "handle_cmpctblock P C now m ?cb node"
  have hdr: "cb_header ?cb = blk_header blk" by (rule create_compact_block_fields)
  have n: "length W = length (block_txs blk)" using assms(1) by (simp add: witnessed_def)
  obtain a where a: "begin_compact_assembly P C now ?cb ?pool = Ok a" "ca_header a = blk_header blk"
    "length (slots a) = length W" "distinct (missing a)" "\<forall>j\<in>set (missing a). j < length W"
    "\<And>j. j < length W \<Longrightarrow> j \<notin> set (missing a) \<Longrightarrow>
       \<exists>wits. slots a ! j = Some (block_txs blk ! j, wits) \<and> effective (block_txs blk ! j, wits) = W ! j"
    by (rule honest_assembly [OF assms(1) pool_no_false_match_matches [OF assms(2)]]) (rule that)
  show ?thesis
  proof (cases "length (short_ids ?cb) + length (prefilled_txs ?cb) > MAX_COMPACT_BLOCK_TXS")
    case True
    then show ?thesis by (simp add: handle_cmpctblock_def Let_def hdr)
  next
    case small: False
    show ?thesis
    proof (cases rule: stage_cases [of P C now ?h ?cb ?pool ?table])
      case (failed e)
      with a(1) show ?thesis by blast
    next
      case (fetched hashes)
      then have "?handle = (Ok (), map GetData hashes, node \<lparr> pending_compact := unexpired now ?table \<rparr>)"
        using small by (simp add: handle_cmpctblock_def Let_def hdr)
      with fetched(2) show ?thesis by (auto simp: hm_contains_def simp del: hm_contains_iff)
    next
      case (complete b expired)
      with a have "b = a" by simp
      let ?a = "keep_started (unexpired now ?table) ?h a"
      have "completed_compact_block ?a = Ok (blk, W)"
        using a complete(2) n \<open>b = a\<close> by (intro completed_when_filled) simp_all
      then have "?handle = (Ok (), map GetData expired, node \<lparr> pending_compact := unexpired now ?table,
          queued_blocks := queued_blocks node @ [(blk, W)] \<rparr>)"
        using complete small \<open>b = a\<close> by (simp add: handle_cmpctblock_def Let_def hdr queue_completed_compact_def)
      then show ?thesis by auto
    next
      case (holes b expired)
      with a have "b = a" by simp
      let ?a = "keep_started (unexpired now ?table) ?h a"
      obtain txs ws a' where f: "handle_getblocktxn (Some blk) (Some W) (missing ?a) = Ok (Some (txs, ws))"
        "apply_blocktxn ?a txs ws = Ok a'" "completed_compact_block a' = Ok (blk, W)"
        using honest_answer_completes [OF assms(1), of ?a] a(2-6) by auto
      let ?node = "node \<lparr> pending_compact := hm_insert ?h ?a (unexpired now ?table) \<rparr>"
      have "?handle = (Ok (), map GetData expired @ [GetBlockTxn ?h (missing a)], ?node)"
        using holes(7) small \<open>b = a\<close> by (simp add: handle_cmpctblock_def Let_def hdr)
      moreover have "\<exists>node''. handle_blocktxn_fill ?h txs ws ?node = (Ok (), node'')
          \<and> queued_blocks node'' = queued_blocks node @ [(blk, W)] \<and> hm_get (pending_compact node'') ?h = None"
        using f(2,3) by (simp add: handle_blocktxn_fill_def Let_def update_conv' delete_conv' queue_completed_compact_def)
      ultimately show ?thesis using f(1) by fastforce
    qed
  qed
qed

lemma demo_holes:
  assumes "handle_cmpctblock demo demo_compact 0 new_mempool demo_compact_block idle_node = (Ok (), requests, node)"
  shows "GetBlockTxn (wire_block_hash demo (blk_header (demo_block 1 [1, 2]))) [1] \<in> set requests"
proof -
  let ?cb = "demo_compact_block"
  let ?tx = "\<lambda>i. block_txs (demo_block 1 [1, 2]) ! i"
  have cb: "cb_header ?cb = blk_header (demo_block 1 [1, 2])" "prefilled_txs ?cb = [(0, ?tx 0, None)]"
    "short_ids ?cb = [calculate_short_tx_id demo demo_compact (blk_header (demo_block 1 [1, 2])) (calculate_wtxid demo (?tx 1) (Some [])) 0]"
    by (simp_all add: demo_compact_block_def create_compact_block_with_witnesses_def Let_def demo_block_def
        prefilled_witness_def list_get_def)
  have pool: "transactions_for_short_ids demo demo_compact new_mempool header salt ids = []" for header salt ids
    by (simp add: transactions_for_short_ids_def)
  have free: "next_free [0] 0 = 1" by (simp add: next_free.simps)
  obtain a where a: "begin_compact_assembly demo demo_compact 0 ?cb [] = Ok a" "missing a = [1]"
    "slots a = [Some (?tx 0, None), None]" "short_id_bytes a = 6"
    by (simp add: begin_compact_assembly_def reconstruct_block_def cb Let_def first_by_short_def by_short_def free hm_get_or_def)
  have "assembly_retained_bytes demo demo_compact a \<le> MAX_PENDING_COMPACT_BYTES"
    by (simp add: assembly_retained_bytes_def a serialized_slot_bytes_def demo_api demo_block_def demo_compact_def
        header_codec.extend_def MAX_PENDING_COMPACT_BYTES_def)
  then show ?thesis
    using assms a
    by (auto simp: handle_cmpctblock_def stage_compact_block_def decide_compact_block_def Let_def pool cb idle_node_def
        MAX_COMPACT_BLOCK_TXS_def MAX_COMPACT_MISSING_def MAX_PENDING_COMPACT_def keep_started_def)
qed

theorem compact_relay_roundtrip_witness:
  "\<exists>requests node' txs ws node''.
     handle_cmpctblock demo demo_compact 0 new_mempool demo_compact_block idle_node = (Ok (), requests, node')
     \<and> handle_getblocktxn (Some (demo_block 1 [1, 2])) (Some [[], []]) [1] = Ok (Some (txs, ws))
     \<and> handle_blocktxn_fill (wire_block_hash demo (blk_header (demo_block 1 [1, 2]))) txs ws node' = (Ok (), node'')
     \<and> queued_blocks node'' = [(demo_block 1 [1, 2], [[], []])]"
proof -
  have "pool_no_false_match demo demo_compact (demo_block 1 [1, 2]) 0 [[], []] new_mempool"
    by (simp add: pool_no_false_match_def)
  from compact_relay_roundtrip [OF demo_relay(1) this, of 0 "[0]" idle_node, folded demo_compact_block_def]
  obtain requests node' where
    "handle_cmpctblock demo demo_compact 0 new_mempool demo_compact_block idle_node = (Ok (), requests, node')"
    "\<forall>indices. GetBlockTxn (wire_block_hash demo (blk_header (demo_block 1 [1, 2]))) indices \<in> set requests \<longrightarrow>
         (\<exists>txs ws node''. handle_getblocktxn (Some (demo_block 1 [1, 2])) (Some [[], []]) indices = Ok (Some (txs, ws))
            \<and> handle_blocktxn_fill (wire_block_hash demo (blk_header (demo_block 1 [1, 2]))) txs ws node' = (Ok (), node'')
            \<and> queued_blocks node'' = queued_blocks idle_node @ [(demo_block 1 [1, 2], [[], []])]
            \<and> hm_get (pending_compact node'') (wire_block_hash demo (blk_header (demo_block 1 [1, 2]))) = None)"
    by (elim exE conjE) (rule that)
  with demo_holes [of requests node'] show ?thesis by (fastforce simp: idle_node_def)
qed

text \<open>
  C12. The memory of compact relay stays bounded whatever the peers send: in every reachable state at most four
  assemblies are pending, they retain at most eight mebibytes, and each waits for at least one and at most 128
  positions, every one of them below 65536, so that the request can be written.
\<close>

theorem pending_bounded:
  assumes "(compact_step P C)\<^sup>*\<^sup>* \<lparr> pending_compact = [], queued_blocks = [] \<rparr> node"
  shows "length (pending_compact node) \<le> 4
    \<and> (\<Sum>(h, a)\<leftarrow>pending_compact node. assembly_retained_bytes P C a) \<le> 8 * 1024 * 1024
    \<and> (\<forall>(h, a)\<in>set (pending_compact node). missing a \<noteq> [] \<and> length (missing a) \<le> 128 \<and> (\<forall>i\<in>set (missing a). i < 2 ^ 16))"
  using compact_reach_inv [OF assms]
  by (simp add: pending_inv_def MAX_PENDING_COMPACT_def MAX_PENDING_COMPACT_BYTES_def MAX_COMPACT_MISSING_def)

theorem pending_bounded_witness:
  "length (pending_compact (snd (snd (handle_cmpctblock demo demo_compact 0 demo_pool_second demo_compact_block idle_node)))) \<le> 4"
proof -
  have "compact_step demo demo_compact idle_node
      (snd (snd (handle_cmpctblock demo demo_compact 0 demo_pool_second demo_compact_block idle_node)))"
    by (rule compact_step.announced_block)
  from pending_bounded [OF r_into_rtranclp [of "compact_step demo demo_compact", OF this [unfolded idle_node_def]]]
  show ?thesis by (simp add: idle_node_def)
qed

text \<open>
  C39. A \<^verbatim>\<open>blocktxn\<close> with another number of transactions than were asked for, from whichever peer, discards the
  assembly: the handler reports an error, the block is no longer pending, nothing is queued and no request is sent.
\<close>

theorem wrong_blocktxn_discards:
  assumes "hm_get (pending_compact node) h = Some a" "length txs \<noteq> length (missing a)"
  shows "\<exists>e. handle_blocktxn_fill h txs wits node = (Err e, node \<lparr> pending_compact := hm_remove h (pending_compact node) \<rparr>)
    \<and> hm_get (hm_remove h (pending_compact node)) h = None"
  using assms by (simp add: handle_blocktxn_fill_def apply_blocktxn_def Let_def delete_conv')

theorem wrong_blocktxn_discards_witness:
  "\<exists>e. fst (handle_blocktxn_fill 5 [] None (idle_node \<lparr> pending_compact := [(5, demo_assembly)] \<rparr>)) = Err e"
  using wrong_blocktxn_discards [of "idle_node \<lparr> pending_compact := [(5, demo_assembly)] \<rparr>" 5 demo_assembly "[]" None]
  by (auto simp: demo_assembly_def)

end
