(* ===== verification/Block_Links.thy ===== *)
theory Block_Links
  imports Main
begin

text \<open>
  Parent links between blocks, as the block index and the reorganisation follow them: a block has a height and the
  identifier of its parent. The locale \<open>block_links\<close> is what the walks over the links rely on: in a well-formed store
  a block above height zero has a parent one lower, and a block at height zero has none.
\<close>

fun ancestor :: "('h \<Rightarrow> (nat \<times> 'h) option) \<Rightarrow> nat \<Rightarrow> 'h \<Rightarrow> 'h option" where
  "ancestor link 0 h = Some h"
| "ancestor link (Suc k) h = (case link h of None \<Rightarrow> None | Some (n, p) \<Rightarrow> ancestor link k p)"

lemma ancestor_add: "ancestor link (j + k) h = Option.bind (ancestor link j h) (ancestor link k)"
  by (induction j arbitrary: h) (auto split: option.split)

lemma ancestor_Suc_last: "ancestor link k h = Some g \<Longrightarrow> link g = Some (n, p) \<Longrightarrow> ancestor link (Suc k) h = Some p"
  using ancestor_add [of link k 1 h] by simp

locale block_links =
  fixes link :: "'s \<Rightarrow> 'h \<Rightarrow> (nat \<times> 'h) option"
    and wf :: "'s \<Rightarrow> bool"
  assumes parent_below: "wf s \<Longrightarrow> link s h = Some (Suc n, p) \<Longrightarrow> \<exists>q. link s p = Some (n, q)"
    and no_parent: "wf s \<Longrightarrow> link s h = Some (0, p) \<Longrightarrow> link s p = None"
begin

lemma ancestor_height:
  assumes "wf s" "link s h = Some (n, p)" "k \<le> n"
  shows "\<exists>g q. ancestor (link s) k h = Some g \<and> link s g = Some (n - k, q)"
  using assms(2,3)
proof (induction k arbitrary: h n p)
  case 0
  then show ?case by simp
next
  case (Suc k)
  then obtain n' where n: "n = Suc n'" by (cases n) auto
  obtain q where "link s p = Some (n', q)" using parent_below [OF assms(1)] Suc.prems n by metis
  then show ?case using Suc.IH [of p n' q] Suc.prems n by simp
qed

lemma ancestor_above:
  assumes "wf s" "link s h = Some (n, p)"
  shows "\<exists>g. ancestor (link s) (Suc n) h = Some g \<and> link s g = None"
proof -
  obtain g q where g: "ancestor (link s) n h = Some g" "link s g = Some (0, q)"
    using ancestor_height [OF assms, of n] by auto
  then have "ancestor (link s) (Suc n) h = Some q" by (rule ancestor_Suc_last)
  with no_parent [OF assms(1) g(2)] show ?thesis by simp
qed

lemma ancestor_beyond:
  assumes "wf s" "link s h = Some (n, p)" "Suc n < k"
  shows "ancestor (link s) k h = None"
proof -
  obtain g where "ancestor (link s) (Suc n) h = Some g" "link s g = None" using ancestor_above assms(1,2) by metis
  moreover obtain m where "k = Suc n + Suc m" using less_imp_Suc_add [OF assms(3)] by auto
  ultimately show ?thesis by (simp only: ancestor_add) simp
qed

lemma ancestor_indexed:
  assumes "wf s" "link s h = Some (n, p)" "ancestor (link s) k h = Some g" "link s g = Some (m, q)"
  shows "k \<le> n \<and> m = n - k"
proof (cases "k \<le> n")
  case True
  with ancestor_height [OF assms(1,2) True] assms(3,4) show ?thesis by auto
next
  case False
  with ancestor_above [OF assms(1,2)] ancestor_beyond [OF assms(1,2), of k] assms(3,4) show ?thesis
    by (cases "k = Suc n") auto
qed

text \<open>The blocks of a chain are different from each other.\<close>

lemma ancestor_inject:
  assumes "wf s" "link s h = Some (n, p)" "ancestor (link s) k h = Some g" "ancestor (link s) l h = Some g"
  shows "k = l"
proof (cases "link s g")
  case None
  have "k = Suc n" if a: "ancestor (link s) k h = Some g" for k
  proof (rule ccontr)
    assume "k \<noteq> Suc n"
    then consider "k \<le> n" | "Suc n < k" by linarith
    then show False
      using a None ancestor_height [OF assms(1,2), of k] ancestor_beyond [OF assms(1,2), of k] by cases auto
  qed
  from this [OF assms(3)] this [OF assms(4)] show ?thesis by simp
next
  case (Some r)
  obtain m q where "r = (m, q)" by (cases r)
  with Some have "link s g = Some (m, q)" by simp
  from ancestor_indexed [OF assms(1,2,3) this] ancestor_indexed [OF assms(1,2,4) this] show ?thesis by arith
qed

text \<open>Below a common block two chains are one.\<close>

lemma ancestor_common:
  assumes "ancestor (link s) i a = Some f" "ancestor (link s) j b = Some f"
  shows "ancestor (link s) (i + k) a = ancestor (link s) (j + k) b"
  using assms by (simp add: ancestor_add)

end

end
