(* ===== verification/Block_Index.thy ===== *)
theory Block_Index
  imports Kv_Store Block_Links
begin

text \<open>
  The index of blocks by hash, \<^verbatim>\<open>storage/block_index.rs\<close>: the tree of rows with the sequence counter among them, the
  enumeration of chain tips and the length of a branch. The rows are written by the bincode crate, which is the
  parameter \<open>C\<close>; what a theorem relies on is that a row is read back as it was written.
\<close>


section \<open>Data\<close>

datatype block_index_status = Valid | Invalid

record block_index_entry =
  idx_height :: u64
  idx_prev_hash :: hash
  idx_status :: block_index_status
  sequence_id :: u64

record index_codec =
  ser_entry :: "block_index_entry \<Rightarrow> byte_string"
  de_entry :: "byte_string \<Rightarrow> (block_index_entry, string) result"

record prepared_index =
  prepared_entry :: byte_string
  prepared_counter :: "byte_string option"

definition SEQUENCE_COUNTER_KEY :: byte_string where
  "SEQUENCE_COUNTER_KEY = replicate 32 0xff"


section \<open>Operations\<close>

definition index_get :: "'c index_codec_scheme \<Rightarrow> hash \<Rightarrow> kv_tree \<Rightarrow> (block_index_entry option, string) result" where
  "index_get C h t =
     (case hm_get t (hash_le h) of
        Some data \<Rightarrow> (case de_entry C data of Err e \<Rightarrow> Err e | Ok entry \<Rightarrow> Ok (Some entry))
      | None \<Rightarrow> Ok None)"

definition sequence_counter :: "kv_tree \<Rightarrow> u64" where
  "sequence_counter t =
     (case hm_get t SEQUENCE_COUNTER_KEY of
        Some bytes \<Rightarrow> if length bytes \<ge> 8 then u64_of_be (take 8 bytes) else 0
      | None \<Rightarrow> 0)"

definition peek_next_sequence_id :: "kv_tree \<Rightarrow> u64" where
  "peek_next_sequence_id t = saturating_add (sequence_counter t) 1"

definition serialized_with_status ::
  "'c index_codec_scheme \<Rightarrow> hash \<Rightarrow> block_index_status \<Rightarrow> bool \<Rightarrow> kv_tree \<Rightarrow> (byte_string option, string) result" where
  "serialized_with_status C h status only_if_different t =
     (case index_get C h t of
        Err e \<Rightarrow> Err e
      | Ok None \<Rightarrow> Ok None
      | Ok (Some entry) \<Rightarrow>
          if only_if_different \<and> idx_status entry = status then Ok None
          else Ok (Some (ser_entry C (entry \<lparr> idx_status := status \<rparr>))))"

definition prepare_insert ::
  "'c index_codec_scheme \<Rightarrow> hash \<Rightarrow> u64 \<Rightarrow> hash \<Rightarrow> block_index_status \<Rightarrow> kv_tree \<Rightarrow> (prepared_index, string) result" where
  "prepare_insert C h height prev status t =
     (case index_get C h t of
        Err e \<Rightarrow> Err e
      | Ok found \<Rightarrow>
          let (seq, counter) = (case found of
                Some existing \<Rightarrow> (sequence_id existing, None)
              | None \<Rightarrow> (let next = peek_next_sequence_id t in (next, Some (u64_be next))));
              entry = \<lparr> idx_height = height, idx_prev_hash = prev, idx_status = status, sequence_id = seq \<rparr>
          in Ok \<lparr> prepared_entry = ser_entry C entry, prepared_counter = counter \<rparr>)"

definition index_writes :: "hash \<Rightarrow> prepared_index \<Rightarrow> (byte_string \<times> byte_string option) list" where
  "index_writes h prepared =
     (hash_le h, Some (prepared_entry prepared))
     # (case prepared_counter prepared of None \<Rightarrow> [] | Some counter \<Rightarrow> [(SEQUENCE_COUNTER_KEY, Some counter)])"

definition index_insert ::
  "'c index_codec_scheme \<Rightarrow> hash \<Rightarrow> u64 \<Rightarrow> hash \<Rightarrow> block_index_status \<Rightarrow> kv_tree \<Rightarrow> (kv_tree, string) result" where
  "index_insert C h height prev status t =
     (case prepare_insert C h height prev status t of
        Err e \<Rightarrow> Err e
      | Ok prepared \<Rightarrow>
          Ok (commit_keyed (\<lambda>_ change tree. change tree)
                (map (\<lambda>(key, row). ((), key, row)) (index_writes h prepared)) t))"

definition batch_rows :: "'c index_codec_scheme \<Rightarrow> u64 \<Rightarrow> (hash \<times> u64 \<times> hash) list \<Rightarrow> (byte_string \<times> byte_string option) list" where
  "batch_rows C base_seq entries =
     map (\<lambda>(i, h, height, prev).
         (hash_le h, Some (ser_entry C \<lparr> idx_height = height, idx_prev_hash = prev, idx_status = Valid,
                                         sequence_id = saturating_add base_seq (of_nat i + 1) \<rparr>)))
       (enumerate 0 entries)"

definition insert_ibd_batch :: "'c index_codec_scheme \<Rightarrow> (hash \<times> u64 \<times> hash) list \<Rightarrow> kv_tree \<Rightarrow> kv_tree" where
  "insert_ibd_batch C entries t =
     (if entries = [] then t
      else
        let base_seq = sequence_counter t;
            next_seq = saturating_add base_seq (of_nat (length entries))
        in batch_commit (batch_rows C base_seq entries @ [(SEQUENCE_COUNTER_KEY, Some (u64_be next_seq))]) t)"

definition index_mark_invalid :: "'c index_codec_scheme \<Rightarrow> hash \<Rightarrow> kv_tree \<Rightarrow> (kv_tree, string) result" where
  "index_mark_invalid C h t =
     (case index_get C h t of
        Err e \<Rightarrow> Err e
      | Ok None \<Rightarrow> Ok t
      | Ok (Some entry) \<Rightarrow> Ok (hm_insert (hash_le h) (ser_entry C (entry \<lparr> idx_status := Invalid \<rparr>)) t))"

definition clear_invalid_status :: "'c index_codec_scheme \<Rightarrow> hash \<Rightarrow> kv_tree \<Rightarrow> (kv_tree, string) result" where
  "clear_invalid_status C h t =
     (case index_get C h t of
        Err e \<Rightarrow> Err e
      | Ok None \<Rightarrow> Ok t
      | Ok (Some entry) \<Rightarrow>
          if idx_status entry = Invalid
          then Ok (hm_insert (hash_le h) (ser_entry C (entry \<lparr> idx_status := Valid \<rparr>)) t)
          else Ok t)"

definition index_reset :: "kv_tree \<Rightarrow> kv_tree" where
  "index_reset t = []"

fun index_rows :: "'c index_codec_scheme \<Rightarrow> (byte_string \<times> byte_string) list \<Rightarrow> ((hash \<times> block_index_entry) list, string) result" where
  "index_rows C [] = Ok []"
| "index_rows C ((key, data) # rows) =
     (if key = SEQUENCE_COUNTER_KEY \<or> length key \<noteq> 32 then index_rows C rows
      else case de_entry C data of
        Err e \<Rightarrow> Err e
      | Ok entry \<Rightarrow>
          (case index_rows C rows of Err e \<Rightarrow> Err e | Ok all \<Rightarrow> Ok ((hash_of_bytes key, entry) # all)))"

definition chain_tips :: "'c index_codec_scheme \<Rightarrow> kv_tree \<Rightarrow> ((hash \<times> block_index_entry) list, string) result" where
  "chain_tips C t =
     (case index_rows C t of
        Err e \<Rightarrow> Err e
      | Ok all \<Rightarrow>
          let referenced_as_parent = map (\<lambda>(_, entry). idx_prev_hash entry) all
          in Ok (filter (\<lambda>(h, _). h \<notin> set referenced_as_parent) all))"

text \<open>Both walks stop at a block seen before; there are finitely many hashes.\<close>

lemma unseen_decreases: "(h :: hash) \<notin> set seen \<Longrightarrow> card (- set (hs_insert h seen)) < card (- set seen)"
  by (rule psubset_card_mono) auto

function ancestors_loop ::
  "'c index_codec_scheme \<Rightarrow> kv_tree \<Rightarrow> hash hset \<Rightarrow> hash hset \<Rightarrow> hash \<Rightarrow> (hash hset, string) result" where
  "ancestors_loop C t visited found current =
     (if current \<in> set visited then Ok found
      else
        let visited1 = hs_insert current visited; found1 = hs_insert current found in
        case index_get C current t of
          Err e \<Rightarrow> Err e
        | Ok None \<Rightarrow> Ok found1
        | Ok (Some entry) \<Rightarrow>
            if length found1 > 10000 then Ok found1
            else ancestors_loop C t visited1 found1 (idx_prev_hash entry))"
  by pat_completeness auto
termination
  by (relation "measure (\<lambda>(C, t, visited, found, current). card (- set visited))")
    (simp, simp only: in_measure case_prod_conv unseen_decreases not_False_eq_True)

definition ancestors_of :: "'c index_codec_scheme \<Rightarrow> kv_tree \<Rightarrow> hash \<Rightarrow> (hash hset, string) result" where
  "ancestors_of C t tip = ancestors_loop C t [] [] tip"

function branch_loop ::
  "'c index_codec_scheme \<Rightarrow> kv_tree \<Rightarrow> hash hset \<Rightarrow> hash hset \<Rightarrow> nat \<Rightarrow> hash \<Rightarrow> (nat, string) result" where
  "branch_loop C t active_chain visited len current =
     (if current \<in> set active_chain then Ok len
      else if current \<in> set visited then Ok len
      else case index_get C current t of
          Err e \<Rightarrow> Err e
        | Ok None \<Rightarrow> Ok len
        | Ok (Some entry) \<Rightarrow>
            if len + 1 > 10000 then Ok (len + 1)
            else branch_loop C t active_chain (hs_insert current visited) (len + 1) (idx_prev_hash entry))"
  by pat_completeness auto
termination
  by (relation "measure (\<lambda>(C, t, active_chain, visited, len, current). card (- set visited))")
    (simp, simp only: in_measure case_prod_conv unseen_decreases not_False_eq_True)

definition branch_length :: "'c index_codec_scheme \<Rightarrow> kv_tree \<Rightarrow> hash \<Rightarrow> hash \<Rightarrow> (u64, string) result" where
  "branch_length C t tip active_tip =
     (if tip = active_tip then Ok 0
      else case ancestors_of C t active_tip of
        Err e \<Rightarrow> Err e
      | Ok active_chain \<Rightarrow>
          (case branch_loop C t active_chain [] 0 tip of Err e \<Rightarrow> Err e | Ok len \<Rightarrow> Ok (of_nat len)))"

declare ancestors_loop.simps [simp del] branch_loop.simps [simp del]


section \<open>Rows\<close>

text \<open>What is documented of bincode: a value is read back from its bytes.\<close>

definition entries_roundtrip :: "'c index_codec_scheme \<Rightarrow> bool" where
  "entries_roundtrip C \<longleftrightarrow> (\<forall>e. de_entry C (ser_entry C e) = Ok e)"

definition is_block_key :: "hash \<Rightarrow> bool" where
  "is_block_key h \<longleftrightarrow> hash_le h \<noteq> SEQUENCE_COUNTER_KEY"

definition row_typed :: "'c index_codec_scheme \<Rightarrow> byte_string \<Rightarrow> byte_string \<Rightarrow> bool" where
  "row_typed C key row \<longleftrightarrow>
     (if key = SEQUENCE_COUNTER_KEY then length row = 8
      else key = hash_le (hash_of_bytes key) \<and> de_entry C row \<in> range Inr)"

definition index_typed :: "'c index_codec_scheme \<Rightarrow> kv_tree \<Rightarrow> bool" where
  "index_typed C t \<longleftrightarrow> hm_wf t \<and> (\<forall>key row. hm_get t key = Some row \<longrightarrow> row_typed C key row)"

definition index_sequenced :: "'c index_codec_scheme \<Rightarrow> kv_tree \<Rightarrow> bool" where
  "index_sequenced C t \<longleftrightarrow>
     (\<forall>h e. is_block_key h \<longrightarrow> index_get C h t = Ok (Some e) \<longrightarrow> sequence_id e \<le> sequence_counter t) \<and>
     (sequence_counter t \<noteq> - 1 \<longrightarrow>
       (\<forall>h h' e e'. is_block_key h \<longrightarrow> is_block_key h' \<longrightarrow> index_get C h t = Ok (Some e) \<longrightarrow>
          index_get C h' t = Ok (Some e') \<longrightarrow> sequence_id e = sequence_id e' \<longrightarrow> h = h'))"

inductive index_step :: "'c index_codec_scheme \<Rightarrow> kv_tree \<Rightarrow> kv_tree \<Rightarrow> bool" for C where
  insert: "index_step C t t'" if "is_block_key h" "index_insert C h height prev status t = Ok t'"
| batch: "index_step C t (insert_ibd_batch C entries t)"
    if "\<forall>(h, height, prev) \<in> set entries. is_block_key h" "length entries < 2 ^ 64"
| mark: "index_step C t t'" if "is_block_key h" "index_mark_invalid C h t = Ok t'"
| clear: "index_step C t t'" if "is_block_key h" "clear_invalid_status C h t = Ok t'"
| reset: "index_step C t (index_reset t)"

lemma index_get_write [simp]:
  "index_get C h (tree_write key row t) =
     (if hash_le h = key
      then (case row of Some data \<Rightarrow> (case de_entry C data of Err e \<Rightarrow> Err e | Ok entry \<Rightarrow> Ok (Some entry)) | None \<Rightarrow> Ok None)
      else index_get C h t)"
  by (simp add: index_get_def split: option.split)

lemma sequence_counter_write [simp]:
  "key \<noteq> SEQUENCE_COUNTER_KEY \<Longrightarrow> sequence_counter (tree_write key row t) = sequence_counter t"
  "sequence_counter (tree_write SEQUENCE_COUNTER_KEY (Some (u64_be n)) t) = n"
  by (simp_all add: sequence_counter_def)

lemma index_typed_write:
  assumes "index_typed C t" "row_typed C key data"
  shows "index_typed C (tree_write key (Some data) t)"
  using assms by (simp add: index_typed_def)

lemma insert_is_write: "hm_insert key data t = tree_write key (Some data) t"
  by (simp add: tree_write_def)

lemma index_typed_row: "index_typed C t \<Longrightarrow> hm_get t key = Some row \<Longrightarrow> row_typed C key row"
  by (simp add: index_typed_def)

lemma index_get_typed:
  assumes "index_typed C t" "is_block_key h"
  shows "\<exists>r. index_get C h t = Ok r"
proof (cases "hm_get t (hash_le h)")
  case None
  then show ?thesis by (simp add: index_get_def)
next
  case (Some row)
  then have "de_entry C row \<in> range Inr"
    using index_typed_row [OF assms(1) Some] assms(2) by (simp add: row_typed_def is_block_key_def)
  then obtain e where "de_entry C row = Ok e" by (rule rangeE)
  with Some show ?thesis by (simp add: index_get_def)
qed

lemma index_get_Nil [simp]: "index_get C h [] = Ok None" "sequence_counter [] = 0"
  by (simp_all add: index_get_def sequence_counter_def)

text \<open>The four single-row operations write one entry, the counter with it when the block is new.\<close>

lemma index_insert_cases:
  assumes "index_insert C h height prev status t = Ok t'"
  obtains (known) e where "index_get C h t = Ok (Some e)"
      "t' = tree_write (hash_le h) (Some (ser_entry C \<lparr> idx_height = height, idx_prev_hash = prev, idx_status = status,
              sequence_id = sequence_id e \<rparr>)) t"
  | (fresh) "index_get C h t = Ok None"
      "t' = tree_write SEQUENCE_COUNTER_KEY (Some (u64_be (peek_next_sequence_id t)))
              (tree_write (hash_le h) (Some (ser_entry C \<lparr> idx_height = height, idx_prev_hash = prev,
                 idx_status = status, sequence_id = peek_next_sequence_id t \<rparr>)) t)"
  using assms
  by (auto simp: index_insert_def prepare_insert_def index_writes_def Let_def split: sum.splits option.splits)

lemma mark_cases:
  assumes "index_mark_invalid C h t = Ok t'"
  obtains "t' = t" | e where "index_get C h t = Ok (Some e)"
    "t' = tree_write (hash_le h) (Some (ser_entry C (e \<lparr> idx_status := Invalid \<rparr>))) t"
  using assms unfolding index_mark_invalid_def insert_is_write
  by (cases "index_get C h t"; cases "projr (index_get C h t)") simp_all

lemma clear_cases:
  assumes "clear_invalid_status C h t = Ok t'"
  obtains "t' = t" | e where "index_get C h t = Ok (Some e)"
    "t' = tree_write (hash_le h) (Some (ser_entry C (e \<lparr> idx_status := Valid \<rparr>))) t"
  using assms unfolding clear_invalid_status_def insert_is_write
  by (cases "index_get C h t"; cases "projr (index_get C h t)") (simp_all split: if_splits)

lemma typed_row: "entries_roundtrip C \<Longrightarrow> is_block_key h \<Longrightarrow> index_typed C t
    \<Longrightarrow> index_typed C (tree_write (hash_le h) (Some (ser_entry C e)) t)"
  by (rule index_typed_write) (simp_all add: entries_roundtrip_def is_block_key_def row_typed_def)

lemma typed_counter: "index_typed C t \<Longrightarrow> index_typed C (tree_write SEQUENCE_COUNTER_KEY (Some (u64_be n)) t)"
  by (rule index_typed_write) (simp_all add: row_typed_def)

lemma typed_batch:
  assumes "entries_roundtrip C" "\<forall>(h, height, prev) \<in> set entries. is_block_key h" "index_typed C t"
  shows "index_typed C (batch_commit (batch_rows C base entries) t)"
  using assms(2,3)
proof (induction entries rule: rev_induct)
  case Nil
  then show ?case by (simp add: batch_rows_def)
next
  case (snoc x xs)
  obtain h height prev where x: "x = (h, height, prev)" by (cases x)
  with snoc show ?case by (auto simp: batch_rows_def enumerate_append_eq intro!: typed_row [OF assms(1)])
qed

lemma index_step_typed:
  assumes "index_step C t t'" "entries_roundtrip C" "index_typed C t"
  shows "index_typed C t'"
  using assms(1)
proof cases
  case (insert h height prev status)
  from insert(2) show ?thesis
    by (cases rule: index_insert_cases) (auto intro!: typed_row typed_counter assms insert)
next
  case (batch entries)
  show ?thesis
    using batch typed_batch [OF assms(2) batch(2) assms(3)] assms(3)
    by (auto simp: insert_ibd_batch_def Let_def intro: typed_counter)
next
  case (mark h)
  from mark(2) show ?thesis by (cases rule: mark_cases) (auto intro!: typed_row assms mark)
next
  case (clear h)
  from clear(2) show ?thesis by (cases rule: clear_cases) (auto intro!: typed_row assms clear)
next
  case reset
  then show ?thesis by (simp add: index_reset_def index_typed_def hm_wf_def)
qed


section \<open>Sequence ids\<close>

lemma sequenced_empty: "index_sequenced C []" "index_typed C []"
  by (simp_all add: index_sequenced_def index_typed_def hm_wf_def)

lemma sequencedD:
  assumes "index_sequenced C t" "is_block_key h" "index_get C h t = Ok (Some e)"
  shows "sequence_id e \<le> sequence_counter t"
    "is_block_key h' \<Longrightarrow> index_get C h' t = Ok (Some e') \<Longrightarrow> sequence_counter t \<noteq> - 1
      \<Longrightarrow> sequence_id e = sequence_id e' \<Longrightarrow> h = h'"
proof -
  note inv = assms(1) [unfolded index_sequenced_def]
  show "sequence_id e \<le> sequence_counter t" using conjunct1 [OF inv] assms(2,3) by simp
  show "h = h'" if "is_block_key h'" "index_get C h' t = Ok (Some e')" "sequence_counter t \<noteq> - 1"
    "sequence_id e = sequence_id e'"
    using conjunct2 [OF inv, rule_format, OF that(3) assms(2) that(1) assms(3) that(2,4)] .
qed

text \<open>A row that keeps its sequence id keeps the numbering.\<close>

lemma sequenced_keep:
  assumes "entries_roundtrip C" "index_sequenced C t" "is_block_key h" "index_get C h t = Ok (Some e)"
    and "sequence_id e' = sequence_id e"
  shows "index_sequenced C (tree_write (hash_le h) (Some (ser_entry C e')) t)"
proof -
  let ?t = "tree_write (hash_le h) (Some (ser_entry C e')) t"
  have seq: "\<exists>x. index_get C g t = Ok (Some x) \<and> sequence_id x = sequence_id y" if "index_get C g ?t = Ok (Some y)" for g y
    using that assms(1,4,5) by (auto simp: entries_roundtrip_def split: if_splits)
  have counter: "sequence_counter ?t = sequence_counter t" using assms(3) by (simp add: is_block_key_def)
  show ?thesis
    unfolding index_sequenced_def counter
  proof (intro conjI allI impI)
    fix g y assume "is_block_key g" "index_get C g ?t = Ok (Some y)"
    moreover obtain x where "index_get C g t = Ok (Some x)" "sequence_id x = sequence_id y" using seq calculation(2) by auto
    ultimately show "sequence_id y \<le> sequence_counter t" using sequencedD(1) [OF assms(2), of g x] by simp
  next
    fix g g' y y'
    assume *: "sequence_counter t \<noteq> - 1" "is_block_key g" "is_block_key g'" "index_get C g ?t = Ok (Some y)"
      "index_get C g' ?t = Ok (Some y')" "sequence_id y = sequence_id y'"
    from seq [OF *(4)] seq [OF *(5)] obtain x x' where "index_get C g t = Ok (Some x)" "sequence_id x = sequence_id y"
      "index_get C g' t = Ok (Some x')" "sequence_id x' = sequence_id y'" by auto
    with *(6) have "sequence_id x = sequence_id x'" by simp
    then show "g = g'" by (rule sequencedD(2) [OF assms(2) *(2) \<open>index_get C g t = Ok (Some x)\<close> *(3) \<open>index_get C g' t = Ok (Some x')\<close> *(1)])
  qed
qed

text \<open>New rows take ids above the counter, each its own.\<close>

lemma sequenced_extend:
  assumes "index_sequenced C t" "sequence_counter t \<le> sequence_counter t'"
    and new: "\<And>h e. is_block_key h \<Longrightarrow> index_get C h t' = Ok (Some e) \<Longrightarrow>
      index_get C h t = Ok (Some e) \<or> (h \<in> fresh \<and> sequence_id e \<le> sequence_counter t'
        \<and> (sequence_counter t' \<noteq> - 1 \<longrightarrow> sequence_counter t < sequence_id e))"
    and inj: "\<And>h h' e e'. h \<in> fresh \<Longrightarrow> h' \<in> fresh \<Longrightarrow> index_get C h t' = Ok (Some e) \<Longrightarrow>
      index_get C h' t' = Ok (Some e') \<Longrightarrow> sequence_counter t' \<noteq> - 1 \<Longrightarrow> sequence_id e = sequence_id e' \<Longrightarrow>
      sequence_counter t < sequence_id e \<Longrightarrow> h = h'"
  shows "index_sequenced C t'"
  unfolding index_sequenced_def
proof (intro conjI allI impI)
  fix h e assume "is_block_key h" "index_get C h t' = Ok (Some e)"
  with new [of h e] sequencedD(1) [OF assms(1), of h e] assms(2) show "sequence_id e \<le> sequence_counter t'"
    by (meson order_trans)
next
  fix h h' e e'
  assume *: "sequence_counter t' \<noteq> - 1" "is_block_key h" "is_block_key h'" "index_get C h t' = Ok (Some e)"
    "index_get C h' t' = Ok (Some e')" "sequence_id e = sequence_id e'"
  have c: "sequence_counter t \<noteq> - 1"
    using *(1) assms(2) by (auto simp: word_order.extremum_unique)
  consider "index_get C h t = Ok (Some e)" "index_get C h' t = Ok (Some e')"
    | "index_get C h t = Ok (Some e)" "sequence_counter t < sequence_id e'"
    | "index_get C h' t = Ok (Some e')" "sequence_counter t < sequence_id e"
    | "h \<in> fresh" "h' \<in> fresh" "sequence_counter t < sequence_id e"
    using new [OF *(2,4)] new [OF *(3,5)] *(1) by blast
  then show "h = h'"
  proof cases
    case 1
    then show ?thesis using sequencedD(2) [OF assms(1) *(2)] *(3,6) c by blast
  next
    case 2
    then show ?thesis using sequencedD(1) [OF assms(1) *(2)] *(6) by (metis linorder_not_less)
  next
    case 3
    then show ?thesis using sequencedD(1) [OF assms(1) *(3)] *(6) by (metis linorder_not_less)
  next
    case 4
    then show ?thesis using inj [OF 4(1,2) *(4,5) *(1,6)] by simp
  qed
qed


lemma unat_saturated: "saturating_add a b \<noteq> (- 1 :: u64) \<Longrightarrow> unat (saturating_add a b) = unat a + unat b"
  using unat_bound [of a] unat_max_word [where 'a = 64]
  by (auto simp: unat_saturating_add min_def word_unat_eq_iff split: if_splits)

lemma saturating_add_ge: "a \<le> saturating_add a (b :: u64)"
  using unat_bound [of a] by (simp add: word_le_nat_alt unat_saturating_add)

lemma sequenced_fresh:
  assumes "entries_roundtrip C" "index_sequenced C t" "is_block_key h" "index_get C h t = Ok None"
    and "sequence_id e = peek_next_sequence_id t"
  shows "index_sequenced C (tree_write SEQUENCE_COUNTER_KEY (Some (u64_be (peek_next_sequence_id t)))
           (tree_write (hash_le h) (Some (ser_entry C e)) t))" (is "index_sequenced C ?t")
proof (rule sequenced_extend [OF assms(2), where fresh = "{h}"])
  have c: "sequence_counter ?t = peek_next_sequence_id t" by simp
  show "sequence_counter t \<le> sequence_counter ?t"
    unfolding c by (simp add: peek_next_sequence_id_def saturating_add_ge)
  show "index_get C g t = Ok (Some x) \<or> (g \<in> {h} \<and> sequence_id x \<le> sequence_counter ?t
      \<and> (sequence_counter ?t \<noteq> - 1 \<longrightarrow> sequence_counter t < sequence_id x))"
    if "is_block_key g" "index_get C g ?t = Ok (Some x)" for g x
  proof (cases "g = h")
    case True
    then have "x = e" using that assms(1) by (simp add: is_block_key_def entries_roundtrip_def)
    then show ?thesis using True assms(5) unat_saturated [of "sequence_counter t" 1]
      by (simp add: c peek_next_sequence_id_def word_less_nat_alt)
  next
    case False
    with that show ?thesis by (simp add: is_block_key_def)
  qed
qed auto

lemma batch_row_get:
  assumes "entries_roundtrip C" "is_block_key h" "index_get C h (batch_commit (batch_rows C base entries) t) = Ok (Some e)"
  shows "index_get C h t = Ok (Some e)
    \<or> (\<exists>i < length entries. fst (entries ! i) = h \<and> sequence_id e = saturating_add base (of_nat i + 1))"
proof (cases "map_of (rev (batch_rows C base entries)) (hash_le h)")
  case None
  with assms(3) show ?thesis by (simp add: index_get_def get_batch_commit)
next
  case (Some row)
  then have "(hash_le h, row) \<in> set (batch_rows C base entries)" using map_of_SomeD by fastforce
  then obtain i g height prev where i: "(i, g, height, prev) \<in> set (enumerate 0 entries)" "hash_le g = hash_le h"
    "row = Some (ser_entry C \<lparr> idx_height = height, idx_prev_hash = prev, idx_status = Valid,
                              sequence_id = saturating_add base (of_nat i + 1) \<rparr>)"
    by (auto simp: batch_rows_def)
  from i(1) have "i < length entries" "entries ! i = (g, height, prev)" by (simp_all add: in_set_enumerate_eq)
  moreover have "sequence_id e = saturating_add base (of_nat i + 1)"
    using assms(1,3) Some i(3) by (auto simp: index_get_def get_batch_commit entries_roundtrip_def)
  ultimately show ?thesis using i(2) by auto
qed

lemma sequenced_batch:
  assumes "entries_roundtrip C" "index_sequenced C t" "length entries < 2 ^ 64" "entries \<noteq> []"
  shows "index_sequenced C (insert_ibd_batch C entries t)" (is "index_sequenced C ?t")
proof -
  let ?b = "sequence_counter t"
  let ?rows = "batch_commit (batch_rows C ?b entries) t"
  let ?n = "saturating_add ?b (of_nat (length entries))"
  have t: "?t = tree_write SEQUENCE_COUNTER_KEY (Some (u64_be ?n)) ?rows"
    using assms(4) by (simp add: insert_ibd_batch_def Let_def)
  have c: "sequence_counter ?t = ?n" by (simp add: t)
  have len: "unat (of_nat (length entries) :: u64) = length entries" using assms(3) by (simp add: unat_of_nat)
  have idx: "unat (of_nat i + 1 :: u64) = i + 1" if "i < length entries" for i
  proof -
    have "unat (of_nat (i + 1) :: u64) = i + 1"
      using that assms(3) by (simp add: unat_of_nat del: of_nat_Suc of_nat_add)
    then show ?thesis by (simp add: add.commute)
  qed
  have row: "index_get C h t = Ok (Some e) \<or> (\<exists>i < length entries. fst (entries ! i) = h \<and> sequence_id e = saturating_add ?b (of_nat i + 1))"
    if "is_block_key h" "index_get C h ?t = Ok (Some e)" for h e
    using that batch_row_get [OF assms(1), of h ?b entries t e] by (simp add: t is_block_key_def)
  have seq: "unat (saturating_add ?b (of_nat i + 1)) = unat ?b + i + 1" if "i < length entries" "?n \<noteq> - 1" for i
    using that idx [OF that(1)] len unat_saturated [OF that(2)] unat_bound [of ?n]
    by (simp add: unat_saturating_add)
  show ?thesis
  proof (rule sequenced_extend [OF assms(2), where fresh = "{h. is_block_key h}"])
    show "?b \<le> sequence_counter ?t" unfolding c by (rule saturating_add_ge)
  next
    fix h e assume *: "is_block_key h" "index_get C h ?t = Ok (Some e)"
    from row [OF *] show "index_get C h t = Ok (Some e) \<or> (h \<in> {h. is_block_key h}
      \<and> sequence_id e \<le> sequence_counter ?t \<and> (sequence_counter ?t \<noteq> - 1 \<longrightarrow> ?b < sequence_id e))"
    proof
      assume "\<exists>i < length entries. fst (entries ! i) = h \<and> sequence_id e = saturating_add ?b (of_nat i + 1)"
      then obtain i where i: "i < length entries" "sequence_id e = saturating_add ?b (of_nat i + 1)" by auto
      have "sequence_id e \<le> ?n"
        using i(1) idx [OF i(1)] len by (simp add: i(2) word_le_nat_alt unat_saturating_add min_def)
      moreover have "?b < sequence_id e" if "?n \<noteq> - 1"
        using seq [OF i(1) that] by (simp add: i(2) word_less_nat_alt)
      ultimately show ?thesis using * by (simp add: c)
    qed simp
  next
    fix h h' e e'
    assume *: "h \<in> {h. is_block_key h}" "h' \<in> {h. is_block_key h}" "index_get C h ?t = Ok (Some e)"
      "index_get C h' ?t = Ok (Some e')" "sequence_counter ?t \<noteq> - 1" "sequence_id e = sequence_id e'" "?b < sequence_id e"
    have pos: "\<exists>i < length entries. fst (entries ! i) = g \<and> sequence_id x = saturating_add ?b (of_nat i + 1)"
      if "is_block_key g" "index_get C g ?t = Ok (Some x)" "?b < sequence_id x" for g x
      using row [OF that(1,2)] sequencedD(1) [OF assms(2) that(1)] that(3) by fastforce
    from pos [of h e] * obtain i where i: "i < length entries" "fst (entries ! i) = h" "sequence_id e = saturating_add ?b (of_nat i + 1)"
      by auto
    from pos [of h' e'] * obtain i' where i': "i' < length entries" "fst (entries ! i') = h'" "sequence_id e' = saturating_add ?b (of_nat i' + 1)"
      by auto
    from *(5,6) have "unat (saturating_add ?b (of_nat i + 1)) = unat (saturating_add ?b (of_nat i' + 1))" using i(3) i'(3) by simp
    with *(5) have "i = i'" using seq [OF i(1)] seq [OF i'(1)] by (simp add: c)
    with i(2) i'(2) show "h = h'" by simp
  qed
qed

lemma index_step_sequenced:
  assumes "index_step C t t'" "entries_roundtrip C" "index_sequenced C t"
  shows "index_sequenced C t'"
  using assms(1)
proof cases
  case (insert h height prev status)
  from insert(2) show ?thesis
  proof (cases rule: index_insert_cases)
    case (known e)
    then show ?thesis using sequenced_keep [OF assms(2,3) insert(1) known(1)] by simp
  next
    case fresh
    then show ?thesis using sequenced_fresh [OF assms(2,3) insert(1) fresh(1)] by simp
  qed
next
  case (batch entries)
  then show ?thesis using sequenced_batch [OF assms(2,3) batch(3)] assms(3)
    by (cases "entries = []") (simp_all add: insert_ibd_batch_def)
next
  case (mark h)
  from mark(2) show ?thesis
    by (cases rule: mark_cases) (simp_all add: assms(3) sequenced_keep [OF assms(2,3) mark(1)])
next
  case (clear h)
  from clear(2) show ?thesis
    by (cases rule: clear_cases) (simp_all add: assms(3) sequenced_keep [OF assms(2,3) clear(1)])
next
  case reset
  then show ?thesis by (simp add: index_reset_def sequenced_empty)
qed

lemma index_steps_keep:
  assumes "(index_step C)\<^sup>*\<^sup>* [] t" "entries_roundtrip C"
  shows "index_typed C t \<and> index_sequenced C t"
  using assms(1)
  by (induction rule: rtranclp_induct)
    (simp_all add: sequenced_empty index_step_typed [OF _ assms(2)] index_step_sequenced [OF _ assms(2)])


section \<open>Chain tips\<close>

lemma index_rows_spec:
  assumes "\<forall>(key, row) \<in> set rows. row_typed C key row"
  shows "\<exists>all. index_rows C rows = Ok all \<and>
    (\<forall>h e. (h, e) \<in> set all \<longleftrightarrow> is_block_key h \<and> (\<exists>row. (hash_le h, row) \<in> set rows \<and> de_entry C row = Ok e))"
  using assms
proof (induction rows)
  case Nil
  then show ?case by simp
next
  case (Cons r rows)
  obtain key row where r: "r = (key, row)" by (cases r)
  obtain all where all: "index_rows C rows = Ok all" "\<forall>h e. (h, e) \<in> set all \<longleftrightarrow>
      is_block_key h \<and> (\<exists>row. (hash_le h, row) \<in> set rows \<and> de_entry C row = Ok e)"
    using Cons.IH Cons.prems by auto
  show ?case
  proof (cases "key = SEQUENCE_COUNTER_KEY")
    case True
    with all r show ?thesis by (auto simp: is_block_key_def)
  next
    case False
    then have k: "key = hash_le (hash_of_bytes key)" "de_entry C row \<in> range Inr"
      using Cons.prems r by (simp_all add: row_typed_def)
    then obtain e where e: "de_entry C row = Ok e" by auto
    define h where "h = hash_of_bytes key"
    have key: "key = hash_le h" using k(1) by (simp add: h_def)
    show ?thesis using all r e False by (auto simp: key is_block_key_def)
  qed
qed

lemma chain_tips_typed:
  assumes "index_typed C t"
  shows "\<exists>tips. chain_tips C t = Ok tips \<and>
    (\<forall>h e. (h, e) \<in> set tips \<longleftrightarrow>
       is_block_key h \<and> index_get C h t = Ok (Some e)
       \<and> (\<forall>g x. is_block_key g \<longrightarrow> index_get C g t = Ok (Some x) \<longrightarrow> idx_prev_hash x \<noteq> h))"
proof -
  have wf: "hm_wf t" and rows: "\<forall>(key, row) \<in> set t. row_typed C key row"
    using assms by (auto simp: index_typed_def hm.entries_get)
  obtain all where all: "index_rows C t = Ok all" "\<And>h e. (h, e) \<in> set all \<longleftrightarrow>
      is_block_key h \<and> (\<exists>row. (hash_le h, row) \<in> set t \<and> de_entry C row = Ok e)"
    using index_rows_spec [OF rows] by auto
  have mem: "(h, e) \<in> set all \<longleftrightarrow> is_block_key h \<and> index_get C h t = Ok (Some e)" for h e
    unfolding all(2) using wf by (auto simp: index_get_def hm.entries_get split: option.split sum.split)
  show ?thesis
    by (rule exI [of _ "filter (\<lambda>(h, _). h \<notin> set (map (\<lambda>(_, entry). idx_prev_hash entry) all)) all"])
      (auto simp: chain_tips_def all(1) mem)
qed


section \<open>Branches\<close>

definition index_link :: "'c index_codec_scheme \<Rightarrow> kv_tree \<Rightarrow> hash \<Rightarrow> (nat \<times> hash) option" where
  "index_link C t h =
     (case index_get C h t of Ok (Some e) \<Rightarrow> Some (unat (idx_height e), idx_prev_hash e) | _ \<Rightarrow> None)"

text \<open>Every indexed block above height zero has its parent indexed one lower, and only those.\<close>

definition index_linked :: "'c index_codec_scheme \<Rightarrow> kv_tree \<Rightarrow> bool" where
  "index_linked C t \<longleftrightarrow>
     (\<forall>h e. index_get C h t = Ok (Some e) \<longrightarrow>
        (case index_get C (idx_prev_hash e) t of
           Err _ \<Rightarrow> False
         | Ok None \<Rightarrow> idx_height e = 0
         | Ok (Some p) \<Rightarrow> unat (idx_height e) = Suc (unat (idx_height p))))"

lemma index_link_iff: "index_link C t h = Some (n, p) \<longleftrightarrow>
    (\<exists>e. index_get C h t = Ok (Some e) \<and> n = unat (idx_height e) \<and> p = idx_prev_hash e)"
  by (auto simp: index_link_def split: sum.split option.split)

lemma index_linkedD:
  assumes "index_linked C t" "index_get C h t = Ok (Some e)"
  shows "index_get C (idx_prev_hash e) t = Ok None \<and> idx_height e = 0
    \<or> (\<exists>p. index_get C (idx_prev_hash e) t = Ok (Some p) \<and> unat (idx_height e) = Suc (unat (idx_height p)))"
  using assms unfolding index_linked_def by (fastforce split: sum.splits option.splits)

interpretation index_links: block_links "index_link C" "index_linked C" for C
proof
  show "\<exists>q. index_link C s p = Some (n, q)" if w: "index_linked C s" and l: "index_link C s h = Some (Suc n, p)" for s h n p
  proof -
    obtain e where e: "index_get C h s = Ok (Some e)" "Suc n = unat (idx_height e)" "p = idx_prev_hash e"
      using l by (auto simp: index_link_iff)
    from index_linkedD [OF w e(1)] e(2,3) show ?thesis by (auto simp: index_link_iff)
  qed
  show "index_link C s p = None" if w: "index_linked C s" and l: "index_link C s h = Some (0, p)" for s h p
  proof -
    obtain e where e: "index_get C h s = Ok (Some e)" "0 = unat (idx_height e)" "p = idx_prev_hash e"
      using l by (auto simp: index_link_iff)
    from index_linkedD [OF w e(1)] e(2,3) show ?thesis by (auto simp: index_link_def)
  qed
qed

text \<open>The blocks from a block down to the parent of the lowest, which is not indexed.\<close>

lemma index_chain:
  assumes "index_linked C t" "index_link C t h = Some (n, p)"
  obtains A where "A 0 = h" "\<And>k. k \<le> Suc n \<Longrightarrow> ancestor (index_link C t) k h = Some (A k)"
    "\<And>k. k \<le> n \<Longrightarrow> \<exists>e. index_get C (A k) t = Ok (Some e) \<and> idx_prev_hash e = A (Suc k)"
    "index_get C (A (Suc n)) t = Ok None" "inj_on A {..Suc n}"
proof
  define A where "A k = the (ancestor (index_link C t) k h)" for k
  show A: "ancestor (index_link C t) k h = Some (A k)" if "k \<le> Suc n" for k
    using index_links.ancestor_height [OF assms, of k] index_links.ancestor_above [OF assms] that
    by (auto simp: A_def le_Suc_eq simp del: ancestor.simps)
  show "A 0 = h" by (simp add: A_def)
  have entry: "\<exists>e. index_get C (A k) t = Ok (Some e) \<and> idx_prev_hash e = A (Suc k) \<and> unat (idx_height e) = n - k"
    if k: "k \<le> n" for k
  proof -
    obtain g q where g: "ancestor (index_link C t) k h = Some g" "index_link C t g = Some (n - k, q)"
      using index_links.ancestor_height [OF assms k] by auto
    have "ancestor (index_link C t) (Suc k) h = Some q" by (rule ancestor_Suc_last [OF g])
    with A [of "Suc k"] A [of k] g k show ?thesis by (auto simp: index_link_iff simp del: ancestor.simps)
  qed
  then show "\<exists>e. index_get C (A k) t = Ok (Some e) \<and> idx_prev_hash e = A (Suc k)" if "k \<le> n" for k
    using that by blast
  obtain e where "index_get C (A n) t = Ok (Some e)" "idx_prev_hash e = A (Suc n)" "unat (idx_height e) = 0"
    using entry [of n] by auto
  with index_linkedD [OF assms(1), of "A n" e] show "index_get C (A (Suc n)) t = Ok None" by auto
  show "inj_on A {..Suc n}"
    by (rule inj_onI) (metis A atMost_iff index_links.ancestor_inject [OF assms])
qed


lemma ancestors_loop_spec:
  assumes entry: "\<And>k. k \<le> n \<Longrightarrow> \<exists>e. index_get C (A k) t = Ok (Some e) \<and> idx_prev_hash e = A (Suc k)"
    and last: "index_get C (A (Suc n)) t = Ok None" and inj: "inj_on A {..Suc n}"
    and "k \<le> Suc n" "k \<le> 10000" "set visited = A ` {..<k}" "set found = A ` {..<k}" "length found = k"
  shows "\<exists>all. ancestors_loop C t visited found (A k) = Ok all \<and> set all = A ` {..min 10000 (Suc n)}"
  using assms(4-)
proof (induction "Suc n - k" arbitrary: k visited found)
  case 0
  have new: "A (Suc n) \<notin> A ` {..<Suc n}" using inj by (fastforce dest: inj_onD)
  from 0 have k: "k = Suc n" by simp
  have "A ` {..<Suc n} \<union> {A (Suc n)} = A ` {..Suc n}" by (auto simp: le_less)
  then have "insert (A (Suc n)) (A ` {..<Suc n}) = A ` {..min 10000 (Suc n)}" using 0(3) k by (simp add: min_absorb2)
  with 0 new show ?case by (simp add: k ancestors_loop.simps last Let_def)
next
  case (Suc m)
  then have k: "k \<le> n" by simp
  obtain e where e: "index_get C (A k) t = Ok (Some e)" "idx_prev_hash e = A (Suc k)" using entry [OF k] by blast
  have new: "A k \<notin> A ` {..<k}" using inj k by (fastforce dest: inj_onD)
  have ins: "insert (A k) (A ` {..<k}) = A ` {..<Suc k}" by (simp add: lessThan_Suc)
  have len: "length (hs_insert (A k) found) = Suc k" using new Suc.prems by (simp add: hs_insert_def)
  show ?case
  proof (cases "k = 10000")
    case True
    have "A ` {..<Suc k} = A ` {..min 10000 (Suc n)}" unfolding lessThan_Suc_atMost using True k by simp
    with True new e len ins Suc.prems show ?thesis by (simp add: ancestors_loop.simps [of C t visited] Let_def)
  next
    case False
    have "\<exists>all. ancestors_loop C t (hs_insert (A k) visited) (hs_insert (A k) found) (A (Suc k)) = Ok all
        \<and> set all = A ` {..min 10000 (Suc n)}"
      using Suc.prems k False len ins by (intro Suc.hyps(1)) (use Suc.hyps(2) in simp_all)
    with False new e len Suc.prems show ?thesis by (simp add: ancestors_loop.simps [of C t visited] Let_def)
  qed
qed

lemma branch_loop_spec:
  assumes entry: "\<And>k. k \<le> n \<Longrightarrow> \<exists>e. index_get C (A k) t = Ok (Some e) \<and> idx_prev_hash e = A (Suc k)"
    and last: "index_get C (A (Suc n)) t = Ok None" and inj: "inj_on A {..Suc n}"
    and out: "\<And>m. m < i \<Longrightarrow> A m \<notin> set active" and stop: "i \<le> n \<Longrightarrow> A i \<in> set active" and i: "i \<le> Suc n"
    and "k \<le> i" "k \<le> 10000" "set visited = A ` {..<k}"
  shows "branch_loop C t active visited k (A k) = Ok (min i 10001)"
  using assms(7-)
proof (induction "i - k" arbitrary: k visited)
  case 0
  then have k: "k = i" by simp
  show ?case
  proof (cases "i \<le> n")
    case True
    with stop k 0 show ?thesis by (simp add: branch_loop.simps)
  next
    case False
    with i have "i = Suc n" by simp
    with k 0 last show ?thesis by (simp add: branch_loop.simps)
  qed
next
  case (Suc m)
  then have k: "k < i" "k \<le> n" using i by simp_all
  obtain e where e: "index_get C (A k) t = Ok (Some e)" "idx_prev_hash e = A (Suc k)" using entry [OF k(2)] by blast
  have new: "A k \<notin> A ` {..<k}" using inj k(2) by (fastforce dest: inj_onD)
  have ins: "insert (A k) (A ` {..<k}) = A ` {..<Suc k}" by (simp add: lessThan_Suc)
  show ?case
  proof (cases "k = 10000")
    case True
    with k new e out [OF k(1)] Suc.prems show ?thesis by (simp add: branch_loop.simps [of C t active visited])
  next
    case False
    have "branch_loop C t active (hs_insert (A k) visited) (Suc k) (A (Suc k)) = Ok (min i 10001)"
      using Suc.prems k False ins by (intro Suc.hyps(1)) (use Suc.hyps(2) in simp_all)
    with False new e out [OF k(1)] Suc.prems show ?thesis by (simp add: branch_loop.simps [of C t active visited])
  qed
qed

lemma branch_length_linked:
  assumes w: "index_linked C t" and tip: "index_link C t tip = Some (n, p)" and act: "index_link C t active = Some (m, q)"
    and fi: "ancestor (index_link C t) i tip = Some f" and fj: "ancestor (index_link C t) j active = Some f"
    and f: "index_link C t f \<noteq> None"
    and first: "\<forall>k < i. \<forall>l. ancestor (index_link C t) k tip \<noteq> ancestor (index_link C t) l active"
  shows "branch_length C t tip active =
    Ok (of_nat (if j \<le> 10000 then min i 10001 else min (n + 1) 10001))"
proof -
  obtain A where A: "A 0 = tip" "\<And>k. k \<le> Suc n \<Longrightarrow> ancestor (index_link C t) k tip = Some (A k)"
    "\<And>k. k \<le> n \<Longrightarrow> \<exists>e. index_get C (A k) t = Ok (Some e) \<and> idx_prev_hash e = A (Suc k)"
    "index_get C (A (Suc n)) t = Ok None" "inj_on A {..Suc n}" by (rule index_chain [OF w tip]) (rule that)
  obtain B where B: "B 0 = active" "\<And>k. k \<le> Suc m \<Longrightarrow> ancestor (index_link C t) k active = Some (B k)"
    "\<And>k. k \<le> m \<Longrightarrow> \<exists>e. index_get C (B k) t = Ok (Some e) \<and> idx_prev_hash e = B (Suc k)"
    "index_get C (B (Suc m)) t = Ok None" "inj_on B {..Suc m}" by (rule index_chain [OF w act]) (rule that)
  obtain r s where fr: "index_link C t f = Some (r, s)" using f by auto
  have ij: "i \<le> n" "j \<le> m" "n - i = m - j"
    using index_links.ancestor_indexed [OF w tip fi fr] index_links.ancestor_indexed [OF w act fj fr] by auto
  obtain all where all: "ancestors_of C t active = Ok all" "set all = B ` {..min 10000 (Suc m)}"
    using ancestors_loop_spec [of m C B t 0 "[]" "[]", OF B(3-5)] by (auto simp: ancestors_of_def B(1))
  have out: "A k \<notin> set all" if "k < i" for k
  proof
    assume "A k \<in> set all"
    then obtain l where "A k = B l" "l \<in> {..min 10000 (Suc m)}" unfolding all(2) by (rule imageE)
    moreover from this(2) have "l \<le> Suc m" by simp
    ultimately show False using A(2) [of k] B(2) [of l] first that ij(1) by (metis le_SucI less_imp_le order_trans)
  qed
  have same: "A (i + d) = B (j + d)" if "i + d \<le> Suc n" for d
    using index_links.ancestor_common [OF fi fj, of d] A(2) [of "i + d"] B(2) [of "j + d"] that ij by simp
  have loop: "branch_loop C t all [] 0 tip = Ok (if j \<le> 10000 then min i 10001 else min (n + 1) 10001)"
  proof (cases "j \<le> 10000")
    case True
    then have "A i \<in> set all" unfolding all(2) using same [of 0] ij by auto
    then show ?thesis using branch_loop_spec [of n C A t i all 0 "[]", OF A(3-5)] out ij True by (simp add: A(1))
  next
    case False
    have "A k \<notin> set all" if "k < Suc n" for k
    proof (cases "k < i")
      case True
      then show ?thesis by (rule out)
    next
      case deep: False
      have eq: "A k = B (j + (k - i))" using same [of "k - i"] deep that by simp
      show ?thesis
      proof
        assume "A k \<in> set all"
        then obtain l where "A k = B l" "l \<in> {..min 10000 (Suc m)}" unfolding all(2) by (rule imageE)
        then have l: "l \<le> min 10000 (Suc m)" "A k = B l" by simp_all
        with eq have "j + (k - i) = l" using inj_onD [OF B(5), of "j + (k - i)" l] that ij deep by simp
        with l(1) False show False by simp
      qed
    qed
    then show ?thesis using branch_loop_spec [of n C A t "Suc n" all 0 "[]", OF A(3-5)] False by (simp add: A(1))
  qed
  show ?thesis
  proof (cases "tip = active")
    case True
    then have "i = 0" using first by (metis neq0_conv)
    then have "f = tip" using fi by simp
    then have "j = 0" using index_links.ancestor_inject [OF w act fj, of 0] True by simp
    with \<open>i = 0\<close> True show ?thesis by (simp add: branch_length_def)
  next
    case False
    with loop all(1) show ?thesis by (simp add: branch_length_def)
  qed
qed


section \<open>An example\<close>

text \<open>The rows as bincode writes them: fixed-width little-endian integers, the variant of an enumeration in four bytes.\<close>

definition demo_index_codec :: index_codec where
  "demo_index_codec =
     \<lparr> ser_entry = (\<lambda>e. u64_le (idx_height e) @ hash_le (idx_prev_hash e)
         @ le_bytes 4 (case idx_status e of Valid \<Rightarrow> 0 | Invalid \<Rightarrow> 1) @ u64_le (sequence_id e)),
       de_entry = (\<lambda>bs. if length bs \<noteq> 52 then Err ''length''
         else Ok \<lparr> idx_height = u64_of (take 8 bs), idx_prev_hash = hash_of_bytes (slice bs 8 40),
                   idx_status = (if bs ! 40 = 0 then Valid else Invalid), sequence_id = u64_of (drop 44 bs) \<rparr>) \<rparr>"

lemma le_bytes_first: "0 < k \<Longrightarrow> le_bytes k n ! 0 = of_nat (n mod 256)" "0 < k \<Longrightarrow> hd (le_bytes k n) = of_nat (n mod 256)"
  by (cases k; simp)+

lemma demo_index_codec_roundtrip: "entries_roundtrip demo_index_codec"
  unfolding entries_roundtrip_def
proof
  fix e :: block_index_entry
  have "idx_status e = (if (le_bytes 4 (case idx_status e of Valid \<Rightarrow> 0 | Invalid \<Rightarrow> 1)) ! 0 = 0 then Valid else Invalid)"
    by (cases "idx_status e") (simp_all add: le_bytes_first)
  then show "de_entry demo_index_codec (ser_entry demo_index_codec e) = Ok e"
    by (simp add: demo_index_codec_def slice_def nth_append)
qed

lemma demo_de_entry [simp]:
  "de_entry demo_index_codec (ser_entry demo_index_codec e) = Ok e"
  "de_entry demo_index_codec (u64_be n) = Err ''length''"
  using demo_index_codec_roundtrip by (simp_all add: entries_roundtrip_def) (simp add: demo_index_codec_def)

lemma is_block_key_byte: "unat h mod 256 \<noteq> 255 \<Longrightarrow> is_block_key h"
proof -
  assume h: "unat h mod 256 \<noteq> 255"
  have "hd (hash_le h) = of_nat (unat h mod 256)" by (simp add: hash_le_def le_bytes_first)
  then have "unat (hd (hash_le h)) = unat h mod 256" by (simp add: unat_byte_of_nat)
  moreover have "unat (hd SEQUENCE_COUNTER_KEY) = 255" by (simp add: SEQUENCE_COUNTER_KEY_def)
  ultimately show ?thesis using h unfolding is_block_key_def by metis
qed

text \<open>A chain of three blocks and a rival of the third.\<close>

definition demo_rows :: "(hash \<times> u64 \<times> hash) list" where
  "demo_rows = [(1, 0, 0), (2, 1, 1), (3, 2, 2), (4, 2, 2)]"

definition demo_index :: kv_tree where
  "demo_index = insert_ibd_batch demo_index_codec demo_rows []"

lemma demo_keys: "is_block_key 1" "is_block_key 2" "is_block_key 3" "is_block_key 4" "is_block_key 0"
  by (rule is_block_key_byte, simp)+

lemma demo_index_steps: "(index_step demo_index_codec)\<^sup>*\<^sup>* [] demo_index"
  unfolding demo_index_def
  by (intro r_into_rtranclp index_step.batch) (simp_all add: demo_rows_def demo_keys)

lemma demo_index_get: "index_get demo_index_codec h demo_index =
    (if \<not> is_block_key h then Err ''length''
     else if h = 4 then Ok (Some \<lparr> idx_height = 2, idx_prev_hash = 2, idx_status = Valid, sequence_id = 4 \<rparr>)
     else if h = 3 then Ok (Some \<lparr> idx_height = 2, idx_prev_hash = 2, idx_status = Valid, sequence_id = 3 \<rparr>)
     else if h = 2 then Ok (Some \<lparr> idx_height = 1, idx_prev_hash = 1, idx_status = Valid, sequence_id = 2 \<rparr>)
     else if h = 1 then Ok (Some \<lparr> idx_height = 0, idx_prev_hash = 0, idx_status = Valid, sequence_id = 1 \<rparr>)
     else Ok None)"
  by (auto simp: demo_index_def demo_rows_def insert_ibd_batch_def batch_rows_def saturating_add_def is_block_key_def Let_def)

lemma demo_index_links:
  "index_linked demo_index_codec demo_index"
  "index_link demo_index_codec demo_index = [1 \<mapsto> (0, 0), 2 \<mapsto> (1, 1), 3 \<mapsto> (2, 2), 4 \<mapsto> (2, 2)]"
  subgoal using demo_keys unfolding index_linked_def by (simp add: demo_index_get)
  subgoal using demo_keys by (simp add: index_link_def demo_index_get fun_eq_iff)
  done


section \<open>Properties\<close>

text \<open>
  C18. Every row of the index can be read: in every state reached by inserting, batch-inserting, marking, unmarking and
  resetting, the lookup of a block never fails, and the enumeration of the tips succeeds with exactly the indexed
  blocks that no indexed block names as its parent. The sequence counter shares the tree with the rows, under a key
  that is not the hash of a block.
\<close>

theorem index_rows_decode:
  assumes "(index_step C)\<^sup>*\<^sup>* [] t" "entries_roundtrip C"
  shows "(\<forall>h. is_block_key h \<longrightarrow> (\<exists>found. index_get C h t = Ok found))
    \<and> (\<exists>tips. chain_tips C t = Ok tips \<and>
        (\<forall>h e. (h, e) \<in> set tips \<longleftrightarrow> is_block_key h \<and> index_get C h t = Ok (Some e)
           \<and> (\<forall>g x. is_block_key g \<longrightarrow> index_get C g t = Ok (Some x) \<longrightarrow> idx_prev_hash x \<noteq> h)))"
proof -
  have "index_typed C t" using index_steps_keep [OF assms] by simp
  then show ?thesis by (intro conjI chain_tips_typed allI impI index_get_typed)
qed

theorem index_rows_decode_witness:
  "\<exists>tips e. chain_tips demo_index_codec demo_index = Ok tips \<and> (3, e) \<in> set tips \<and> (\<forall>e. (2, e) \<notin> set tips)"
proof -
  from index_rows_decode [OF demo_index_steps demo_index_codec_roundtrip]
  obtain tips where tips: "chain_tips demo_index_codec demo_index = Ok tips"
    "\<forall>h e. (h, e) \<in> set tips \<longleftrightarrow> is_block_key h \<and> index_get demo_index_codec h demo_index = Ok (Some e)
       \<and> (\<forall>g x. is_block_key g \<longrightarrow> index_get demo_index_codec g demo_index = Ok (Some x) \<longrightarrow> idx_prev_hash x \<noteq> h)"
    by (elim conjE exE) (rule that)
  note mem = tips(2) [THEN spec, THEN spec]
  obtain x where x: "index_get demo_index_codec 3 demo_index = Ok (Some x)" "idx_prev_hash x = 2"
    using demo_keys(3) by (simp add: demo_index_get)
  have "idx_prev_hash y \<noteq> 3" if "index_get demo_index_codec g demo_index = Ok (Some y)" for g y
    using that unfolding demo_index_get by (auto split: if_splits)
  then have "(3, x) \<in> set tips" unfolding mem using x(1) demo_keys(3) by simp
  moreover have "(2, e) \<notin> set tips" for e unfolding mem using x demo_keys(3) by blast
  ultimately show ?thesis using tips(1) by auto
qed

text \<open>
  C16. The sequence ids number the blocks: in every reachable state whose counter is not exhausted, two blocks never
  share an id, and the next id is above every id given out, also when blocks are inserted again, marked, or written in
  batches.
\<close>

theorem sequence_ids_unique:
  assumes "(index_step C)\<^sup>*\<^sup>* [] t" "entries_roundtrip C" "sequence_counter t \<noteq> - 1"
    and "is_block_key h" "is_block_key h'" "index_get C h t = Ok (Some e)" "index_get C h' t = Ok (Some e')"
  shows "(sequence_id e = sequence_id e' \<longrightarrow> h = h') \<and> sequence_id e < peek_next_sequence_id t"
proof -
  have inv: "index_sequenced C t" using index_steps_keep [OF assms(1,2)] by simp
  have "unat (peek_next_sequence_id t) = unat (sequence_counter t) + 1"
    using assms(3) unat_max_word [where 'a = 64] unat_bound [of "sequence_counter t"]
    by (simp add: peek_next_sequence_id_def unat_saturating_add word_unat_eq_iff)
  moreover have "unat (sequence_id e) \<le> unat (sequence_counter t)"
    using sequencedD(1) [OF inv assms(4,6)] by (simp add: word_le_nat_alt)
  ultimately show ?thesis
    using sequencedD(2) [OF inv assms(4,6,5,7,3)] by (simp add: word_less_nat_alt)
qed

theorem sequence_ids_unique_witness:
  "\<exists>e e'. index_get demo_index_codec 3 demo_index = Ok (Some e) \<and> index_get demo_index_codec 4 demo_index = Ok (Some e')
     \<and> sequence_id e \<noteq> sequence_id e'"
proof -
  have "sequence_counter demo_index \<noteq> - 1"
    by (simp add: demo_index_def demo_rows_def insert_ibd_batch_def saturating_add_def)
  from sequence_ids_unique [OF demo_index_steps demo_index_codec_roundtrip this demo_keys(3,4)] demo_keys show ?thesis
    by (simp add: demo_index_get)
qed

text \<open>
  C21. The length of a branch, with its two limits of ten thousand blocks: on an index whose blocks are linked to their
  parents, a branch that leaves the active chain at most 10000 blocks below the active tip has the length counted from
  the fork, up to 10001. A branch that leaves it further down is counted past the fork to the lowest block, again up to
  10001, whatever its real length.
\<close>

theorem branch_length_spec:
  assumes "index_linked C t" "index_link C t tip = Some (n, p)" "index_link C t active = Some (m, q)"
    and "ancestor (index_link C t) i tip = Some f" "ancestor (index_link C t) j active = Some f"
    and "index_link C t f \<noteq> None"
    and "\<forall>k < i. \<forall>l. ancestor (index_link C t) k tip \<noteq> ancestor (index_link C t) l active"
  shows "branch_length C t tip active = Ok (of_nat (if j \<le> 10000 then min i 10001 else min (n + 1) 10001))"
  by (rule branch_length_linked [OF assms])

theorem branch_length_spec_witness: "branch_length demo_index_codec demo_index 4 3 = Ok 1"
proof -
  let ?l = "index_link demo_index_codec demo_index"
  have "ancestor ?l l 3 \<noteq> Some 4" for l
  proof
    assume *: "ancestor ?l l 3 = Some 4"
    have "?l 3 = Some (2, 2)" "?l 4 = Some (2, 2)" by (simp_all add: demo_index_links(2))
    from index_links.ancestor_indexed [OF demo_index_links(1) this(1) * this(2)] have "l = 0" by arith
    with * show False by simp
  qed
  then have "\<forall>k < 1. \<forall>l. ancestor ?l k 4 \<noteq> ancestor ?l l 3" by (metis ancestor.simps(1) less_one)
  moreover have "ancestor ?l 1 4 = Some 2" "ancestor ?l 1 3 = Some 2" "?l 4 = Some (2, 2)" "?l 3 = Some (2, 2)" "?l 2 \<noteq> None"
    by (simp_all add: demo_index_links(2))
  ultimately show ?thesis using branch_length_spec [OF demo_index_links(1), of 4 2 2 3 2 2 1 2 1] by simp
qed

end
