(* ===== verification/Chain_State.thy ===== *)
theory Chain_State
  imports Block_Index Merkle_Block
begin

text \<open>
  The chain state, \<^verbatim>\<open>storage/chainstate.rs\<close>: the record of the active tip, the work of the blocks, the marks of invalid
  blocks and the checkpoint labels of the initial download, all rows of key-value trees; and the fork choice of
  \<^verbatim>\<open>node/chain_selector.rs\<close> over them. Bincode, the proof of a compact target and the width of a MuHash state come from
  other crates and are fields of \<open>C\<close>.
\<close>

unbundle bit_operations_syntax


section \<open>Data\<close>

record chain_params =
  cp_network :: string
  cp_genesis_hash :: hash
  cp_max_target :: u64
  cp_subsidy_halving_interval :: u64

record chain_info =
  ci_tip_hash :: hash
  ci_tip_header :: block_header
  ci_height :: u64
  ci_total_work :: u64
  ci_chain_params :: chain_params

record utxo_stats =
  us_height :: u64
  us_txouts :: u64
  us_total_amount :: u128
  us_muhash :: byte_string
  us_transactions :: u64

type_synonym u256 = "256 word"

record chain_codec = index_codec +
  ser_info :: "chain_info \<Rightarrow> byte_string"
  de_info :: "byte_string \<Rightarrow> (chain_info, string) result"
  ser_stats :: "utxo_stats \<Rightarrow> byte_string"
  de_stats :: "byte_string \<Rightarrow> (utxo_stats, string) result"
  ser_tip :: "u64 \<times> u64 \<times> string \<Rightarrow> byte_string"
  de_tip :: "byte_string \<Rightarrow> (u64 \<times> u64 \<times> string, string) result"
  get_block_proof :: "u64 \<Rightarrow> (u256, string) result"
  HALVING_INTERVAL :: u64
  MUHASH_RUNNING_STATE_BYTES :: nat

record chain_state =
  chain_info_tree :: kv_tree
  work_cache :: kv_tree
  chainwork_cache :: kv_tree
  utxo_stats_cache :: kv_tree
  network_hashrate_cache :: kv_tree
  invalid_blocks :: kv_tree
  chain_tips_tree :: kv_tree
  block_index :: kv_tree

datatype chain_tree = Chain_Info | Work_Cache | Chainwork_Cache | Invalid_Blocks | Block_Index_Tree

fun at_tree :: "chain_tree \<Rightarrow> (kv_tree \<Rightarrow> kv_tree) \<Rightarrow> chain_state \<Rightarrow> chain_state" where
  "at_tree Chain_Info f cs = cs \<lparr> chain_info_tree := f (chain_info_tree cs) \<rparr>"
| "at_tree Work_Cache f cs = cs \<lparr> work_cache := f (work_cache cs) \<rparr>"
| "at_tree Chainwork_Cache f cs = cs \<lparr> chainwork_cache := f (chainwork_cache cs) \<rparr>"
| "at_tree Invalid_Blocks f cs = cs \<lparr> invalid_blocks := f (invalid_blocks cs) \<rparr>"
| "at_tree Block_Index_Tree f cs = cs \<lparr> block_index := f (block_index cs) \<rparr>"

definition new_chain_state :: chain_state where
  "new_chain_state = \<lparr> chain_info_tree = [], work_cache = [], chainwork_cache = [], utxo_stats_cache = [],
     network_hashrate_cache = [], invalid_blocks = [], chain_tips_tree = [], block_index = [] \<rparr>"

text \<open>A byte string literal.\<close>

definition ascii :: "string \<Rightarrow> byte_string" where
  "ascii s = map (\<lambda>c. of_nat (of_char c)) s"

lemma ascii_inject [simp]: "ascii a = ascii b \<longleftrightarrow> a = b"
proof -
  have "inj (\<lambda>c. of_nat (of_char c) :: u8)"
  proof (rule injI)
    fix c d :: char
    have "of_char x < (256 :: nat)" for x using nat_of_char_less_256 [of x] .
    moreover assume "(of_nat (of_char c) :: u8) = of_nat (of_char d)"
    ultimately have "(of_char c :: nat) = of_char d" by (metis unat_byte_of_nat)
    then show "c = d" by simp
  qed
  then show ?thesis by (simp add: ascii_def inj_map_eq_map)
qed


section \<open>The record of the tip\<close>

definition utxo_money_total :: "'a tx_api_scheme \<Rightarrow> int list \<Rightarrow> (u128, string) result" where
  "utxo_money_total P values =
     foldl (\<lambda>total amount. case total of
         Err e \<Rightarrow> Err e
       | Ok t \<Rightarrow> if \<not> (0 \<le> amount \<and> amount \<le> MAX_MONEY P) then Err ''UTXO value is outside the money range''
                 else Ok (saturating_add t (word_of_int amount))) (Ok 0) values"

definition default_chain_params :: "'c chain_codec_scheme \<Rightarrow> chain_params" where
  "default_chain_params C = \<lparr> cp_network = ''mainnet'', cp_genesis_hash = 0, cp_max_target = 0x00000000ffff0000,
     cp_subsidy_halving_interval = HALVING_INTERVAL C \<rparr>"

definition datadir_network_conflict :: "chain_info \<Rightarrow> string \<Rightarrow> hash \<Rightarrow> string option" where
  "datadir_network_conflict info running_name running_genesis =
     (let stored_genesis = cp_genesis_hash (ci_chain_params info); stored_name = cp_network (ci_chain_params info) in
      if stored_genesis \<noteq> 0 \<and> stored_genesis \<noteq> running_genesis
      then Some (''datadir genesis '' @ hash_to_rpc_hex stored_genesis @ '' ('' @ stored_name @ '') does not match ''
             @ running_name @ '' genesis '' @ hash_to_rpc_hex running_genesis)
      else if stored_genesis = 0 \<and> stored_name \<noteq> [] \<and> stored_name \<noteq> running_name
        \<and> \<not> (stored_name = ''BitcoinV1'' \<and> running_name = ''mainnet'' \<or> stored_name = ''mainnet'' \<and> running_name = ''BitcoinV1'')
      then Some (''datadir network '' @ stored_name @ '' does not match running network '' @ running_name)
      else None)"

definition consensus_network_from_stored_name :: "string \<Rightarrow> network" where
  "consensus_network_from_stored_name name =
     (if name = ''testnet'' \<or> name = ''testnet3'' then Testnet
      else if name = ''testnet4'' then Testnet4
      else if name = ''regtest'' then Regtest
      else if name = ''signet'' then Signet
      else Mainnet)"

definition calculate_hash :: "'a tx_api_scheme \<Rightarrow> block_header \<Rightarrow> hash" where
  "calculate_hash P header =
     double_sha256 P (le_bytes 4 (nat (hdr_version header mod 2 ^ 32)) @ hash_le (prev_block_hash header)
       @ hash_le (merkle_root header) @ le_bytes 4 (unat (timestamp header) mod 2 ^ 32)
       @ le_bytes 4 (unat (bits header) mod 2 ^ 32) @ le_bytes 4 (unat (nonce header) mod 2 ^ 32))"

definition store_chain_info :: "'c chain_codec_scheme \<Rightarrow> chain_info \<Rightarrow> chain_state \<Rightarrow> chain_state" where
  "store_chain_info C info cs =
     cs \<lparr> chain_info_tree := hm_insert (ascii ''current'') (ser_info C info) (chain_info_tree cs) \<rparr>"

definition load_chain_info :: "'c chain_codec_scheme \<Rightarrow> chain_state \<Rightarrow> (chain_info option, string) result" where
  "load_chain_info C cs =
     (case hm_get (chain_info_tree cs) (ascii ''current'') of
        Some data \<Rightarrow> (case de_info C data of Err e \<Rightarrow> Err e | Ok info \<Rightarrow> Ok (Some info))
      | None \<Rightarrow> Ok None)"

definition consensus_network :: "'c chain_codec_scheme \<Rightarrow> chain_state \<Rightarrow> (network, string) result" where
  "consensus_network C cs =
     (case load_chain_info C cs of
        Err e \<Rightarrow> Err e
      | Ok (Some info) \<Rightarrow> Ok (consensus_network_from_stored_name (cp_network (ci_chain_params info)))
      | Ok None \<Rightarrow> Ok Mainnet)"

definition get_height :: "'c chain_codec_scheme \<Rightarrow> chain_state \<Rightarrow> (u64 option, string) result" where
  "get_height C cs = (case load_chain_info C cs of Err e \<Rightarrow> Err e | Ok found \<Rightarrow> Ok (map_option ci_height found))"

definition get_tip_hash :: "'c chain_codec_scheme \<Rightarrow> chain_state \<Rightarrow> (hash option, string) result" where
  "get_tip_hash C cs = (case load_chain_info C cs of Err e \<Rightarrow> Err e | Ok found \<Rightarrow> Ok (map_option ci_tip_hash found))"

definition get_tip_hash_and_height :: "'c chain_codec_scheme \<Rightarrow> chain_state \<Rightarrow> (hash \<times> u64, string) result" where
  "get_tip_hash_and_height C cs =
     (case load_chain_info C cs of
        Err e \<Rightarrow> Err e
      | Ok (Some info) \<Rightarrow> Ok (ci_tip_hash info, ci_height info)
      | Ok None \<Rightarrow> Ok (0, 0))"

definition get_tip_header :: "'c chain_codec_scheme \<Rightarrow> chain_state \<Rightarrow> (block_header option, string) result" where
  "get_tip_header C cs = (case load_chain_info C cs of Err e \<Rightarrow> Err e | Ok found \<Rightarrow> Ok (map_option ci_tip_header found))"

definition is_initialized :: "chain_state \<Rightarrow> bool" where
  "is_initialized cs = (hm_get (chain_info_tree cs) (ascii ''current'') \<noteq> None)"

definition set_snapshot_tip ::
  "'a tx_api_scheme \<Rightarrow> 'c chain_codec_scheme \<Rightarrow> hash \<Rightarrow> u64 \<Rightarrow> block_header \<Rightarrow> chain_state \<Rightarrow> (chain_state, string) result" where
  "set_snapshot_tip P C block_hash height tip_header cs =
     (if calculate_hash P tip_header \<noteq> block_hash then Err ''snapshot header does not match the snapshot block hash''
      else case load_chain_info C cs of
        Err e \<Rightarrow> Err e
      | Ok found \<Rightarrow>
          let info = (case found of Some info \<Rightarrow> info
                | None \<Rightarrow> \<lparr> ci_tip_hash = block_hash, ci_tip_header = tip_header, ci_height = height, ci_total_work = 0,
                            ci_chain_params = default_chain_params C \<rparr>)
          in Ok (store_chain_info C
               (info \<lparr> ci_tip_hash := block_hash, ci_tip_header := tip_header, ci_height := height \<rparr>) cs))"


section \<open>Work\<close>

definition u256_be :: "u256 \<Rightarrow> byte_string" where
  "u256_be w = be_bytes 32 (unat w)"

definition decode_cached_work :: "byte_string \<Rightarrow> u256 option" where
  "decode_cached_work data =
     (if length data = 32 \<or> length data = 16 \<or> length data = 8 then Some (of_nat (from_be_bytes data)) else None)"

definition store_work :: "hash \<Rightarrow> u256 \<Rightarrow> chain_state \<Rightarrow> chain_state" where
  "store_work h w cs = cs \<lparr> work_cache := hm_insert (hash_le h) (u256_be w) (work_cache cs) \<rparr>"

definition get_work :: "hash \<Rightarrow> chain_state \<Rightarrow> u256 option" where
  "get_work h cs = Option.bind (hm_get (work_cache cs) (hash_le h)) decode_cached_work"

definition store_chainwork :: "hash \<Rightarrow> u256 \<Rightarrow> chain_state \<Rightarrow> chain_state" where
  "store_chainwork h w cs = cs \<lparr> chainwork_cache := hm_insert (hash_le h) (u256_be w) (chainwork_cache cs) \<rparr>"

definition get_chainwork :: "hash \<Rightarrow> chain_state \<Rightarrow> u256 option" where
  "get_chainwork h cs = Option.bind (hm_get (chainwork_cache cs) (hash_le h)) decode_cached_work"

definition calculate_total_work :: "chain_state \<Rightarrow> u64" where
  "calculate_total_work cs =
     foldl (\<lambda>total (_, data). case decode_cached_work data of
         Some work \<Rightarrow> saturating_add total (ucast work)
       | None \<Rightarrow> total) 0 (work_cache cs)"

definition calculate_work_from_bits :: "'c chain_codec_scheme \<Rightarrow> u64 \<Rightarrow> u256" where
  "calculate_work_from_bits C target = (case get_block_proof C target of Ok work \<Rightarrow> work | Err _ \<Rightarrow> 0)"

definition chainwork_for_header :: "'c chain_codec_scheme \<Rightarrow> block_header \<Rightarrow> u64 \<Rightarrow> chain_state \<Rightarrow> (u256, string) result" where
  "chainwork_for_header C header height cs =
     (let block_work = calculate_work_from_bits C (bits header) in
      if height > 0 then
        (case get_chainwork (prev_block_hash header) cs of
           Some prev \<Rightarrow> Ok (saturating_add prev block_work)
         | None \<Rightarrow> Err ''parent chainwork is absent'')
      else Ok (saturating_add 0 block_work))"

definition update_tip :: "'c chain_codec_scheme \<Rightarrow> hash \<Rightarrow> block_header \<Rightarrow> u64 \<Rightarrow> chain_state \<Rightarrow> (chain_state, string) result" where
  "update_tip C tip_hash tip_header height cs =
     (case prepare_insert C tip_hash height (prev_block_hash tip_header) Valid (block_index cs) of
        Err e \<Rightarrow> Err e
      | Ok prepared \<Rightarrow>
          (case chainwork_for_header C tip_header height cs of
             Err e \<Rightarrow> Err e
           | Ok chainwork \<Rightarrow>
               (case load_chain_info C cs of
                  Err e \<Rightarrow> Err e
                | Ok found \<Rightarrow>
                    let info = (case found of Some info \<Rightarrow> info
                          | None \<Rightarrow> \<lparr> ci_tip_hash = tip_hash, ci_tip_header = tip_header, ci_height = height,
                                      ci_total_work = 0, ci_chain_params = default_chain_params C \<rparr>);
                        info = info \<lparr> ci_tip_hash := tip_hash, ci_tip_header := tip_header, ci_height := height \<rparr>
                    in Ok (commit_keyed at_tree
                         (map (\<lambda>(key, row). (Block_Index_Tree, key, row)) (index_writes tip_hash prepared)
                          @ [(Work_Cache, hash_le tip_hash, Some (u256_be (calculate_work_from_bits C (bits tip_header)))),
                             (Chainwork_Cache, hash_le tip_hash, Some (u256_be chainwork)),
                             (Chain_Info, ascii ''current'', Some (ser_info C info))]) cs))))"

definition cache_block_chainwork ::
  "'c chain_codec_scheme \<Rightarrow> hash \<Rightarrow> block_header \<Rightarrow> u64 \<Rightarrow> chain_state \<Rightarrow> (chain_state, string) result" where
  "cache_block_chainwork C block_hash header height cs =
     (case chainwork_for_header C header height cs of
        Err e \<Rightarrow> Err e
      | Ok chainwork \<Rightarrow>
          Ok (commit_keyed at_tree
            [(Work_Cache, hash_le block_hash, Some (u256_be (calculate_work_from_bits C (bits header)))),
             (Chainwork_Cache, hash_le block_hash, Some (u256_be chainwork))] cs))"

definition initialize_with_params ::
  "'a tx_api_scheme \<Rightarrow> 'c chain_codec_scheme \<Rightarrow> block_header \<Rightarrow> chain_params \<Rightarrow> chain_state
    \<Rightarrow> (unit, string) result \<times> chain_state" where
  "initialize_with_params P C genesis_header params cs =
     (let genesis_hash = calculate_hash P genesis_header;
          cs1 = store_chain_info C \<lparr> ci_tip_hash = genesis_hash, ci_tip_header = genesis_header, ci_height = 0,
                  ci_total_work = 0, ci_chain_params = params \<rparr> cs
      in case index_insert C genesis_hash 0 (prev_block_hash genesis_header) Valid (block_index cs1) of
           Err e \<Rightarrow> (Err e, cs1)
         | Ok t \<Rightarrow>
             let cs2 = cs1 \<lparr> block_index := t \<rparr> in
             (case cache_block_chainwork C genesis_hash genesis_header 0 cs2 of
                Err e \<Rightarrow> (Err e, cs2) | Ok cs3 \<Rightarrow> (Ok (), cs3)))"

definition initialize ::
  "'a tx_api_scheme \<Rightarrow> 'c chain_codec_scheme \<Rightarrow> block_header \<Rightarrow> chain_state \<Rightarrow> (unit, string) result \<times> chain_state" where
  "initialize P C genesis_header cs = initialize_with_params P C genesis_header (default_chain_params C) cs"

definition initialize_from_network_metadata ::
  "'a tx_api_scheme \<Rightarrow> 'c chain_codec_scheme \<Rightarrow> block_header \<Rightarrow> string \<Rightarrow> u64 \<Rightarrow> u64 \<Rightarrow> chain_state
    \<Rightarrow> (unit, string) result \<times> chain_state" where
  "initialize_from_network_metadata P C genesis_header network_name max_target halving cs =
     initialize_with_params P C genesis_header
       \<lparr> cp_network = network_name, cp_genesis_hash = calculate_hash P genesis_header, cp_max_target = max_target,
         cp_subsidy_halving_interval = halving \<rparr> cs"


section \<open>Connected and invalid blocks\<close>

definition is_invalid :: "hash \<Rightarrow> chain_state \<Rightarrow> bool" where
  "is_invalid h cs = (hm_get (invalid_blocks cs) (hash_le h) \<noteq> None)"

definition record_connected_block ::
  "'c chain_codec_scheme \<Rightarrow> hash \<Rightarrow> u64 \<Rightarrow> hash \<Rightarrow> chain_state \<Rightarrow> (chain_state, string) result" where
  "record_connected_block C h height prev cs =
     (let status = (if is_invalid h cs then Invalid else Valid)
      in case index_insert C h height prev status (block_index cs) of
           Err e \<Rightarrow> Err e
         | Ok t \<Rightarrow> Ok (cs \<lparr> block_index := t \<rparr>))"

definition index_connected_block ::
  "'c chain_codec_scheme \<Rightarrow> hash \<Rightarrow> block_header \<Rightarrow> u64 \<Rightarrow> chain_state \<Rightarrow> (unit, string) result \<times> chain_state" where
  "index_connected_block C h header height cs =
     (case record_connected_block C h height (prev_block_hash header) cs of
        Err e \<Rightarrow> (Err e, cs)
      | Ok cs1 \<Rightarrow>
          (case cache_block_chainwork C h header height cs1 of Err e \<Rightarrow> (Err e, cs1) | Ok cs2 \<Rightarrow> (Ok (), cs2)))"

fun running_work :: "'c chain_codec_scheme \<Rightarrow> u256 \<Rightarrow> (hash \<times> block_header \<times> u64) list \<Rightarrow> (hash \<times> u256 \<times> u256) list" where
  "running_work C prev [] = []"
| "running_work C prev ((h, header, height) # entries) =
     (let block_work = calculate_work_from_bits C (bits header); cw = saturating_add prev block_work
      in (h, block_work, cw) # running_work C cw entries)"

definition index_connected_blocks_batch ::
  "'c chain_codec_scheme \<Rightarrow> (hash \<times> block_header \<times> u64) list \<Rightarrow> chain_state \<Rightarrow> (chain_state, string) result" where
  "index_connected_blocks_batch C entries cs =
     (case entries of
        [] \<Rightarrow> Ok cs
      | (_, first_header, first_height) # _ \<Rightarrow>
          let start = (if first_height > 0 then get_chainwork (prev_block_hash first_header) cs else Some 0) in
          case start of
            None \<Rightarrow> Err ''parent chainwork is absent''
          | Some prev \<Rightarrow>
              let works = running_work C prev entries;
                  cs1 = cs \<lparr> work_cache := batch_commit (map (\<lambda>(h, w, _). (hash_le h, Some (u256_be w))) works) (work_cache cs) \<rparr>;
                  cs2 = cs1 \<lparr> chainwork_cache :=
                    batch_commit (map (\<lambda>(h, _, cw). (hash_le h, Some (u256_be cw))) works) (chainwork_cache cs1) \<rparr>
              in Ok (cs2 \<lparr> block_index := insert_ibd_batch C
                   (map (\<lambda>(h, header, height). (h, height, prev_block_hash header)) entries) (block_index cs2) \<rparr>))"

definition mark_invalid :: "'c chain_codec_scheme \<Rightarrow> u64 \<Rightarrow> hash \<Rightarrow> chain_state \<Rightarrow> (chain_state, string) result" where
  "mark_invalid C now h cs =
     (case serialized_with_status C h Invalid False (block_index cs) of
        Err e \<Rightarrow> Err e
      | Ok index_bytes \<Rightarrow>
          Ok (commit_keyed at_tree
            ((Invalid_Blocks, hash_le h, Some (u64_be now))
             # (case index_bytes of None \<Rightarrow> [] | Some bytes \<Rightarrow> [(Block_Index_Tree, hash_le h, Some bytes)])) cs))"

definition unmark_invalid :: "hash \<Rightarrow> chain_state \<Rightarrow> chain_state" where
  "unmark_invalid h cs = cs \<lparr> invalid_blocks := hm_remove (hash_le h) (invalid_blocks cs) \<rparr>"

definition reconsider :: "'c chain_codec_scheme \<Rightarrow> hash \<Rightarrow> chain_state \<Rightarrow> (chain_state, string) result" where
  "reconsider C h cs =
     (case serialized_with_status C h Valid True (block_index cs) of
        Err e \<Rightarrow> Err e
      | Ok index_bytes \<Rightarrow>
          Ok (commit_keyed at_tree
            ((Invalid_Blocks, hash_le h, None)
             # (case index_bytes of None \<Rightarrow> [] | Some bytes \<Rightarrow> [(Block_Index_Tree, hash_le h, Some bytes)])) cs))"

definition get_invalid_blocks :: "chain_state \<Rightarrow> hash list" where
  "get_invalid_blocks cs = map (\<lambda>(key, _). hash_of_bytes key) (filter (\<lambda>(key, _). length key = 32) (invalid_blocks cs))"

definition add_chain_tip :: "'c chain_codec_scheme \<Rightarrow> hash \<Rightarrow> u64 \<Rightarrow> u64 \<Rightarrow> string \<Rightarrow> chain_state \<Rightarrow> chain_state" where
  "add_chain_tip C h height branchlen status cs =
     cs \<lparr> chain_tips_tree := hm_insert (hash_le h) (ser_tip C (height, branchlen, status)) (chain_tips_tree cs) \<rparr>"

definition remove_chain_tip :: "hash \<Rightarrow> chain_state \<Rightarrow> chain_state" where
  "remove_chain_tip h cs = cs \<lparr> chain_tips_tree := hm_remove (hash_le h) (chain_tips_tree cs) \<rparr>"

definition get_chain_tips :: "'c chain_codec_scheme \<Rightarrow> chain_state \<Rightarrow> (hash \<times> u64 \<times> u64 \<times> string) list" where
  "get_chain_tips C cs =
     List.map_filter (\<lambda>(key, data).
         if length key = 32 then
           (case de_tip C data of Ok (height, branchlen, status) \<Rightarrow> Some (hash_of_bytes key, height, branchlen, status)
            | Err _ \<Rightarrow> None)
         else None) (chain_tips_tree cs)"


section \<open>Checkpoint labels\<close>

definition u64_row :: "byte_string \<Rightarrow> kv_tree \<Rightarrow> u64 option" where
  "u64_row key t =
     (case hm_get t key of
        Some data \<Rightarrow> if length data < 8 then None else Some (u64_of_be (take 8 data))
      | None \<Rightarrow> None)"

definition muhash_row :: "'c chain_codec_scheme \<Rightarrow> byte_string \<Rightarrow> kv_tree \<Rightarrow> byte_string option" where
  "muhash_row C key t =
     (case hm_get t key of
        Some data \<Rightarrow> if length data \<noteq> MUHASH_RUNNING_STATE_BYTES C then None else Some data
      | None \<Rightarrow> None)"

definition put_info :: "string \<Rightarrow> byte_string \<Rightarrow> chain_state \<Rightarrow> chain_state" where
  "put_info key row cs = cs \<lparr> chain_info_tree := hm_insert (ascii key) row (chain_info_tree cs) \<rparr>"

definition get_utxo_watermark :: "chain_state \<Rightarrow> u64 option" where
  "get_utxo_watermark cs = u64_row (ascii ''ibd_utxo_watermark'') (chain_info_tree cs)"

definition set_utxo_watermark :: "u64 \<Rightarrow> chain_state \<Rightarrow> chain_state" where
  "set_utxo_watermark height cs =
     (let current = (case get_utxo_watermark cs of Some h \<Rightarrow> h | None \<Rightarrow> 0)
      in if height > current then put_info ''ibd_utxo_watermark'' (u64_be height) cs else cs)"

definition force_set_ibd_utxo_watermark :: "u64 \<Rightarrow> chain_state \<Rightarrow> chain_state" where
  "force_set_ibd_utxo_watermark height cs =
     (let cs1 = put_info ''ibd_utxo_watermark'' (u64_be height) cs
      in if height = 0
         then cs1 \<lparr> chain_info_tree := hm_remove (ascii ''ibd_utxo_muhash_running'') (chain_info_tree cs1) \<rparr>
         else cs1)"

definition get_ibd_utxo_muhash_running :: "'c chain_codec_scheme \<Rightarrow> chain_state \<Rightarrow> byte_string option" where
  "get_ibd_utxo_muhash_running C cs = muhash_row C (ascii ''ibd_utxo_muhash_running'') (chain_info_tree cs)"

definition persist_ibd_utxo_muhash_running_only :: "byte_string \<Rightarrow> chain_state \<Rightarrow> chain_state" where
  "persist_ibd_utxo_muhash_running_only muhash cs = put_info ''ibd_utxo_muhash_running'' muhash cs"

definition persist_ibd_utxo_flush_checkpoint ::
  "'c chain_codec_scheme \<Rightarrow> u64 \<Rightarrow> byte_string \<Rightarrow> chain_state \<Rightarrow> (chain_state, string) result" where
  "persist_ibd_utxo_flush_checkpoint C flush_height muhash cs =
     (let current_wm = (case get_utxo_watermark cs of Some h \<Rightarrow> h | None \<Rightarrow> 0) in
      case get_height C cs of
        Err e \<Rightarrow> Err e
      | Ok found \<Rightarrow>
          let block_tip = (case found of Some h \<Rightarrow> h | None \<Rightarrow> 0) in
          if flush_height > block_tip
          then Ok (cs \<lparr> chain_info_tree := batch_commit [(ascii ''ibd_utxo_muhash_running'', Some muhash)] (chain_info_tree cs) \<rparr>)
          else Ok (cs \<lparr> chain_info_tree := batch_commit
                 ((if flush_height > current_wm then [(ascii ''ibd_utxo_watermark'', Some (u64_be flush_height))] else [])
                  @ [(ascii ''ibd_utxo_muhash_running'', Some muhash)]) (chain_info_tree cs) \<rparr>))"

definition get_engine_validation_tip :: "chain_state \<Rightarrow> u64 option" where
  "get_engine_validation_tip cs = u64_row (ascii ''ibd_engine_validation_tip'') (chain_info_tree cs)"

definition persist_engine_validation_tip :: "u64 \<Rightarrow> chain_state \<Rightarrow> chain_state" where
  "persist_engine_validation_tip height cs =
     (let current = (case get_engine_validation_tip cs of Some h \<Rightarrow> h | None \<Rightarrow> 0)
      in if height > current then put_info ''ibd_engine_validation_tip'' (u64_be height) cs else cs)"

definition force_set_engine_validation_tip :: "u64 \<Rightarrow> chain_state \<Rightarrow> chain_state" where
  "force_set_engine_validation_tip height cs = put_info ''ibd_engine_validation_tip'' (u64_be height) cs"

definition get_engine_export_height :: "chain_state \<Rightarrow> u64 option" where
  "get_engine_export_height cs = u64_row (ascii ''ibd_engine_export_height'') (chain_info_tree cs)"

definition force_set_engine_export_height :: "u64 \<Rightarrow> chain_state \<Rightarrow> chain_state" where
  "force_set_engine_export_height height cs = put_info ''ibd_engine_export_height'' (u64_be height) cs"

definition persist_engine_export_height :: "'c chain_codec_scheme \<Rightarrow> u64 \<Rightarrow> chain_state \<Rightarrow> (chain_state, string) result" where
  "persist_engine_export_height C height cs =
     (case get_height C cs of
        Err e \<Rightarrow> Err e
      | Ok found \<Rightarrow>
          let block_tip = (case found of Some h \<Rightarrow> h | None \<Rightarrow> 0);
              current = (case get_engine_export_height cs of Some h \<Rightarrow> h | None \<Rightarrow> 0)
          in if height > block_tip then Ok cs
             else if height > current then Ok (put_info ''ibd_engine_export_height'' (u64_be height) cs)
             else Ok cs)"

definition get_engine_ckpt_slot :: "chain_state \<Rightarrow> u8" where
  "get_engine_ckpt_slot cs =
     (case hm_get (chain_info_tree cs) (ascii ''ibd_engine_ckpt_slot'') of
        Some (b # _) \<Rightarrow> b AND 1
      | _ \<Rightarrow> 0)"

definition IBD_UTXO_TREES :: "string list" where
  "IBD_UTXO_TREES = [''ibd_utxos'', ''ibd_utxos_ckpt_a'', ''ibd_utxos_ckpt_b'']"

definition is_ibd_utxo_tree_name :: "string \<Rightarrow> bool" where
  "is_ibd_utxo_tree_name name = (name \<in> set IBD_UTXO_TREES)"

text \<open>A row that is not one of the three names is not turned into one by the lossy reading of its bytes.\<close>

definition get_stored_ibd_utxo_canonical_tree :: "chain_state \<Rightarrow> string option" where
  "get_stored_ibd_utxo_canonical_tree cs =
     (case hm_get (chain_info_tree cs) (ascii ''ibd_utxo_canonical_tree'') of
        Some data \<Rightarrow> List.find (\<lambda>name. ascii name = data) IBD_UTXO_TREES
      | None \<Rightarrow> None)"

definition get_ibd_utxo_canonical_tree :: "chain_state \<Rightarrow> string" where
  "get_ibd_utxo_canonical_tree cs =
     (case hm_get (chain_info_tree cs) (ascii ''ibd_utxo_canonical_tree'') of
        Some data \<Rightarrow> (case List.find (\<lambda>name. ascii name = data) IBD_UTXO_TREES of Some name \<Rightarrow> name | None \<Rightarrow> ''ibd_utxos'')
      | None \<Rightarrow> ''ibd_utxos'')"

definition set_ibd_utxo_canonical_tree :: "string \<Rightarrow> chain_state \<Rightarrow> (chain_state, string) result" where
  "set_ibd_utxo_canonical_tree name cs =
     (if \<not> is_ibd_utxo_tree_name name then Err (''invalid ibd utxo canonical tree name: '' @ name)
      else Ok (put_info ''ibd_utxo_canonical_tree'' (ascii name) cs))"

definition slot_key :: "u8 \<Rightarrow> string" where
  "slot_key slot = (if slot AND 1 = 0 then ''ibd_engine_ckpt_height_0'' else ''ibd_engine_ckpt_height_1'')"

definition get_engine_ckpt_slot_height :: "u8 \<Rightarrow> chain_state \<Rightarrow> u64" where
  "get_engine_ckpt_slot_height slot cs =
     (case u64_row (ascii (slot_key slot)) (chain_info_tree cs) of Some h \<Rightarrow> h | None \<Rightarrow> 0)"

definition set_engine_ckpt_slot_height :: "u8 \<Rightarrow> u64 \<Rightarrow> chain_state \<Rightarrow> chain_state" where
  "set_engine_ckpt_slot_height slot height cs = put_info (slot_key slot) (u64_be height) cs"

definition force_set_engine_ckpt_slot :: "u8 \<Rightarrow> chain_state \<Rightarrow> chain_state" where
  "force_set_engine_ckpt_slot slot cs = put_info ''ibd_engine_ckpt_slot'' [slot AND 1] cs"

definition get_engine_export_wall_secs :: "chain_state \<Rightarrow> u64 option" where
  "get_engine_export_wall_secs cs = u64_row (ascii ''ibd_engine_export_wall_secs'') (chain_info_tree cs)"

definition get_engine_export_utxo_count :: "chain_state \<Rightarrow> u64 option" where
  "get_engine_export_utxo_count cs = u64_row (ascii ''ibd_engine_export_utxo_count'') (chain_info_tree cs)"

definition get_engine_prev_accepted_utxo_count :: "chain_state \<Rightarrow> u64 option" where
  "get_engine_prev_accepted_utxo_count cs = u64_row (ascii ''ibd_engine_prev_accepted_utxo_count'') (chain_info_tree cs)"

definition force_set_engine_prev_accepted_utxo_count :: "u64 \<Rightarrow> chain_state \<Rightarrow> chain_state" where
  "force_set_engine_prev_accepted_utxo_count count cs = put_info ''ibd_engine_prev_accepted_utxo_count'' (u64_be count) cs"

definition force_set_engine_export_utxo_count :: "u64 \<Rightarrow> chain_state \<Rightarrow> chain_state" where
  "force_set_engine_export_utxo_count count cs = put_info ''ibd_engine_export_utxo_count'' (u64_be count) cs"

definition get_engine_export_muhash :: "'c chain_codec_scheme \<Rightarrow> chain_state \<Rightarrow> byte_string option" where
  "get_engine_export_muhash C cs = muhash_row C (ascii ''ibd_engine_export_muhash'') (chain_info_tree cs)"

definition persist_engine_export_muhash_snapshot :: "byte_string \<Rightarrow> chain_state \<Rightarrow> chain_state" where
  "persist_engine_export_muhash_snapshot muhash cs = put_info ''ibd_engine_export_muhash'' muhash cs"

definition persist_engine_checkpoint_complete ::
  "'c chain_codec_scheme \<Rightarrow> u64 \<Rightarrow> u8 \<Rightarrow> u64 \<Rightarrow> u64 \<Rightarrow> byte_string \<Rightarrow> chain_state \<Rightarrow> (chain_state, string) result" where
  "persist_engine_checkpoint_complete C height slot utxo_count export_wall_secs muhash cs =
     (let current = (case get_engine_export_height cs of Some h \<Rightarrow> h | None \<Rightarrow> 0) in
      case get_height C cs of
        Err e \<Rightarrow> Err e
      | Ok found \<Rightarrow>
          let block_tip = (case found of Some h \<Rightarrow> h | None \<Rightarrow> 0) in
          if height > block_tip then Ok (persist_ibd_utxo_muhash_running_only muhash cs)
          else if height \<le> current then Ok (persist_ibd_utxo_muhash_running_only muhash cs)
          else
            let prev_count = (case get_engine_export_utxo_count cs of Some n \<Rightarrow> n | None \<Rightarrow> 0);
                current_wm = (case get_utxo_watermark cs of Some h \<Rightarrow> h | None \<Rightarrow> 0)
            in Ok (cs \<lparr> chain_info_tree := batch_commit
                 ((if prev_count > 0 then [(ascii ''ibd_engine_prev_accepted_utxo_count'', Some (u64_be prev_count))] else [])
                  @ (if height > current_wm then [(ascii ''ibd_utxo_watermark'', Some (u64_be height))] else [])
                  @ [(ascii ''ibd_utxo_muhash_running'', Some muhash),
                     (ascii ''ibd_engine_export_height'', Some (u64_be height)),
                     (ascii ''ibd_engine_ckpt_slot'', Some [slot AND 1]),
                     (ascii (slot_key slot), Some (u64_be height)),
                     (ascii ''ibd_engine_export_utxo_count'', Some (u64_be utxo_count)),
                     (ascii ''ibd_engine_export_wall_secs'', Some (u64_be export_wall_secs)),
                     (ascii ''ibd_engine_export_muhash'', Some muhash)]) (chain_info_tree cs) \<rparr>))"

definition force_reset_engine_checkpoint_metadata :: "chain_state \<Rightarrow> chain_state" where
  "force_reset_engine_checkpoint_metadata cs =
     cs \<lparr> chain_info_tree := batch_commit
        [(ascii ''ibd_engine_export_height'', Some (u64_be 0)), (ascii ''ibd_engine_ckpt_slot'', Some [0]),
         (ascii ''ibd_engine_export_utxo_count'', Some (u64_be 0)),
         (ascii ''ibd_engine_prev_accepted_utxo_count'', Some (u64_be 0)),
         (ascii ''ibd_engine_export_muhash'', None), (ascii ''ibd_engine_validation_tip'', None)] (chain_info_tree cs) \<rparr>"


section \<open>Statistics and hash rate\<close>

definition store_utxo_stats :: "'c chain_codec_scheme \<Rightarrow> hash \<Rightarrow> utxo_stats \<Rightarrow> chain_state \<Rightarrow> chain_state" where
  "store_utxo_stats C h stats cs =
     cs \<lparr> utxo_stats_cache := hm_insert (hash_le h) (ser_stats C stats) (utxo_stats_cache cs) \<rparr>"

definition get_utxo_stats :: "'c chain_codec_scheme \<Rightarrow> hash \<Rightarrow> chain_state \<Rightarrow> utxo_stats option" where
  "get_utxo_stats C h cs =
     (case hm_get (utxo_stats_cache cs) (hash_le h) of
        Some data \<Rightarrow> (case de_stats C data of Ok stats \<Rightarrow> Some stats | Err _ \<Rightarrow> None)
      | None \<Rightarrow> None)"

definition get_latest_utxo_stats :: "'c chain_codec_scheme \<Rightarrow> chain_state \<Rightarrow> (utxo_stats option, string) result" where
  "get_latest_utxo_stats C cs =
     (case get_tip_hash C cs of
        Err e \<Rightarrow> Err e
      | Ok (Some tip) \<Rightarrow> Ok (get_utxo_stats C tip cs)
      | Ok None \<Rightarrow> Ok None)"

definition utxo_stats_source_key :: "hash \<Rightarrow> byte_string" where
  "utxo_stats_source_key h = 1 # hash_le h"

definition utxo_stats_from_snapshot :: "hash \<Rightarrow> chain_state \<Rightarrow> bool" where
  "utxo_stats_from_snapshot h cs = (hm_get (utxo_stats_cache cs) (utxo_stats_source_key h) = Some [1])"

definition set_utxo_stats_from_snapshot :: "hash \<Rightarrow> bool \<Rightarrow> chain_state \<Rightarrow> chain_state" where
  "set_utxo_stats_from_snapshot h from_snapshot cs =
     (let key = utxo_stats_source_key h in
      if from_snapshot then cs \<lparr> utxo_stats_cache := hm_insert key [1] (utxo_stats_cache cs) \<rparr>
      else if hm_get (utxo_stats_cache cs) key \<noteq> None
      then cs \<lparr> utxo_stats_cache := hm_remove key (utxo_stats_cache cs) \<rparr>
      else cs)"

text \<open>A hash rate is stored as the 64 bits of its floating-point number.\<close>

definition store_network_hashrate :: "u64 \<Rightarrow> u64 \<Rightarrow> chain_state \<Rightarrow> chain_state" where
  "store_network_hashrate height hashrate cs =
     cs \<lparr> network_hashrate_cache := hm_insert (u64_be height) (u64_be hashrate) (network_hashrate_cache cs) \<rparr>"

fun first_hashrate :: "kv_tree \<Rightarrow> u64 list \<Rightarrow> u64 option" where
  "first_hashrate t [] = None"
| "first_hashrate t (h # hs) =
     (case u64_row (u64_be h) t of Some rate \<Rightarrow> Some rate | None \<Rightarrow> first_hashrate t hs)"

definition get_network_hashrate :: "'c chain_codec_scheme \<Rightarrow> chain_state \<Rightarrow> (u64 option, string) result" where
  "get_network_hashrate C cs =
     (case get_height C cs of
        Err e \<Rightarrow> Err e
      | Ok None \<Rightarrow> Ok None
      | Ok (Some height) \<Rightarrow>
          Ok (first_hashrate (network_hashrate_cache cs)
            (height # map of_nat (rev [unat (saturating_sub height 10)..<unat height]))))"

definition chain_state_reset :: "chain_state \<Rightarrow> chain_state" where
  "chain_state_reset cs = cs \<lparr> chain_info_tree := [], work_cache := [], chainwork_cache := [], utxo_stats_cache := [],
     network_hashrate_cache := [], invalid_blocks := [], chain_tips_tree := [], block_index := index_reset (block_index cs) \<rparr>"


section \<open>Fork choice\<close>

definition chainwork_at :: "chain_state \<Rightarrow> hash \<Rightarrow> u256" where
  "chainwork_at cs h = (case get_chainwork h cs of Some w \<Rightarrow> w | None \<Rightarrow> 0)"

definition should_activate_over_active_tip :: "'c chain_codec_scheme \<Rightarrow> chain_state \<Rightarrow> hash \<Rightarrow> (bool, string) result" where
  "should_activate_over_active_tip C cs candidate_tip =
     (case get_tip_hash_and_height C cs of
        Err e \<Rightarrow> Err e
      | Ok (active_tip, _) \<Rightarrow>
          if candidate_tip = active_tip then Ok False
          else Ok (chainwork_at cs candidate_tip > chainwork_at cs active_tip))"

definition heavier_than_active_tip :: "'c chain_codec_scheme \<Rightarrow> chain_state \<Rightarrow> hash \<Rightarrow> (bool, string) result" where
  "heavier_than_active_tip C cs candidate_tip =
     (case get_tip_hash_and_height C cs of
        Err e \<Rightarrow> Err e
      | Ok (active_tip, _) \<Rightarrow>
          if candidate_tip = active_tip then Ok False
          else Ok (chainwork_at cs candidate_tip > chainwork_at cs active_tip))"


section \<open>The work of a chain\<close>

text \<open>
  The blocks connected so far, with header and height. A block is connected under the hash of its header, so it never
  changes its header, and above height zero its parent is connected one lower. The work of a chain is the sum of the
  proofs down to height zero.
\<close>

type_synonym known_blocks = "hash \<Rightarrow> (block_header \<times> u64) option"

definition block_work :: "'c chain_codec_scheme \<Rightarrow> known_blocks \<Rightarrow> hash \<Rightarrow> nat" where
  "block_work C K h = (case K h of Some (header, _) \<Rightarrow> unat (calculate_work_from_bits C (bits header)) | None \<Rightarrow> 0)"

definition parent_of :: "known_blocks \<Rightarrow> hash \<Rightarrow> hash" where
  "parent_of K h = (case K h of Some (header, _) \<Rightarrow> prev_block_hash header | None \<Rightarrow> 0)"

fun work_sum :: "'c chain_codec_scheme \<Rightarrow> known_blocks \<Rightarrow> nat \<Rightarrow> hash \<Rightarrow> nat" where
  "work_sum C K 0 h = block_work C K h"
| "work_sum C K (Suc n) h = work_sum C K n (parent_of K h) + block_work C K h"

definition chain_work :: "'c chain_codec_scheme \<Rightarrow> known_blocks \<Rightarrow> hash \<Rightarrow> nat" where
  "chain_work C K h = (case K h of Some (_, height) \<Rightarrow> min (work_sum C K (unat height) h) (2 ^ 256 - 1) | None \<Rightarrow> 0)"

definition placed :: "known_blocks \<Rightarrow> hash \<Rightarrow> block_header \<Rightarrow> u64 \<Rightarrow> bool" where
  "placed K h header height \<longleftrightarrow>
     K h \<in> {None, Some (header, height)}
     \<and> (height = 0 \<or> (\<exists>parent. K (prev_block_hash header) = Some (parent, height - 1)))"

fun place_all :: "known_blocks \<Rightarrow> (hash \<times> block_header \<times> u64) list \<Rightarrow> known_blocks option" where
  "place_all K [] = Some K"
| "place_all K ((h, header, height) # entries) =
     (if placed K h header height then place_all (K(h \<mapsto> (header, height))) entries else None)"

text \<open>The blocks of a batch follow each other.\<close>

fun consecutive :: "(hash \<times> block_header \<times> u64) list \<Rightarrow> bool" where
  "consecutive ((h, _, n) # (h', header, n') # entries) =
     (prev_block_hash header = h \<and> n' \<noteq> 0 \<and> consecutive ((h', header, n') # entries))"
| "consecutive _ = True"

inductive connected :: "'c chain_codec_scheme \<Rightarrow> known_blocks \<Rightarrow> chain_state \<Rightarrow> bool" for C where
  start: "connected C Map.empty new_chain_state"
| tip: "connected C (K(h \<mapsto> (header, height))) cs'"
    if "connected C K cs" "placed K h header height" "update_tip C h header height cs = Ok cs'"
| side: "connected C (K(h \<mapsto> (header, height))) cs'"
    if "connected C K cs" "placed K h header height" "index_connected_block C h header height cs = (Ok (), cs')"
| batch: "connected C K' cs'"
    if "connected C K cs" "place_all K entries = Some K'" "consecutive entries"
      "index_connected_blocks_batch C entries cs = Ok cs'"
| invalid: "connected C K cs'" if "connected C K cs" "mark_invalid C now h cs = Ok cs'"
| valid: "connected C K cs'" if "connected C K cs" "reconsider C h cs = Ok cs'"
| row: "connected C K (put_info key bytes cs)" if "connected C K cs"

definition closed_blocks :: "known_blocks \<Rightarrow> bool" where
  "closed_blocks K \<longleftrightarrow> (\<forall>h header height. K h = Some (header, height) \<longrightarrow> height \<noteq> 0
     \<longrightarrow> (\<exists>parent. K (prev_block_hash header) = Some (parent, height - 1)))"

definition cached_work :: "hash \<Rightarrow> kv_tree \<Rightarrow> u256 option" where
  "cached_work h t = Option.bind (hm_get t (hash_le h)) decode_cached_work"

definition work_cached :: "'c chain_codec_scheme \<Rightarrow> known_blocks \<Rightarrow> kv_tree \<Rightarrow> bool" where
  "work_cached C K t \<longleftrightarrow>
     (\<forall>h. cached_work h t = (case K h of Some _ \<Rightarrow> Some (of_nat (chain_work C K h)) | None \<Rightarrow> None))"

lemma decode_u256_be [simp]: "decode_cached_work (u256_be w) = Some w"
proof -
  have "from_be_bytes (be_bytes 32 (unat w)) = unat w" by (rule from_be_bytes_be) (use unat_bound [of w] in simp)
  then show ?thesis by (simp add: decode_cached_work_def u256_be_def)
qed

lemma get_chainwork_cached: "get_chainwork h cs = cached_work h (chainwork_cache cs)"
  by (simp add: get_chainwork_def cached_work_def)

lemma cached_work_write [simp]:
  "cached_work g (tree_write (hash_le h) (Some (u256_be w)) t) = (if g = h then Some w else cached_work g t)"
  by (simp add: cached_work_def)

lemma unat_pred: "(n :: u64) \<noteq> 0 \<Longrightarrow> unat n = Suc (unat (n - 1))"
  by (metis Suc_pred' unat_gt_0 unat_minus_one word_neq_0_conv)

lemma placed_extends: "placed K h header height \<Longrightarrow> K \<subseteq>\<^sub>m K(h \<mapsto> (header, height))"
  by (auto simp: placed_def map_le_def)

lemma placed_closed:
  assumes "closed_blocks K" "placed K h header height"
  shows "closed_blocks (K(h \<mapsto> (header, height)))" (is "closed_blocks ?K")
  unfolding closed_blocks_def
proof (intro allI impI)
  fix g hd n assume g: "?K g = Some (hd, n)" "n \<noteq> 0"
  have "\<exists>parent. K (prev_block_hash hd) = Some (parent, n - 1)"
  proof (cases "g = h")
    case True
    with g assms(2) show ?thesis by (simp add: placed_def)
  next
    case False
    with g assms(1) show ?thesis by (simp add: closed_blocks_def)
  qed
  then show "\<exists>parent. ?K (prev_block_hash hd) = Some (parent, n - 1)"
    using placed_extends [OF assms(2)] by (metis domI map_le_def)
qed

text \<open>A new block leaves the work of the others as it was.\<close>

lemma work_sum_extend:
  assumes "closed_blocks K" "K \<subseteq>\<^sub>m K'" "K g = Some (header, height)"
  shows "work_sum C K' (unat height) g = work_sum C K (unat height) g"
  using assms(3)
proof (induction "unat height" arbitrary: g header height)
  case 0
  then have "K' g = K g" using assms(2) by (metis domI map_le_def)
  then show ?case using 0 by (simp add: block_work_def)
next
  case (Suc n)
  then have height: "height \<noteq> 0" "unat height = Suc (unat (height - 1))"
    using unat_pred [of height] by (metis nat.distinct(1) unat_eq_zero)+
  have same: "K' g = K g" using Suc.prems assms(2) by (metis domI map_le_def)
  obtain parent where "K (prev_block_hash header) = Some (parent, height - 1)"
    using assms(1) Suc.prems height(1) unfolding closed_blocks_def by blast
  with Suc.hyps(1) [of "height - 1"] Suc.hyps(2) height(2)
  have "work_sum C K' (unat (height - 1)) (prev_block_hash header) = work_sum C K (unat (height - 1)) (prev_block_hash header)"
    by simp
  then show ?case using same Suc.prems by (simp add: height(2) block_work_def parent_of_def)
qed

lemma chain_work_extend:
  assumes "closed_blocks K" "placed K h header height" "K g = Some x"
  shows "chain_work C (K(h \<mapsto> (header, height))) g = chain_work C K g"
proof -
  obtain hd n where x: "x = (hd, n)" by (cases x)
  have "(K(h \<mapsto> (header, height))) g = K g" using placed_extends [OF assms(2)] assms(3) by (metis domI map_le_def)
  with work_sum_extend [where C = C, OF assms(1) placed_extends [OF assms(2)], of g hd n] assms(3) x show ?thesis
    by (simp add: chain_work_def del: fun_upd_apply)
qed

text \<open>The work written for a block is the work of its chain.\<close>

lemma chain_work_placed:
  assumes "closed_blocks K" "placed K h header height"
    and "height > 0 \<Longrightarrow> prev = of_nat (chain_work C K (prev_block_hash header))" "height = 0 \<Longrightarrow> prev = 0"
  shows "of_nat (chain_work C (K(h \<mapsto> (header, height))) h) = saturating_add prev (calculate_work_from_bits C (bits header))"
proof -
  let ?K = "K(h \<mapsto> (header, height))" and ?w = "calculate_work_from_bits C (bits header)"
  have w: "block_work C ?K h = unat ?w" by (simp add: block_work_def)
  show ?thesis
  proof (cases "height = 0")
    case True
    have "unat ?w \<le> 2 ^ 256 - 1" using unat_bound [of ?w] by simp
    with True assms(4) w show ?thesis
      by (simp add: chain_work_def word_unat_eq_iff unat_saturating_add unat_of_nat)
  next
    case False
    then obtain parent where p: "K (prev_block_hash header) = Some (parent, height - 1)"
      using assms(2) by (auto simp: placed_def)
    have sum: "work_sum C ?K (unat (height - 1)) (prev_block_hash header) = work_sum C K (unat (height - 1)) (prev_block_hash header)"
      by (rule work_sum_extend [OF assms(1) placed_extends [OF assms(2)] p])
    let ?s = "work_sum C K (unat (height - 1)) (prev_block_hash header)"
    have "chain_work C ?K h = min (?s + unat ?w) (2 ^ 256 - 1)"
      using sum w unat_pred [OF False] by (simp add: chain_work_def parent_of_def)
    moreover have "unat prev = min ?s (2 ^ 256 - 1)"
    proof -
      have "prev = of_nat (min ?s (2 ^ 256 - 1))" using assms(3) False p by (simp add: chain_work_def word_greater_zero_iff)
      then show ?thesis by (simp add: unat_of_nat)
    qed
    ultimately show ?thesis by (simp add: word_unat_eq_iff unat_saturating_add unat_of_nat min_def)
  qed
qed


lemma work_cachedD: "work_cached C K t \<Longrightarrow> K h = Some x \<Longrightarrow> cached_work h t = Some (of_nat (chain_work C K h))"
  by (simp add: work_cached_def)

lemma work_cached_write:
  assumes "closed_blocks K" "work_cached C K t" "placed K h header height"
    and "height > 0 \<Longrightarrow> prev = of_nat (chain_work C K (prev_block_hash header))" "height = 0 \<Longrightarrow> prev = 0"
  shows "work_cached C (K(h \<mapsto> (header, height)))
    (tree_write (hash_le h) (Some (u256_be (saturating_add prev (calculate_work_from_bits C (bits header))))) t)"
  unfolding work_cached_def
proof
  fix g
  let ?K = "K(h \<mapsto> (header, height))"
  show "cached_work g (tree_write (hash_le h) (Some (u256_be (saturating_add prev (calculate_work_from_bits C (bits header))))) t) =
      (case ?K g of Some _ \<Rightarrow> Some (of_nat (chain_work C ?K g)) | None \<Rightarrow> None)"
  proof (cases "g = h")
    case True
    with chain_work_placed [OF assms(1,3), of prev C] assms(4,5) show ?thesis by simp
  next
    case False
    with chain_work_extend [OF assms(1,3), of g _ C] assms(2) show ?thesis
      by (cases "K g") (simp_all add: work_cached_def del: fun_upd_apply, simp_all)
  qed
qed

lemma chainwork_for_header_prev:
  assumes "chainwork_for_header C header height cs = Ok w" "work_cached C K (chainwork_cache cs)" "placed K h header height"
  obtains prev where "w = saturating_add prev (calculate_work_from_bits C (bits header))"
    "height > 0 \<Longrightarrow> prev = of_nat (chain_work C K (prev_block_hash header))" "height = 0 \<Longrightarrow> prev = 0"
proof (cases "height = 0")
  case True
  with assms(1) that [of 0] show ?thesis by (simp add: chainwork_for_header_def Let_def)
next
  case False
  then obtain parent where p: "K (prev_block_hash header) = Some (parent, height - 1)"
    using assms(3) by (auto simp: placed_def)
  have "get_chainwork (prev_block_hash header) cs = Some (of_nat (chain_work C K (prev_block_hash header)))"
    unfolding get_chainwork_cached by (rule work_cachedD [OF assms(2) p])
  with False assms(1) that [of "of_nat (chain_work C K (prev_block_hash header))"] show ?thesis
    by (simp add: chainwork_for_header_def Let_def word_greater_zero_iff)
qed

lemma update_tip_work:
  assumes "update_tip C h header height cs = Ok cs'"
  obtains w where "chainwork_for_header C header height cs = Ok w"
    "chainwork_cache cs' = tree_write (hash_le h) (Some (u256_be w)) (chainwork_cache cs)"
  using assms by (auto simp: update_tip_def index_writes_def Let_def split: sum.splits option.splits)

lemma cache_block_work:
  assumes "cache_block_chainwork C h header height cs = Ok cs'"
  obtains w where "chainwork_for_header C header height cs = Ok w"
    "chainwork_cache cs' = tree_write (hash_le h) (Some (u256_be w)) (chainwork_cache cs)"
  using assms by (auto simp: cache_block_chainwork_def split: sum.splits)

lemma record_connected_work:
  "record_connected_block C h height prev cs = Ok cs' \<Longrightarrow> chainwork_cache cs' = chainwork_cache cs"
  by (auto simp: record_connected_block_def Let_def split: sum.splits)

lemma index_connected_work:
  assumes "index_connected_block C h header height cs = (Ok (), cs')"
  obtains w cs1 where "chainwork_for_header C header height cs1 = Ok w" "chainwork_cache cs1 = chainwork_cache cs"
    "chainwork_cache cs' = tree_write (hash_le h) (Some (u256_be w)) (chainwork_cache cs)"
proof -
  obtain cs1 where cs1: "record_connected_block C h height (prev_block_hash header) cs = Ok cs1"
    "cache_block_chainwork C h header height cs1 = Ok cs'"
    using assms by (auto simp: index_connected_block_def split: sum.splits)
  obtain w where "chainwork_for_header C header height cs1 = Ok w"
    "chainwork_cache cs' = tree_write (hash_le h) (Some (u256_be w)) (chainwork_cache cs1)"
    by (rule cache_block_work [OF cs1(2)]) (rule that)
  with record_connected_work [OF cs1(1)] that [of cs1 w] show ?thesis by simp
qed

lemma batch_work:
  assumes "closed_blocks K" "work_cached C K t" "place_all K entries = Some K'" "consecutive entries"
    and "\<And>h header height. entries \<noteq> [] \<Longrightarrow> hd entries = (h, header, height) \<Longrightarrow>
      (height > 0 \<longrightarrow> prev = of_nat (chain_work C K (prev_block_hash header))) \<and> (height = 0 \<longrightarrow> prev = 0)"
  shows "closed_blocks K' \<and>
    work_cached C K' (batch_commit (map (\<lambda>(h, _, cw). (hash_le h, Some (u256_be cw))) (running_work C prev entries)) t)"
  using assms
proof (induction entries arbitrary: K t prev)
  case Nil
  then show ?case by simp
next
  case (Cons x entries)
  obtain h header height where x: "x = (h, header, height)" by (cases x)
  let ?cw = "saturating_add prev (calculate_work_from_bits C (bits header))" and ?K = "K(h \<mapsto> (header, height))"
  have pl: "placed K h header height" and rest: "place_all ?K entries = Some K'"
    using Cons.prems(3) by (simp_all add: x split: if_splits)
  have start: "height > 0 \<Longrightarrow> prev = of_nat (chain_work C K (prev_block_hash header))" "height = 0 \<Longrightarrow> prev = 0"
    using Cons.prems(5) [of h header height] by (simp_all add: x)
  have cw: "?cw = of_nat (chain_work C ?K h)"
    using chain_work_placed [OF Cons.prems(1) pl, of prev C] start by simp
  have "closed_blocks K' \<and> work_cached C K' (batch_commit (map (\<lambda>(h, _, cw). (hash_le h, Some (u256_be cw)))
      (running_work C ?cw entries)) (tree_write (hash_le h) (Some (u256_be ?cw)) t))"
  proof (rule Cons.IH [OF placed_closed [OF Cons.prems(1) pl] _ rest])
    show "work_cached C ?K (tree_write (hash_le h) (Some (u256_be ?cw)) t)"
      by (rule work_cached_write [OF Cons.prems(1,2) pl start])
    show "consecutive entries" using Cons.prems(4) by (cases entries) (auto simp: x)
    fix g hdr n assume "entries \<noteq> []" "hd entries = (g, hdr, n)"
    then have "prev_block_hash hdr = h" "n \<noteq> 0" using Cons.prems(4) by (cases entries; auto simp: x)+
    with cw show "(n > 0 \<longrightarrow> ?cw = of_nat (chain_work C ?K (prev_block_hash hdr))) \<and> (n = 0 \<longrightarrow> ?cw = 0)" by simp
  qed
  then show ?case by (simp add: x Let_def)
qed

lemma connected_work: "connected C K cs \<Longrightarrow> closed_blocks K \<and> work_cached C K (chainwork_cache cs)"
proof (induction rule: connected.induct)
  case start
  then show ?case by (simp add: closed_blocks_def work_cached_def cached_work_def new_chain_state_def)
next
  case (tip K cs h header height cs')
  then have inv: "closed_blocks K" "work_cached C K (chainwork_cache cs)" by simp_all
  obtain w where w: "chainwork_for_header C header height cs = Ok w"
    "chainwork_cache cs' = tree_write (hash_le h) (Some (u256_be w)) (chainwork_cache cs)"
    by (rule update_tip_work [OF tip(3)]) (rule that)
  obtain prev where "w = saturating_add prev (calculate_work_from_bits C (bits header))"
    "height > 0 \<Longrightarrow> prev = of_nat (chain_work C K (prev_block_hash header))" "height = 0 \<Longrightarrow> prev = 0"
    by (rule chainwork_for_header_prev [OF w(1) inv(2) tip(2)]) (rule that)
  from work_cached_write [OF inv tip(2) this(2,3)] this(1) placed_closed [OF inv(1) tip(2)] w(2) show ?case
    by (simp del: fun_upd_apply)
next
  case (side K cs h header height cs')
  then have inv: "closed_blocks K" "work_cached C K (chainwork_cache cs)" by simp_all
  obtain w cs1 where w: "chainwork_for_header C header height cs1 = Ok w" "chainwork_cache cs1 = chainwork_cache cs"
    "chainwork_cache cs' = tree_write (hash_le h) (Some (u256_be w)) (chainwork_cache cs)"
    by (rule index_connected_work [OF side(3)]) (rule that)
  have "work_cached C K (chainwork_cache cs1)" using inv(2) w(2) by simp
  then obtain prev where "w = saturating_add prev (calculate_work_from_bits C (bits header))"
    "height > 0 \<Longrightarrow> prev = of_nat (chain_work C K (prev_block_hash header))" "height = 0 \<Longrightarrow> prev = 0"
    by (rule chainwork_for_header_prev [OF w(1) _ side(2)]) (rule that)
  from work_cached_write [OF inv side(2) this(2,3)] this(1) placed_closed [OF inv(1) side(2)] w(3) show ?case
    by (simp del: fun_upd_apply)
next
  case (batch K cs entries K' cs')
  then have inv: "closed_blocks K" "work_cached C K (chainwork_cache cs)" by simp_all
  show ?case
  proof (cases entries)
    case Nil
    with batch show ?thesis by (simp add: index_connected_blocks_batch_def)
  next
    case (Cons x xs)
    obtain h header height where x: "x = (h, header, height)" by (cases x)
    obtain prev where prev: "(if height > 0 then get_chainwork (prev_block_hash header) cs else Some 0) = Some prev"
      "chainwork_cache cs' = batch_commit (map (\<lambda>(h, _, cw). (hash_le h, Some (u256_be cw))) (running_work C prev entries)) (chainwork_cache cs)"
      using batch(4) by (auto simp: index_connected_blocks_batch_def Cons x Let_def split: option.splits if_splits)
    have pl: "placed K h header height" using batch(2) by (simp add: Cons x split: if_splits)
    have "height > 0 \<Longrightarrow> prev = of_nat (chain_work C K (prev_block_hash header))"
      using prev(1) pl work_cachedD [OF inv(2)] by (auto simp: placed_def get_chainwork_cached)
    moreover have "height = 0 \<Longrightarrow> prev = 0" using prev(1) by simp
    ultimately show ?thesis unfolding prev(2) by (intro batch_work [OF inv batch(2,3)]) (simp add: Cons x)
  qed
next
  case (invalid K cs now h cs')
  then show ?case by (auto simp: mark_invalid_def split: sum.splits option.splits)
next
  case (valid K cs h cs')
  then show ?case by (auto simp: reconsider_def split: sum.splits option.splits)
next
  case (row K cs key bytes)
  then show ?case by (simp add: put_info_def)
qed



section \<open>Labels and the tip\<close>

text \<open>What is documented of bincode, for a header whose version is a 64-bit integer.\<close>

definition header_ok :: "block_header \<Rightarrow> bool" where
  "header_ok header \<longleftrightarrow> i64_min \<le> hdr_version header \<and> hdr_version header \<le> i64_max"

definition infos_roundtrip :: "'c chain_codec_scheme \<Rightarrow> bool" where
  "infos_roundtrip C \<longleftrightarrow> (\<forall>info. header_ok (ci_tip_header info) \<longrightarrow> de_info C (ser_info C info) = Ok info)"

definition tip_height :: "'c chain_codec_scheme \<Rightarrow> chain_state \<Rightarrow> u64" where
  "tip_height C cs = (case get_height C cs of Ok (Some h) \<Rightarrow> h | _ \<Rightarrow> 0)"

inductive label_step :: "'c chain_codec_scheme \<Rightarrow> chain_state \<Rightarrow> chain_state \<Rightarrow> bool" for C where
  tip: "label_step C cs cs'" if "header_ok header" "update_tip C h header height cs = Ok cs'" "tip_height C cs \<le> height"
| flush: "label_step C cs cs'" if "persist_ibd_utxo_flush_checkpoint C height muhash cs = Ok cs'"
| complete: "label_step C cs cs'" if "persist_engine_checkpoint_complete C height slot n secs muhash cs = Ok cs'"
| export: "label_step C cs cs'" if "persist_engine_export_height C height cs = Ok cs'"
| muhash: "label_step C cs (persist_ibd_utxo_muhash_running_only muhash cs)"
| reset: "label_step C cs (force_reset_engine_checkpoint_metadata cs)"

definition labels_below :: "'c chain_codec_scheme \<Rightarrow> chain_state \<Rightarrow> bool" where
  "labels_below C cs \<longleftrightarrow>
     (\<exists>found. get_height C cs = Ok found)
     \<and> (\<forall>h. get_utxo_watermark cs = Some h \<longrightarrow> h \<le> tip_height C cs)
     \<and> (\<forall>h. get_engine_export_height cs = Some h \<longrightarrow> h \<le> tip_height C cs)"

lemma u64_row_write [simp]:
  "u64_row key (tree_write key' row t) =
     (if key = key' then Option.bind row (\<lambda>data. if length data < 8 then None else Some (u64_of_be (take 8 data)))
      else u64_row key t)"
  by (simp add: u64_row_def split: option.split)

text \<open>A row other than the tip record leaves the tip as it is.\<close>

lemma get_height_row:
  "hm_get (chain_info_tree cs') (ascii ''current'') = hm_get (chain_info_tree cs) (ascii ''current'')
    \<Longrightarrow> get_height C cs' = get_height C cs"
  by (simp add: get_height_def load_chain_info_def)

lemma labels_belowI:
  assumes "labels_below C cs" "get_height C cs' = get_height C cs"
    and "get_utxo_watermark cs' \<in> {get_utxo_watermark cs} \<union> Some ` {..tip_height C cs}"
    and "get_engine_export_height cs' \<in> {get_engine_export_height cs} \<union> Some ` {..tip_height C cs}"
  shows "labels_below C cs'"
  using assms by (auto simp: labels_below_def tip_height_def)


lemma update_tip_info:
  assumes "update_tip C h header height cs = Ok cs'"
  obtains info where "chain_info_tree cs' = tree_write (ascii ''current'') (Some (ser_info C info)) (chain_info_tree cs)"
    "ci_tip_hash info = h" "ci_tip_header info = header" "ci_height info = height"
  using assms by (auto simp: update_tip_def index_writes_def Let_def split: sum.splits option.splits)

lemma labels_below_tip:
  assumes "update_tip C h header height cs = Ok cs'" "tip_height C cs \<le> height" "infos_roundtrip C" "labels_below C cs"
    and "header_ok header"
  shows "labels_below C cs'"
proof -
  obtain info where info: "chain_info_tree cs' = tree_write (ascii ''current'') (Some (ser_info C info)) (chain_info_tree cs)"
    "ci_tip_header info = header" "ci_height info = height" by (rule update_tip_info [OF assms(1)])
  have "get_height C cs' = Ok (Some height)"
    using assms(3,5) info by (simp add: get_height_def load_chain_info_def infos_roundtrip_def)
  moreover have "get_utxo_watermark cs' = get_utxo_watermark cs" "get_engine_export_height cs' = get_engine_export_height cs"
    by (simp_all add: get_utxo_watermark_def get_engine_export_height_def info(1))
  ultimately show ?thesis using assms(2,4) by (auto simp: labels_below_def tip_height_def)
qed

lemmas label_defs = get_utxo_watermark_def get_engine_export_height_def put_info_def insert_is_write

lemma label_step_below:
  assumes "label_step C cs cs'" "infos_roundtrip C" "labels_below C cs"
  shows "labels_below C cs'"
  using assms(1)
proof cases
  case (tip h header height)
  then show ?thesis by (intro labels_below_tip [OF _ _ assms(2,3)])
next
  case (flush height muhash)
  obtain found where found: "get_height C cs = Ok found" using assms(3) by (auto simp: labels_below_def)
  then have t: "tip_height C cs = (case found of Some h \<Rightarrow> h | None \<Rightarrow> 0)" by (simp add: tip_height_def)
  show ?thesis
    by (rule labels_belowI [OF assms(3) get_height_row])
      (use flush found in \<open>auto simp: persist_ibd_utxo_flush_checkpoint_def label_defs t Let_def split: if_splits\<close>)
next
  case (complete height slot n secs muhash)
  obtain found where found: "get_height C cs = Ok found" using assms(3) by (auto simp: labels_below_def)
  then have t: "tip_height C cs = (case found of Some h \<Rightarrow> h | None \<Rightarrow> 0)" by (simp add: tip_height_def)
  show ?thesis
    by (rule labels_belowI [OF assms(3) get_height_row])
      (use complete found in \<open>auto simp: persist_engine_checkpoint_complete_def persist_ibd_utxo_muhash_running_only_def
        slot_key_def label_defs t Let_def split: if_splits\<close>)
next
  case (export height)
  obtain found where found: "get_height C cs = Ok found" using assms(3) by (auto simp: labels_below_def)
  then have t: "tip_height C cs = (case found of Some h \<Rightarrow> h | None \<Rightarrow> 0)" by (simp add: tip_height_def)
  show ?thesis
    by (rule labels_belowI [OF assms(3) get_height_row])
      (use export found in \<open>auto simp: persist_engine_export_height_def label_defs t Let_def split: if_splits\<close>)
next
  case (muhash muhash)
  show ?thesis
    by (rule labels_belowI [OF assms(3) get_height_row])
      (simp_all add: muhash persist_ibd_utxo_muhash_running_only_def label_defs)
next
  case reset
  show ?thesis
    by (rule labels_belowI [OF assms(3) get_height_row])
      (simp_all add: reset force_reset_engine_checkpoint_metadata_def label_defs)
qed

lemma label_steps_below: "(label_step C)\<^sup>*\<^sup>* new_chain_state cs \<Longrightarrow> infos_roundtrip C \<Longrightarrow> labels_below C cs"
proof (induction rule: rtranclp_induct)
  case base
  then show ?case
    by (simp add: labels_below_def get_height_def load_chain_info_def label_defs u64_row_def new_chain_state_def)
next
  case (step cs cs')
  then show ?case using label_step_below by blast
qed



section \<open>An example\<close>

text \<open>The tip record as fixed-width fields, the name of the network last; the proof of a target is the target itself.\<close>

definition demo_ser_info :: "chain_info \<Rightarrow> byte_string" where
  "demo_ser_info i =
     (let h = ci_tip_header i; p = ci_chain_params i in
      hash_le (ci_tip_hash i) @ i64_le (hdr_version h) @ hash_le (prev_block_hash h) @ hash_le (merkle_root h)
      @ u64_le (timestamp h) @ u64_le (bits h) @ u64_le (nonce h) @ u64_le (ci_height i) @ u64_le (ci_total_work i)
      @ hash_le (cp_genesis_hash p) @ u64_le (cp_max_target p) @ u64_le (cp_subsidy_halving_interval p) @ ascii (cp_network p))"

definition demo_de_info :: "byte_string \<Rightarrow> (chain_info, string) result" where
  "demo_de_info bs =
     Ok \<lparr> ci_tip_hash = hash_of_bytes (take 32 bs),
          ci_tip_header = \<lparr> hdr_version = i64_of (slice bs 32 40), prev_block_hash = hash_of_bytes (slice bs 40 72),
            merkle_root = hash_of_bytes (slice bs 72 104), timestamp = u64_of (slice bs 104 112),
            bits = u64_of (slice bs 112 120), nonce = u64_of (slice bs 120 128) \<rparr>,
          ci_height = u64_of (slice bs 128 136), ci_total_work = u64_of (slice bs 136 144),
          ci_chain_params = \<lparr> cp_network = map (\<lambda>b. char_of (unat b)) (drop 192 bs),
            cp_genesis_hash = hash_of_bytes (slice bs 144 176), cp_max_target = u64_of (slice bs 176 184),
            cp_subsidy_halving_interval = u64_of (slice bs 184 192) \<rparr> \<rparr>"

definition demo_chain_codec :: chain_codec where
  "demo_chain_codec =
     \<lparr> ser_entry = ser_entry demo_index_codec, de_entry = de_entry demo_index_codec,
       ser_info = demo_ser_info, de_info = demo_de_info, ser_stats = (\<lambda>_. []), de_stats = (\<lambda>_. Err ''stats''),
       ser_tip = (\<lambda>_. []), de_tip = (\<lambda>_. Err ''tip''), get_block_proof = (\<lambda>target. Ok (ucast target)),
       HALVING_INTERVAL = 210000, MUHASH_RUNNING_STATE_BYTES = 768 \<rparr>"

lemma ascii_back: "map (\<lambda>b. char_of (unat b)) (ascii s) = s"
proof -
  have "char_of (unat (of_nat (of_char c) :: u8)) = c" for c
    using nat_of_char_less_256 [of c] by (simp add: unat_byte_of_nat)
  then show ?thesis by (simp add: ascii_def map_idI)
qed

lemma demo_infos_roundtrip: "infos_roundtrip demo_chain_codec"
  unfolding infos_roundtrip_def
proof (intro allI impI)
  fix info :: chain_info
  assume "header_ok (ci_tip_header info)"
  then have "i64_of (i64_le (hdr_version (ci_tip_header info))) = hdr_version (ci_tip_header info)"
    by (simp add: header_ok_def)
  then show "de_info demo_chain_codec (ser_info demo_chain_codec info) = Ok info"
    by (simp add: demo_chain_codec_def demo_ser_info_def demo_de_info_def slice_def Let_def ascii_back)
qed


definition demo_header :: "hash \<Rightarrow> u64 \<Rightarrow> block_header" where
  "demo_header prev target =
     \<lparr> hdr_version = 1, prev_block_hash = prev, merkle_root = 0, timestamp = 0, bits = target, nonce = 0 \<rparr>"

text \<open>A first block, its child 2 on the active chain and a rival 3 of that child with a higher target.\<close>

definition demo_active :: "(hash \<times> block_header \<times> u64) list" where
  "demo_active = [(1, demo_header 0 1, 0), (2, demo_header 1 5, 1)]"

definition demo_side :: "(hash \<times> block_header \<times> u64) list" where
  "demo_side = [(3, demo_header 1 7, 1)]"

definition demo_known :: known_blocks where
  "demo_known = [1 \<mapsto> (demo_header 0 1, 0), 2 \<mapsto> (demo_header 1 5, 1), 3 \<mapsto> (demo_header 1 7, 1)]"

lemma demo_work [simp]: "calculate_work_from_bits demo_chain_codec target = ucast target"
  by (simp add: calculate_work_from_bits_def demo_chain_codec_def)

lemma demo_fork:
  obtains cs where "connected demo_chain_codec demo_known cs" "get_tip_hash_and_height demo_chain_codec cs = Ok (2, 1)"
proof -
  let ?C = demo_chain_codec
  let ?K2 = "[1 \<mapsto> (demo_header 0 1, 0 :: u64), 2 \<mapsto> (demo_header 1 5, 1 :: u64)] :: known_blocks"
  obtain cs1 where cs1: "index_connected_blocks_batch ?C demo_active new_chain_state = Ok cs1"
    by (simp add: index_connected_blocks_batch_def demo_active_def Let_def)
  have "place_all Map.empty demo_active = Some ?K2" by (simp add: demo_active_def placed_def demo_header_def)
  then have c1: "connected ?C ?K2 cs1"
    using connected.batch [OF connected.start _ _ cs1] by (simp add: demo_active_def demo_header_def)
  have w: "get_chainwork 1 cs1 \<noteq> None"
    using connected_work [OF c1] by (simp add: work_cached_def get_chainwork_cached)
  then obtain cs2 where cs2: "index_connected_blocks_batch ?C demo_side cs1 = Ok cs2"
    by (auto simp: index_connected_blocks_batch_def demo_side_def demo_header_def Let_def)
  have "place_all ?K2 demo_side = Some demo_known" by (simp add: demo_side_def demo_known_def placed_def demo_header_def)
  then have c2: "connected ?C demo_known cs2" using connected.batch [OF c1 _ _ cs2] by (simp add: demo_side_def)
  have w2: "get_chainwork 1 cs2 \<noteq> None"
    using connected_work [OF c2] by (simp add: work_cached_def get_chainwork_cached demo_known_def)
  have info: "chain_info_tree cs2 = []"
    using cs1 cs2 by (auto simp: index_connected_blocks_batch_def demo_side_def demo_active_def Let_def new_chain_state_def
        split: option.splits if_splits)
  have "block_index cs2 = insert_ibd_batch ?C [(3, 1, 1)] (insert_ibd_batch ?C [(1, 0, 0), (2, 1, 1)] [])"
    using cs1 cs2 by (auto simp: index_connected_blocks_batch_def demo_side_def demo_active_def demo_header_def Let_def
        new_chain_state_def split: option.splits if_splits)
  then have idx: "\<exists>e. index_get ?C 2 (block_index cs2) = Ok (Some e)"
    using demo_keys
    by (simp add: insert_ibd_batch_def batch_rows_def is_block_key_def Let_def demo_chain_codec_def)
  have "\<exists>cs3. update_tip ?C 2 (demo_header 1 5) 1 cs2 = Ok cs3"
    using idx w2 by (auto simp: update_tip_def prepare_insert_def chainwork_for_header_def load_chain_info_def info
        demo_header_def Let_def)
  then obtain cs3 where cs3: "update_tip ?C 2 (demo_header 1 5) 1 cs2 = Ok cs3" by blast
  have "placed demo_known 2 (demo_header 1 5) 1" by (simp add: placed_def demo_known_def demo_header_def)
  moreover have "demo_known(2 \<mapsto> (demo_header 1 5, 1)) = demo_known" by (simp add: demo_known_def fun_eq_iff)
  ultimately have "connected ?C demo_known cs3" using connected.tip [OF c2 _ cs3] by simp
  moreover obtain i where "chain_info_tree cs3 = tree_write (ascii ''current'') (Some (ser_info ?C i)) (chain_info_tree cs2)"
    "ci_tip_hash i = 2" "ci_tip_header i = demo_header 1 5" "ci_height i = 1" by (rule update_tip_info [OF cs3])
  then have "get_tip_hash_and_height ?C cs3 = Ok (2, 1)"
    using demo_infos_roundtrip
    by (simp add: get_tip_hash_and_height_def load_chain_info_def infos_roundtrip_def header_ok_def demo_header_def i64_min_def i64_max_def)
  ultimately show thesis by (rule that)
qed

lemma demo_tip:
  assumes "update_tip demo_chain_codec h (demo_header prev target) height cs = Ok cs'"
  shows "get_height demo_chain_codec cs' = Ok (Some height)" "\<exists>info. load_chain_info demo_chain_codec cs' = Ok (Some info)"
    "get_chainwork h cs' \<noteq> None" "get_utxo_watermark cs' = get_utxo_watermark cs"
proof -
  obtain i where i: "chain_info_tree cs' = tree_write (ascii ''current'') (Some (ser_info demo_chain_codec i)) (chain_info_tree cs)"
    "ci_tip_header i = demo_header prev target" "ci_height i = height" by (rule update_tip_info [OF assms])
  have "load_chain_info demo_chain_codec cs' = Ok (Some i)"
    using demo_infos_roundtrip i
    by (simp add: load_chain_info_def infos_roundtrip_def header_ok_def demo_header_def i64_min_def i64_max_def)
  then show "get_height demo_chain_codec cs' = Ok (Some height)" "\<exists>info. load_chain_info demo_chain_codec cs' = Ok (Some info)"
    using i(3) by (simp_all add: get_height_def)
  obtain w where "chainwork_cache cs' = tree_write (hash_le h) (Some (u256_be w)) (chainwork_cache cs)"
    by (rule update_tip_work [OF assms])
  then show "get_chainwork h cs' \<noteq> None" by (simp add: get_chainwork_cached)
  show "get_utxo_watermark cs' = get_utxo_watermark cs" by (simp add: get_utxo_watermark_def i(1))
qed

lemma demo_labels:
  obtains cs where "(label_step demo_chain_codec)\<^sup>*\<^sup>* new_chain_state cs"
    "get_height demo_chain_codec cs = Ok (Some 1)" "get_utxo_watermark cs = None"
proof -
  let ?C = demo_chain_codec
  have ok: "header_ok (demo_header prev target)" for prev target
    by (simp add: header_ok_def demo_header_def i64_min_def i64_max_def)
  obtain cs1 where cs1: "update_tip ?C 1 (demo_header 0 1) 0 new_chain_state = Ok cs1"
    by (simp add: update_tip_def prepare_insert_def chainwork_for_header_def load_chain_info_def new_chain_state_def Let_def)
  then have "block_index cs1 = tree_write SEQUENCE_COUNTER_KEY (Some (u64_be 1))
      (tree_write (hash_le 1) (Some (ser_entry ?C \<lparr> idx_height = 0, idx_prev_hash = 0, idx_status = Valid, sequence_id = 1 \<rparr>)) [])"
    by (auto simp: update_tip_def prepare_insert_def index_writes_def chainwork_for_header_def load_chain_info_def
        new_chain_state_def peek_next_sequence_id_def saturating_add_def demo_header_def Let_def)
  then have "index_get ?C 2 (block_index cs1) = Ok None" using demo_keys by (simp add: is_block_key_def)
  moreover obtain w where "get_chainwork 1 cs1 = Some w" using demo_tip(3) [OF cs1] by blast
  moreover obtain i where "load_chain_info ?C cs1 = Ok (Some i)" using demo_tip(2) [OF cs1] by blast
  ultimately have "\<exists>cs2. update_tip ?C 2 (demo_header 1 5) 1 cs1 = Ok cs2"
    by (simp add: update_tip_def prepare_insert_def chainwork_for_header_def demo_header_def Let_def)
  then obtain cs2 where cs2: "update_tip ?C 2 (demo_header 1 5) 1 cs1 = Ok cs2" by blast
  have "label_step ?C new_chain_state cs1"
    by (rule label_step.tip [OF ok cs1])
      (simp add: tip_height_def get_height_def load_chain_info_def new_chain_state_def)
  moreover have "label_step ?C cs1 cs2"
    by (rule label_step.tip [OF ok cs2]) (simp add: tip_height_def demo_tip(1) [OF cs1])
  moreover have "get_utxo_watermark cs2 = None"
    unfolding demo_tip(4) [OF cs2] demo_tip(4) [OF cs1]
    by (simp add: get_utxo_watermark_def u64_row_def new_chain_state_def)
  ultimately show thesis
    using that [of cs2] demo_tip(1) [OF cs2] by (meson converse_rtranclp_into_rtranclp r_into_rtranclp)
qed


section \<open>Properties\<close>

text \<open>
  C9. The fork choice is by work: in every state reached by connecting blocks, on the active chain, beside it or in
  batches, a candidate is preferred to the active tip exactly when the sum of the proofs of its chain, cut off at the
  largest 256-bit number, is strictly larger. On equal work the active tip stays, whichever of the two was connected
  first; \<^verbatim>\<open>docs/FORK_CHOICE_AND_REORG.md\<close> gives the lower sequence id the preference there.
\<close>

theorem fork_choice_most_work:
  assumes "connected C K cs" "get_tip_hash_and_height C cs = Ok (tip, height)" "K tip \<noteq> None" "K candidate \<noteq> None"
  shows "should_activate_over_active_tip C cs candidate = Ok (chain_work C K tip < chain_work C K candidate)"
proof -
  have inv: "work_cached C K (chainwork_cache cs)" using connected_work [OF assms(1)] by simp
  have at: "chainwork_at cs h = of_nat (chain_work C K h)" "chain_work C K h \<le> 2 ^ 256 - 1" if "K h \<noteq> None" for h
    using that inv by (auto simp: chainwork_at_def get_chainwork_cached work_cached_def chain_work_def)
  have "(of_nat a < (of_nat b :: u256)) = (a < b)" if "a \<le> 2 ^ 256 - 1" "b \<le> 2 ^ 256 - 1" for a b
    using that by (simp add: word_less_nat_alt unat_of_nat)
  with at assms(2-4) show ?thesis by (simp add: should_activate_over_active_tip_def)
qed

theorem fork_choice_most_work_witness: "\<exists>cs. should_activate_over_active_tip demo_chain_codec cs 3 = Ok True"
proof -
  obtain cs where cs: "connected demo_chain_codec demo_known cs" "get_tip_hash_and_height demo_chain_codec cs = Ok (2, 1)"
    by (rule demo_fork)
  have "chain_work demo_chain_codec demo_known 2 = 6" "chain_work demo_chain_codec demo_known 3 = 8"
    by (simp_all add: chain_work_def block_work_def parent_of_def demo_known_def demo_header_def)
  with fork_choice_most_work [OF cs, of 3] show ?thesis by (auto simp: demo_known_def)
qed

text \<open>
  C22. No checkpoint of the initial download is labelled above the stored chain: while the tip does not move down, in
  every state reached by moving the tip, flushing, completing and resetting checkpoints, the height can be read and the
  watermark of the coins and the height of the last export are at most the height of the tip.
\<close>

theorem checkpoint_labels_below_tip:
  assumes "(label_step C)\<^sup>*\<^sup>* new_chain_state cs" "infos_roundtrip C"
  shows "(\<exists>found. get_height C cs = Ok found)
    \<and> (\<forall>h. get_utxo_watermark cs = Some h \<longrightarrow> h \<le> tip_height C cs)
    \<and> (\<forall>h. get_engine_export_height cs = Some h \<longrightarrow> h \<le> tip_height C cs)"
  using label_steps_below [OF assms] by (simp add: labels_below_def)

theorem checkpoint_labels_below_tip_witness:
  "\<exists>cs. get_utxo_watermark cs = Some 1 \<and> (1 :: u64) \<le> tip_height demo_chain_codec cs"
proof -
  let ?C = demo_chain_codec
  obtain cs where steps: "(label_step ?C)\<^sup>*\<^sup>* new_chain_state cs" and height: "get_height ?C cs = Ok (Some 1)"
    and wm: "get_utxo_watermark cs = None" by (rule demo_labels)
  let ?cs = "cs \<lparr> chain_info_tree := batch_commit [(ascii ''ibd_utxo_watermark'', Some (u64_be 1)),
    (ascii ''ibd_utxo_muhash_running'', Some [])] (chain_info_tree cs) \<rparr>"
  have "persist_ibd_utxo_flush_checkpoint ?C 1 [] cs = Ok ?cs"
    by (simp add: persist_ibd_utxo_flush_checkpoint_def height wm Let_def)
  then have "(label_step ?C)\<^sup>*\<^sup>* new_chain_state ?cs"
    by (rule rtranclp.rtrancl_into_rtrancl [OF steps label_step.flush])
  from checkpoint_labels_below_tip [OF this demo_infos_roundtrip]
  have "get_utxo_watermark ?cs = Some 1 \<longrightarrow> 1 \<le> tip_height ?C ?cs" by blast
  moreover have "get_utxo_watermark ?cs = Some 1" by (simp add: get_utxo_watermark_def)
  ultimately show ?thesis by blast
qed

end
