(* ===== verification/Block_Store.thy ===== *)
theory Block_Store
  imports Chain_State
begin

text \<open>
  The store of blocks, \<^verbatim>\<open>storage/blockstore.rs\<close>, and its use when a block is stored, \<^verbatim>\<open>node/block_processor.rs\<close>: bodies,
  headers, witnesses and undo logs as rows of key-value trees, and the two height indexes. This is the default build:
  the LMDB engine, no compressed rows, no reader of the block files of Bitcoin Core.
\<close>


section \<open>Data\<close>

record undo_entry =
  undo_outpoint :: outpoint
  previous_utxo :: "utxo option"
  new_utxo :: "utxo option"

type_synonym undo_log = "undo_entry list"

record store_codec = chain_codec +
  ser_header :: "block_header \<Rightarrow> byte_string"
  de_header :: "byte_string \<Rightarrow> (block_header, string) result"
  ser_block :: "block \<Rightarrow> byte_string"
  de_block :: "byte_string \<Rightarrow> (block, string) result"
  ser_metadata :: "u32 \<Rightarrow> byte_string"
  de_metadata :: "byte_string \<Rightarrow> (u32, string) result"
  ser_witnesses :: "witness list list \<Rightarrow> byte_string"
  de_witnesses :: "byte_string \<Rightarrow> (witness list list, string) result"
  ser_undo :: "undo_log \<Rightarrow> byte_string"
  de_undo :: "byte_string \<Rightarrow> (undo_log, string) result"
  deserialize_block_with_witnesses :: "byte_string \<Rightarrow> (block \<times> witness list list, string) result"

record block_store =
  blocks :: kv_tree
  headers :: kv_tree
  height_index :: kv_tree
  hash_to_height :: kv_tree
  witnesses :: kv_tree
  recent_headers :: kv_tree
  block_metadata :: kv_tree
  block_undo :: kv_tree

datatype store_tree = Blocks | Headers | Height_Index | Hash_To_Height | Block_Metadata | Recent_Headers

fun at_store :: "store_tree \<Rightarrow> (kv_tree \<Rightarrow> kv_tree) \<Rightarrow> block_store \<Rightarrow> block_store" where
  "at_store Blocks f bs = bs \<lparr> blocks := f (blocks bs) \<rparr>"
| "at_store Headers f bs = bs \<lparr> headers := f (headers bs) \<rparr>"
| "at_store Height_Index f bs = bs \<lparr> height_index := f (height_index bs) \<rparr>"
| "at_store Hash_To_Height f bs = bs \<lparr> hash_to_height := f (hash_to_height bs) \<rparr>"
| "at_store Block_Metadata f bs = bs \<lparr> block_metadata := f (block_metadata bs) \<rparr>"
| "at_store Recent_Headers f bs = bs \<lparr> recent_headers := f (recent_headers bs) \<rparr>"

definition new_block_store :: block_store where
  "new_block_store = \<lparr> blocks = [], headers = [], height_index = [], hash_to_height = [], witnesses = [],
     recent_headers = [], block_metadata = [], block_undo = [] \<rparr>"

definition WIRE_BODY_MAGIC :: byte_string where
  "WIRE_BODY_MAGIC = ascii ''BLVW''"

definition is_wire_body_blob :: "byte_string \<Rightarrow> bool" where
  "is_wire_body_blob data = (length data \<ge> 8 \<and> take 4 data = WIRE_BODY_MAGIC)"

definition encode_wire_body_blob :: "byte_string \<Rightarrow> byte_string" where
  "encode_wire_body_blob payload = WIRE_BODY_MAGIC @ le_bytes 4 (length payload mod 2 ^ 32) @ payload"

definition decode_wire_body_blob :: "byte_string \<Rightarrow> byte_string option" where
  "decode_wire_body_blob data =
     (if \<not> is_wire_body_blob data then None
      else
        let len = from_le_bytes (slice data 4 8) in
        if length data < 8 + len then None else Some (slice data 8 (8 + len)))"

definition block_height_row_key :: "u64 \<Rightarrow> hash \<Rightarrow> byte_string" where
  "block_height_row_key height h = u64_be height @ hash_le h"

definition block_hash :: "'a tx_api_scheme \<Rightarrow> block \<Rightarrow> hash" where
  "block_hash P blk =
     (let header = blk_header blk in
      double_sha256 P (le_bytes 4 (nat (hdr_version header mod 2 ^ 32)) @ hash_le (prev_block_hash header)
       @ hash_le (merkle_root header) @ le_bytes 4 (unat (timestamp header) mod 2 ^ 32)
       @ le_bytes 4 (unat (bits header) mod 2 ^ 32) @ le_bytes 4 (unat (nonce header) mod 2 ^ 32)))"


section \<open>Height indexes\<close>

definition store_height :: "u64 \<Rightarrow> hash \<Rightarrow> block_store \<Rightarrow> block_store" where
  "store_height height h bs =
     commit_keyed at_store
       [(Height_Index, u64_be height, Some (hash_le h)), (Hash_To_Height, hash_le h, Some (u64_be height))] bs"

definition store_hash_height :: "u64 \<Rightarrow> hash \<Rightarrow> block_store \<Rightarrow> block_store" where
  "store_hash_height height h bs = bs \<lparr> hash_to_height := hm_insert (hash_le h) (u64_be height) (hash_to_height bs) \<rparr>"

definition get_hash_by_height :: "u64 \<Rightarrow> block_store \<Rightarrow> (hash option, string) result" where
  "get_hash_by_height height bs =
     (case hm_get (height_index bs) (u64_be height) of
        Some data \<Rightarrow> if length data \<noteq> 32 then Err ''height index row'' else Ok (Some (hash_of_bytes data))
      | None \<Rightarrow> Ok None)"

definition get_height_by_hash :: "hash \<Rightarrow> block_store \<Rightarrow> (u64 option, string) result" where
  "get_height_by_hash h bs =
     (case hm_get (hash_to_height bs) (hash_le h) of
        Some data \<Rightarrow> if length data \<noteq> 8 then Err ''hash-to-height row'' else Ok (Some (u64_of_be data))
      | None \<Rightarrow> Ok None)"

definition clear_height_index :: "u64 \<Rightarrow> block_store \<Rightarrow> block_store" where
  "clear_height_index height bs = bs \<lparr> height_index := hm_remove (u64_be height) (height_index bs) \<rparr>"

text \<open>
  The search for the highest stored height. The heights probed stay below 2^33, so they are natural numbers here. The
  doubling loop stops at two thousand million.
\<close>

function gallop :: "block_store \<Rightarrow> nat \<Rightarrow> nat \<Rightarrow> (nat \<times> nat, string) result" where
  "gallop bs lo hi =
     (if hi = 0 \<or> hi > 2000000000 then Ok (lo, hi)
      else case get_hash_by_height (of_nat hi) bs of
        Err e \<Rightarrow> Err e
      | Ok None \<Rightarrow> Ok (lo, hi)
      | Ok (Some _) \<Rightarrow> gallop bs hi (hi * 2))"
  by pat_completeness auto
termination by (relation "measure (\<lambda>(bs, lo, hi). 2000000001 - hi)") auto

function bisect :: "block_store \<Rightarrow> nat \<Rightarrow> nat \<Rightarrow> (nat, string) result" where
  "bisect bs lo hi =
     (if lo + 1 < hi then
        let mid = lo + (hi - lo) div 2 in
        case get_hash_by_height (of_nat mid) bs of
          Err e \<Rightarrow> Err e
        | Ok (Some _) \<Rightarrow> bisect bs mid hi
        | Ok None \<Rightarrow> bisect bs lo mid
      else Ok lo)"
  by pat_completeness auto
termination by (relation "measure (\<lambda>(bs, lo, hi). hi - lo)") auto

definition highest_stored_height :: "block_store \<Rightarrow> (u64 option, string) result" where
  "highest_stored_height bs =
     (case get_hash_by_height 0 bs of
        Err e \<Rightarrow> Err e
      | Ok None \<Rightarrow> Ok None
      | Ok (Some _) \<Rightarrow>
          (case gallop bs 0 1 of
             Err e \<Rightarrow> Err e
           | Ok (lo, hi) \<Rightarrow>
               (case get_hash_by_height (of_nat hi) bs of
                  Err e \<Rightarrow> Err e
                | Ok (Some _) \<Rightarrow> Ok (Some (of_nat hi))
                | Ok None \<Rightarrow>
                    (case bisect bs lo hi of Err e \<Rightarrow> Err e | Ok h \<Rightarrow> Ok (Some (of_nat h))))))"

function probe_gap :: "block_store \<Rightarrow> u64 \<Rightarrow> nat \<Rightarrow> nat \<Rightarrow> (u64 option, string) result" where
  "probe_gap bs gap probe stride =
     (if probe < 2000000000 \<and> stride > 0 then
        case get_hash_by_height (of_nat probe) bs of
          Err e \<Rightarrow> Err e
        | Ok (Some _) \<Rightarrow> Ok (Some gap)
        | Ok None \<Rightarrow> probe_gap bs gap (probe + stride) (stride * 2)
      else Ok None)"
  by pat_completeness auto
termination by (relation "measure (\<lambda>(bs, gap, probe, stride). 2000000000 - probe)") auto

definition stored_height_gap :: "block_store \<Rightarrow> (u64 option, string) result" where
  "stored_height_gap bs =
     (case highest_stored_height bs of
        Err e \<Rightarrow> Err e
      | Ok None \<Rightarrow> probe_gap bs 0 1 1
      | Ok (Some contiguous) \<Rightarrow>
          let gap = saturating_add contiguous 1 in probe_gap bs gap (unat gap) 1)"

declare gallop.simps [simp del] bisect.simps [simp del] probe_gap.simps [simp del]


section \<open>Headers\<close>

definition store_header :: "'c store_codec_scheme \<Rightarrow> hash \<Rightarrow> block_header \<Rightarrow> block_store \<Rightarrow> block_store" where
  "store_header C h header bs = bs \<lparr> headers := hm_insert (hash_le h) (ser_header C header) (headers bs) \<rparr>"

text \<open>A row under height and hash is preferred to one under the hash alone.\<close>

definition row_of :: "hash \<Rightarrow> kv_tree \<Rightarrow> block_store \<Rightarrow> (byte_string option, string) result" where
  "row_of h t bs =
     (case get_height_by_hash h bs of
        Err e \<Rightarrow> Err e
      | Ok (Some height) \<Rightarrow>
          (case hm_get t (block_height_row_key height h) of
             Some data \<Rightarrow> Ok (Some data)
           | None \<Rightarrow> Ok (hm_get t (hash_le h)))
      | Ok None \<Rightarrow> Ok (hm_get t (hash_le h)))"

definition get_header :: "'c store_codec_scheme \<Rightarrow> hash \<Rightarrow> block_store \<Rightarrow> (block_header option, string) result" where
  "get_header C h bs =
     (case row_of h (headers bs) bs of
        Err e \<Rightarrow> Err e
      | Ok None \<Rightarrow> Ok None
      | Ok (Some data) \<Rightarrow> (case de_header C data of Err e \<Rightarrow> Err e | Ok header \<Rightarrow> Ok (Some header)))"

fun header_batch ::
  "'c store_codec_scheme \<Rightarrow> (hash \<times> block_header \<times> u64) list \<Rightarrow> (u64, hash) hmap \<Rightarrow> block_store
    \<Rightarrow> (((byte_string \<times> byte_string option) list \<times> (byte_string \<times> byte_string option) list
         \<times> (byte_string \<times> byte_string option) list), string) result" where
  "header_batch C [] claimed bs = Ok ([], [], [])"
| "header_batch C ((h, header, height) # entries) claimed bs =
     (case (case hm_get claimed height of Some g \<Rightarrow> Ok (Some g) | None \<Rightarrow> get_hash_by_height height bs) of
        Err e \<Rightarrow> Err e
      | Ok active \<Rightarrow>
          let takes = (active = None \<or> active = Some h);
              claimed1 = (if takes then hm_insert height h claimed else claimed) in
          case header_batch C entries claimed1 bs of
            Err e \<Rightarrow> Err e
          | Ok (hs, ns, ks) \<Rightarrow>
              Ok ((hash_le h, Some (ser_header C header)) # hs,
                  (if takes then [(u64_be height, Some (hash_le h))] else []) @ ns,
                  (hash_le h, Some (u64_be height)) # ks))"

definition store_headers_batch ::
  "'c store_codec_scheme \<Rightarrow> (hash \<times> block_header \<times> u64) list \<Rightarrow> block_store \<Rightarrow> (block_store, string) result" where
  "store_headers_batch C entries bs =
     (if entries = [] then Ok bs
      else case header_batch C entries [] bs of
        Err e \<Rightarrow> Err e
      | Ok (header_ops, height_ops, hash_ops) \<Rightarrow>
          Ok (bs \<lparr> headers := batch_commit header_ops (headers bs), height_index := batch_commit height_ops (height_index bs),
                   hash_to_height := batch_commit hash_ops (hash_to_height bs) \<rparr>))"

definition recent_header_ops :: "'c store_codec_scheme \<Rightarrow> u64 \<Rightarrow> block_header \<Rightarrow> (byte_string \<times> byte_string option) list" where
  "recent_header_ops C height header =
     (u64_be height, Some (ser_header C header)) # (if height > 11 then [(u64_be (height - 12), None)] else [])"

definition store_recent_header :: "'c store_codec_scheme \<Rightarrow> u64 \<Rightarrow> block_header \<Rightarrow> block_store \<Rightarrow> block_store" where
  "store_recent_header C height header bs =
     bs \<lparr> recent_headers := batch_commit (recent_header_ops C height header) (recent_headers bs) \<rparr>"

definition store_recent_headers_ibd_batch ::
  "'c store_codec_scheme \<Rightarrow> (u64 \<times> block_header) list \<Rightarrow> block_store \<Rightarrow> block_store" where
  "store_recent_headers_ibd_batch C entries bs =
     (if entries = [] then bs
      else bs \<lparr> recent_headers :=
        batch_commit (concat (map (\<lambda>(height, header). recent_header_ops C height header) entries)) (recent_headers bs) \<rparr>)"

definition get_recent_headers :: "'c store_codec_scheme \<Rightarrow> nat \<Rightarrow> block_store \<Rightarrow> (block_header list, string) result" where
  "get_recent_headers C count bs =
     (if count = 0 then Ok []
      else case highest_stored_height bs of
        Err e \<Rightarrow> Err e
      | Ok None \<Rightarrow> Ok []
      | Ok (Some height) \<Rightarrow>
          Ok (rev (List.map_filter
            (\<lambda>n. case hm_get (recent_headers bs) (u64_be (of_nat n)) of
                Some data \<Rightarrow> (case de_header C data of Ok header \<Rightarrow> Some header | Err _ \<Rightarrow> None)
              | None \<Rightarrow> None)
            (take count (rev [0..<Suc (unat height)])))))"

definition get_header_at_height :: "'c store_codec_scheme \<Rightarrow> u64 \<Rightarrow> block_store \<Rightarrow> (block_header option, string) result" where
  "get_header_at_height C height bs =
     (case get_hash_by_height height bs of
        Err e \<Rightarrow> Err e
      | Ok None \<Rightarrow> Ok None
      | Ok (Some h) \<Rightarrow> get_header C h bs)"

fun all_headers :: "'c store_codec_scheme \<Rightarrow> nat list \<Rightarrow> block_store \<Rightarrow> (block_header list option, string) result" where
  "all_headers C [] bs = Ok (Some [])"
| "all_headers C (n # ns) bs =
     (case get_header_at_height C (of_nat n) bs of
        Err e \<Rightarrow> Err e
      | Ok None \<Rightarrow> Ok None
      | Ok (Some header) \<Rightarrow>
          (case all_headers C ns bs of
             Err e \<Rightarrow> Err e
           | Ok found \<Rightarrow> Ok (map_option (\<lambda>hs. header # hs) found)))"

definition median_time_at_height :: "'a tx_api_scheme \<Rightarrow> 'c store_codec_scheme \<Rightarrow> u64 \<Rightarrow> block_store \<Rightarrow> (u64 option, string) result" where
  "median_time_at_height P C height bs =
     (case all_headers C [unat (saturating_sub height 10)..<Suc (unat height)] bs of
        Err e \<Rightarrow> Err e
      | Ok found \<Rightarrow> Ok (map_option (get_median_time_past P) found))"

fun headers_until_missing :: "'c store_codec_scheme \<Rightarrow> nat list \<Rightarrow> block_store \<Rightarrow> (block_header list, string) result" where
  "headers_until_missing C [] bs = Ok []"
| "headers_until_missing C (n # ns) bs =
     (case get_header_at_height C (of_nat n) bs of
        Err e \<Rightarrow> Err e
      | Ok None \<Rightarrow> Ok []
      | Ok (Some header) \<Rightarrow>
          (case headers_until_missing C ns bs of Err e \<Rightarrow> Err e | Ok hs \<Rightarrow> Ok (header # hs)))"

definition headers_back_from :: "'c store_codec_scheme \<Rightarrow> u64 \<Rightarrow> nat \<Rightarrow> block_store \<Rightarrow> (block_header list, string) result" where
  "headers_back_from C end_height count bs =
     (if count = 0 then Ok []
      else
        let start = unat end_height - (count - 1) in
        case headers_until_missing C (rev [start..<Suc (unat end_height)]) bs of
          Err e \<Rightarrow> Err e
        | Ok hs \<Rightarrow> Ok (rev hs))"

fun headers_present :: "'c store_codec_scheme \<Rightarrow> nat list \<Rightarrow> block_store \<Rightarrow> (block_header list, string) result" where
  "headers_present C [] bs = Ok []"
| "headers_present C (n # ns) bs =
     (case get_header_at_height C (of_nat n) bs of
        Err e \<Rightarrow> Err e
      | Ok found \<Rightarrow>
          (case headers_present C ns bs of
             Err e \<Rightarrow> Err e
           | Ok hs \<Rightarrow> Ok (case found of Some header \<Rightarrow> header # hs | None \<Rightarrow> hs)))"

definition headers_before_height_for_mtp ::
  "'c store_codec_scheme \<Rightarrow> u64 \<Rightarrow> block_store \<Rightarrow> (block_header list, string) result" where
  "headers_before_height_for_mtp C before_height bs =
     (if before_height = 0 then Ok []
      else headers_present C [unat (saturating_sub before_height 11)..<unat before_height] bs)"

text \<open>The answer to \<^verbatim>\<open>getheaders\<close>.\<close>

fun locate_fork :: "hash list \<Rightarrow> block_store \<Rightarrow> (u64 option, string) result" where
  "locate_fork [] bs = Ok None"
| "locate_fork (h # hs) bs =
     (case get_height_by_hash h bs of
        Err e \<Rightarrow> Err e
      | Ok None \<Rightarrow> locate_fork hs bs
      | Ok (Some height) \<Rightarrow>
          (case get_hash_by_height height bs of
             Err e \<Rightarrow> Err e
           | Ok found \<Rightarrow> if found = Some h then Ok (Some height) else locate_fork hs bs))"

fun collect_headers ::
  "'c store_codec_scheme \<Rightarrow> nat list \<Rightarrow> nat \<Rightarrow> hash \<Rightarrow> hash option \<Rightarrow> block_store \<Rightarrow> (block_header list, string) result" where
  "collect_headers C [] cap hash_stop expect bs = Ok []"
| "collect_headers C (n # ns) cap hash_stop expect bs =
     (if cap = 0 then Ok []
      else case get_hash_by_height (of_nat n) bs of
        Err e \<Rightarrow> Err e
      | Ok None \<Rightarrow> Ok []
      | Ok (Some h) \<Rightarrow>
          (case get_header C h bs of
             Err e \<Rightarrow> Err e
           | Ok None \<Rightarrow> Ok []
           | Ok (Some hdr) \<Rightarrow>
               if (case expect of Some prev \<Rightarrow> prev_block_hash hdr \<noteq> prev | None \<Rightarrow> False) then Ok []
               else if hash_stop \<noteq> 0 \<and> h = hash_stop then Ok [hdr]
               else
                 (case collect_headers C ns (cap - 1) hash_stop (Some h) bs of
                    Err e \<Rightarrow> Err e
                  | Ok hs \<Rightarrow> Ok (hdr # hs))))"

definition build_headers_response ::
  "'c store_codec_scheme \<Rightarrow> hash list \<Rightarrow> hash \<Rightarrow> nat \<Rightarrow> block_store \<Rightarrow> (block_header list, string) result" where
  "build_headers_response C locator hash_stop max_headers bs =
     (case highest_stored_height bs of
        Err e \<Rightarrow> Err e
      | Ok None \<Rightarrow> Ok []
      | Ok (Some tip_h) \<Rightarrow>
          if locator = [] then
            (if hash_stop = 0 then Ok []
             else case get_height_by_hash hash_stop bs of
               Err e \<Rightarrow> Err e
             | Ok None \<Rightarrow> Ok []
             | Ok (Some height) \<Rightarrow>
                 (case get_hash_by_height height bs of
                    Err e \<Rightarrow> Err e
                  | Ok found \<Rightarrow>
                      if found \<noteq> Some hash_stop then Ok []
                      else case get_header C hash_stop bs of
                        Err e \<Rightarrow> Err e
                      | Ok found \<Rightarrow> Ok (case found of Some hdr \<Rightarrow> [hdr] | None \<Rightarrow> [])))
          else
            (case locate_fork locator bs of
               Err e \<Rightarrow> Err e
             | Ok None \<Rightarrow> Ok []
             | Ok (Some fork) \<Rightarrow>
                 let start = saturating_add fork 1 in
                 if start > tip_h then Ok []
                 else case (if start = 0 then Ok None else get_hash_by_height (start - 1) bs) of
                   Err e \<Rightarrow> Err e
                 | Ok expect \<Rightarrow>
                     collect_headers C [unat start..<Suc (unat tip_h)] (max max_headers 1) hash_stop expect bs))"


section \<open>Bodies, witnesses and undo logs\<close>

definition store_block :: "'a tx_api_scheme \<Rightarrow> 'c store_codec_scheme \<Rightarrow> block \<Rightarrow> block_store \<Rightarrow> block_store" where
  "store_block P C blk bs =
     (let h = hash_le (block_hash P blk) in
      commit_keyed at_store
        [(Blocks, h, Some (ser_block C blk)), (Headers, h, Some (ser_header C (blk_header blk))),
         (Block_Metadata, h, Some (ser_metadata C (of_nat (length (block_txs blk)))))] bs)"

definition store_block_wire_bytes ::
  "'a tx_api_scheme \<Rightarrow> 'c store_codec_scheme \<Rightarrow> block \<Rightarrow> u64 \<Rightarrow> byte_string \<Rightarrow> block_store \<Rightarrow> block_store" where
  "store_block_wire_bytes P C blk height wire_payload bs =
     (let h = block_hash P blk; row_key = block_height_row_key height h; header_data = ser_header C (blk_header blk) in
      commit_keyed at_store
        ([(Blocks, row_key, Some (encode_wire_body_blob wire_payload)), (Headers, row_key, Some header_data),
          (Block_Metadata, row_key, Some (ser_metadata C (of_nat (length (block_txs blk))))),
          (Hash_To_Height, hash_le h, Some (u64_be height)), (Height_Index, u64_be height, Some (hash_le h)),
          (Recent_Headers, u64_be height, Some header_data)]
         @ (if height > 11 then [(Recent_Headers, u64_be (saturating_sub height 12), None)] else [])) bs)"

text \<open>One transaction of the engine, which also writes both height indexes.\<close>

definition store_block_with_witness ::
  "'a tx_api_scheme \<Rightarrow> 'c store_codec_scheme \<Rightarrow> block \<Rightarrow> witness list list \<Rightarrow> u64 \<Rightarrow> block_store \<Rightarrow> block_store" where
  "store_block_with_witness P C blk wits height bs =
     (let h = block_hash P blk; row_key = block_height_row_key height h; header_data = ser_header C (blk_header blk);
          bs1 = commit_keyed at_store
            [(Blocks, row_key, Some (ser_block C blk)), (Headers, row_key, Some header_data)] bs;
          bs2 = (if wits \<noteq> [] then bs1 \<lparr> witnesses := hm_insert row_key (ser_witnesses C wits) (witnesses bs1) \<rparr> else bs1)
      in commit_keyed at_store
           ([(Height_Index, u64_be height, Some (hash_le h)), (Hash_To_Height, hash_le h, Some (u64_be height)),
             (Block_Metadata, row_key, Some (ser_metadata C (of_nat (length (block_txs blk))))),
             (Recent_Headers, u64_be height, Some header_data)]
            @ (if height > 11 then [(Recent_Headers, u64_be (height - 12), None)] else [])) bs2)"

definition store_blocks_with_witness_batch ::
  "'a tx_api_scheme \<Rightarrow> 'c store_codec_scheme \<Rightarrow> (block \<times> witness list list \<times> u64) list \<Rightarrow> block_store \<Rightarrow> block_store" where
  "store_blocks_with_witness_batch P C items bs =
     foldl (\<lambda>bs (blk, wits, height). store_block_with_witness P C blk wits height bs) bs items"

definition has_witness_blob :: "hash \<Rightarrow> block_store \<Rightarrow> (bool, string) result" where
  "has_witness_blob h bs = (case row_of h (witnesses bs) bs of Err e \<Rightarrow> Err e | Ok found \<Rightarrow> Ok (found \<noteq> None))"

definition store_witness_at_height ::
  "'c store_codec_scheme \<Rightarrow> hash \<Rightarrow> u64 \<Rightarrow> witness list list \<Rightarrow> block_store \<Rightarrow> block_store" where
  "store_witness_at_height C h height wits bs =
     bs \<lparr> witnesses := hm_insert (block_height_row_key height h) (ser_witnesses C wits) (witnesses bs) \<rparr>"

definition store_witness :: "'c store_codec_scheme \<Rightarrow> hash \<Rightarrow> witness list list \<Rightarrow> block_store \<Rightarrow> block_store" where
  "store_witness C h wits bs = bs \<lparr> witnesses := hm_insert (hash_le h) (ser_witnesses C wits) (witnesses bs) \<rparr>"

definition legacy_witness :: "'c store_codec_scheme \<Rightarrow> hash \<Rightarrow> block_store \<Rightarrow> (witness list list option, string) result" where
  "legacy_witness C h bs =
     (case hm_get (witnesses bs) (hash_le h) of
        Some data \<Rightarrow> (case de_witnesses C data of Err e \<Rightarrow> Err e | Ok wits \<Rightarrow> Ok (Some wits))
      | None \<Rightarrow> Ok None)"

definition get_witness :: "'c store_codec_scheme \<Rightarrow> hash \<Rightarrow> block_store \<Rightarrow> (witness list list option, string) result" where
  "get_witness C h bs =
     (case get_height_by_hash h bs of
        Err e \<Rightarrow> Err e
      | Ok None \<Rightarrow> legacy_witness C h bs
      | Ok (Some height) \<Rightarrow>
          let k = block_height_row_key height h in
          (case hm_get (witnesses bs) k of
             Some data \<Rightarrow> (case de_witnesses C data of Err e \<Rightarrow> Err e | Ok wits \<Rightarrow> Ok (Some wits))
           | None \<Rightarrow>
               (case Option.bind (hm_get (blocks bs) k) decode_wire_body_blob of
                  Some payload \<Rightarrow>
                    (case deserialize_block_with_witnesses C payload of Err e \<Rightarrow> Err e | Ok (_, wits) \<Rightarrow> Ok (Some wits))
                | None \<Rightarrow> legacy_witness C h bs)))"

definition decode_block_blob :: "'c store_codec_scheme \<Rightarrow> byte_string \<Rightarrow> (block, string) result" where
  "decode_block_blob C data =
     (case decode_wire_body_blob data of
        Some payload \<Rightarrow> (case deserialize_block_with_witnesses C payload of Err e \<Rightarrow> Err e | Ok (blk, _) \<Rightarrow> Ok blk)
      | None \<Rightarrow> de_block C data)"

definition load_block_blob :: "hash \<Rightarrow> block_store \<Rightarrow> (byte_string option, string) result" where
  "load_block_blob h bs = row_of h (blocks bs) bs"

definition get_block_and_witnesses ::
  "'c store_codec_scheme \<Rightarrow> hash \<Rightarrow> block_store \<Rightarrow> ((block \<times> witness list list) option, string) result" where
  "get_block_and_witnesses C h bs =
     (case load_block_blob h bs of
        Err e \<Rightarrow> Err e
      | Ok None \<Rightarrow> Ok None
      | Ok (Some data) \<Rightarrow>
          (case decode_wire_body_blob data of
             Some payload \<Rightarrow> (case deserialize_block_with_witnesses C payload of Err e \<Rightarrow> Err e | Ok r \<Rightarrow> Ok (Some r))
           | None \<Rightarrow>
               (case decode_block_blob C data of
                  Err e \<Rightarrow> Err e
                | Ok blk \<Rightarrow>
                    (case get_witness C h bs of
                       Err e \<Rightarrow> Err e
                     | Ok found \<Rightarrow> Ok (Some (blk, case found of Some wits \<Rightarrow> wits | None \<Rightarrow> []))))))"

definition get_block :: "'c store_codec_scheme \<Rightarrow> hash \<Rightarrow> block_store \<Rightarrow> (block option, string) result" where
  "get_block C h bs =
     (case load_block_blob h bs of
        Err e \<Rightarrow> Err e
      | Ok None \<Rightarrow> Ok None
      | Ok (Some data) \<Rightarrow> (case decode_block_blob C data of Err e \<Rightarrow> Err e | Ok blk \<Rightarrow> Ok (Some blk)))"

definition get_block_metadata :: "'c store_codec_scheme \<Rightarrow> hash \<Rightarrow> block_store \<Rightarrow> (u32 option, string) result" where
  "get_block_metadata C h bs =
     (case row_of h (block_metadata bs) bs of
        Err e \<Rightarrow> Err e
      | Ok None \<Rightarrow> Ok None
      | Ok (Some data) \<Rightarrow> (case de_metadata C data of Err e \<Rightarrow> Err e | Ok n_tx \<Rightarrow> Ok (Some n_tx)))"

fun blocks_at :: "'c store_codec_scheme \<Rightarrow> nat list \<Rightarrow> block_store \<Rightarrow> (block list, string) result" where
  "blocks_at C [] bs = Ok []"
| "blocks_at C (n # ns) bs =
     (case get_hash_by_height (of_nat n) bs of
        Err e \<Rightarrow> Err e
      | Ok None \<Rightarrow> blocks_at C ns bs
      | Ok (Some h) \<Rightarrow>
          (case get_block C h bs of
             Err e \<Rightarrow> Err e
           | Ok found \<Rightarrow>
               (case blocks_at C ns bs of
                  Err e \<Rightarrow> Err e
                | Ok rest \<Rightarrow> Ok (case found of Some blk \<Rightarrow> blk # rest | None \<Rightarrow> rest))))"

definition get_blocks_by_height_range :: "'c store_codec_scheme \<Rightarrow> u64 \<Rightarrow> u64 \<Rightarrow> block_store \<Rightarrow> (block list, string) result" where
  "get_blocks_by_height_range C start stop bs = blocks_at C [unat start..<Suc (unat stop)] bs"

definition has_block_body :: "hash \<Rightarrow> block_store \<Rightarrow> (bool, string) result" where
  "has_block_body h bs = (case row_of h (blocks bs) bs of Err e \<Rightarrow> Err e | Ok found \<Rightarrow> Ok (found \<noteq> None))"

definition remove_rows :: "hash \<Rightarrow> kv_tree \<Rightarrow> block_store \<Rightarrow> (kv_tree, string) result" where
  "remove_rows h t bs =
     (case get_height_by_hash h bs of
        Err e \<Rightarrow> Err e
      | Ok found \<Rightarrow>
          let t1 = (case found of Some height \<Rightarrow> hm_remove (block_height_row_key height h) t | None \<Rightarrow> t)
          in Ok (hm_remove (hash_le h) t1))"

definition remove_block_body :: "hash \<Rightarrow> block_store \<Rightarrow> (block_store, string) result" where
  "remove_block_body h bs = (case remove_rows h (blocks bs) bs of Err e \<Rightarrow> Err e | Ok t \<Rightarrow> Ok (bs \<lparr> blocks := t \<rparr>))"

definition remove_witness :: "hash \<Rightarrow> block_store \<Rightarrow> (block_store, string) result" where
  "remove_witness h bs = (case remove_rows h (witnesses bs) bs of Err e \<Rightarrow> Err e | Ok t \<Rightarrow> Ok (bs \<lparr> witnesses := t \<rparr>))"

definition remove_block_by_height :: "u64 \<Rightarrow> block_store \<Rightarrow> (block_store, string) result" where
  "remove_block_by_height height bs =
     (case get_hash_by_height height bs of
        Err e \<Rightarrow> Err e
      | Ok None \<Rightarrow> Ok bs
      | Ok (Some h) \<Rightarrow> remove_block_body h bs)"

definition remove_blocks_by_height_range :: "u64 \<Rightarrow> u64 \<Rightarrow> block_store \<Rightarrow> u64 \<times> block_store" where
  "remove_blocks_by_height_range start stop bs =
     foldl (\<lambda>(removed, bs) n. case remove_block_by_height (of_nat n) bs of
         Ok bs' \<Rightarrow> (removed + 1, bs')
       | Err _ \<Rightarrow> (removed, bs)) (0, bs) [unat start..<Suc (unat stop)]"

definition store_undo_log :: "'c store_codec_scheme \<Rightarrow> hash \<Rightarrow> undo_log \<Rightarrow> block_store \<Rightarrow> block_store" where
  "store_undo_log C h undo bs = bs \<lparr> block_undo := hm_insert (hash_le h) (ser_undo C undo) (block_undo bs) \<rparr>"

definition get_undo_log :: "'c store_codec_scheme \<Rightarrow> hash \<Rightarrow> block_store \<Rightarrow> (undo_log option, string) result" where
  "get_undo_log C h bs =
     (case hm_get (block_undo bs) (hash_le h) of
        Some data \<Rightarrow> (case de_undo C data of Err e \<Rightarrow> Err e | Ok undo \<Rightarrow> Ok (Some undo))
      | None \<Rightarrow> Ok None)"

definition store_undo_log_if_absent ::
  "'c store_codec_scheme \<Rightarrow> hash \<Rightarrow> undo_log \<Rightarrow> block_store \<Rightarrow> (bool \<times> block_store, string) result" where
  "store_undo_log_if_absent C h undo bs =
     (case get_undo_log C h bs of
        Err e \<Rightarrow> Err e
      | Ok (Some _) \<Rightarrow> Ok (False, bs)
      | Ok None \<Rightarrow> Ok (True, store_undo_log C h undo bs))"

definition store_undo_logs_batch :: "'c store_codec_scheme \<Rightarrow> (hash \<times> undo_log) list \<Rightarrow> block_store \<Rightarrow> block_store" where
  "store_undo_logs_batch C entries bs =
     (if entries = [] then bs
      else bs \<lparr> block_undo := batch_commit (map (\<lambda>(h, undo). (hash_le h, Some (ser_undo C undo))) entries) (block_undo bs) \<rparr>)"

definition filter_header_key :: "hash \<Rightarrow> byte_string" where
  "filter_header_key h = ascii ''cfh:'' @ hash_le h"

definition store_filter_header :: "hash \<Rightarrow> byte_string \<Rightarrow> block_store \<Rightarrow> block_store" where
  "store_filter_header h header bs = bs \<lparr> block_metadata := hm_insert (filter_header_key h) header (block_metadata bs) \<rparr>"

definition get_filter_header :: "hash \<Rightarrow> block_store \<Rightarrow> byte_string option" where
  "get_filter_header h bs =
     (case hm_get (block_metadata bs) (filter_header_key h) of
        Some data \<Rightarrow> if length data = 32 then Some data else None
      | None \<Rightarrow> None)"


section \<open>Storing a block\<close>

definition store_block_with_context ::
  "'a tx_api_scheme \<Rightarrow> 'c store_codec_scheme \<Rightarrow> block \<Rightarrow> witness list list \<Rightarrow> u64 \<Rightarrow> block_store \<Rightarrow> block_store" where
  "store_block_with_context P C blk wits height bs =
     store_height height (block_hash P blk) (store_block_with_witness P C blk wits height bs)"

text \<open>A block beside the active chain: the first part of \<^verbatim>\<open>store_block_with_context_and_index\<close>.\<close>

definition store_side_block ::
  "'a tx_api_scheme \<Rightarrow> 'c store_codec_scheme \<Rightarrow> block \<Rightarrow> witness list list \<Rightarrow> u64 \<Rightarrow> block_store \<Rightarrow> (block_store, string) result" where
  "store_side_block P C blk wits height bs =
     (case get_hash_by_height height bs of
        Err e \<Rightarrow> Err e
      | Ok previous \<Rightarrow>
          (case (if previous \<noteq> None then get_header_at_height C height bs else Ok None) of
             Err e \<Rightarrow> Err e
           | Ok previous_header \<Rightarrow>
               let bs1 = store_block_with_witness P C blk wits height bs;
                   h = block_hash P blk;
                   bs2 = (case previous of
                       Some prev \<Rightarrow>
                         if prev \<noteq> h then
                           let bs3 = store_height height prev bs1
                           in (case previous_header of Some header \<Rightarrow> store_recent_header C height header bs3 | None \<Rightarrow> bs3)
                         else bs1
                     | None \<Rightarrow> bs1)
               in Ok (store_hash_height height h bs2)))"

definition mtp_headers_before :: "'c store_codec_scheme \<Rightarrow> u64 \<Rightarrow> block_store \<Rightarrow> block_header list option" where
  "mtp_headers_before C height bs =
     (if height = 0 then None
      else case headers_back_from C (height - 1) 11 bs of
        Ok hs \<Rightarrow> if hs \<noteq> [] then Some hs else None
      | Err _ \<Rightarrow> None)"

definition empty_witnesses_for_block :: "block \<Rightarrow> witness list list" where
  "empty_witnesses_for_block blk = map (\<lambda>tx. map (\<lambda>_. []) (inputs tx)) (block_txs blk)"

definition load_witnesses_from_store ::
  "'a tx_api_scheme \<Rightarrow> 'c store_codec_scheme \<Rightarrow> block \<Rightarrow> u64 \<Rightarrow> bool \<Rightarrow> block_store \<Rightarrow> (witness list list, string) result" where
  "load_witnesses_from_store P C blk height segwit_active bs =
     (case get_witness C (block_hash P blk) bs of
        Err e \<Rightarrow> Err e
      | Ok (Some w) \<Rightarrow> if length w \<noteq> length (block_txs blk) then Err ''witness count'' else Ok w
      | Ok None \<Rightarrow> if \<not> segwit_active then Ok (empty_witnesses_for_block blk) else Err ''missing witness data for block'')"


section \<open>Stored heights\<close>

definition stored :: "block_store \<Rightarrow> nat \<Rightarrow> bool" where
  "stored bs n \<longleftrightarrow> (\<exists>h. get_hash_by_height (of_nat n) bs = Ok (Some h))"

definition heights_readable :: "block_store \<Rightarrow> bool" where
  "heights_readable bs \<longleftrightarrow> (\<forall>(key, row) \<in> set (height_index bs). length row = 32)"

lemma height_cases:
  assumes "heights_readable bs"
  obtains h where "get_hash_by_height (of_nat n) bs = Ok (Some h)" "stored bs n"
  | "get_hash_by_height (of_nat n) bs = Ok None" "\<not> stored bs n"
proof (cases "hm_get (height_index bs) (u64_be (of_nat n))")
  case None
  then show thesis using that(2) by (simp add: get_hash_by_height_def stored_def)
next
  case (Some row)
  then have "length row = 32" using assms map_of_SomeD [OF Some] by (auto simp: heights_readable_def)
  with Some show thesis using that(1) by (simp add: get_hash_by_height_def stored_def)
qed

lemma gallop_spec:
  assumes "heights_readable bs" "stored bs lo" "lo < hi" "hi \<le> 4000000000"
  shows "\<exists>lo' hi'. gallop bs lo hi = Ok (lo', hi') \<and> stored bs lo' \<and> lo' < hi' \<and> hi' \<le> 4000000000
    \<and> (stored bs hi' \<longrightarrow> 2000000000 < hi')"
  using assms(2-4)
proof (induction "2000000001 - hi" arbitrary: lo hi rule: less_induct)
  case less
  show ?case
  proof (cases "2000000000 < hi")
    case True
    with less.prems show ?thesis by (simp add: gallop.simps)
  next
    case small: False
    show ?thesis
    proof (cases rule: height_cases [OF assms(1), of hi])
      case (1 h)
      have "\<exists>lo' hi'. gallop bs hi (hi * 2) = Ok (lo', hi') \<and> stored bs lo' \<and> lo' < hi' \<and> hi' \<le> 4000000000
          \<and> (stored bs hi' \<longrightarrow> 2000000000 < hi')"
        using 1(2) small less.prems by (intro less.hyps) auto
      with 1 small less.prems show ?thesis by (simp add: gallop.simps [of bs lo hi])
    next
      case 2
      with small less.prems show ?thesis by (simp add: gallop.simps [of bs lo hi])
    qed
  qed
qed

lemma bisect_spec:
  assumes "heights_readable bs" "stored bs lo" "\<not> stored bs hi" "lo < hi"
  shows "\<exists>h. bisect bs lo hi = Ok h \<and> lo \<le> h \<and> h < hi \<and> stored bs h \<and> \<not> stored bs (Suc h)"
  using assms(2-4)
proof (induction "hi - lo" arbitrary: lo hi rule: less_induct)
  case less
  show ?case
  proof (cases "lo + 1 < hi")
    case False
    with less.prems have "hi = Suc lo" by simp
    with less.prems show ?thesis by (simp add: bisect.simps)
  next
    case True
    let ?mid = "lo + (hi - lo) div 2"
    have mid: "lo < ?mid" "?mid < hi" using True by auto
    then have smaller: "hi - ?mid < hi - lo" "?mid - lo < hi - lo" by linarith+
    show ?thesis
    proof (cases rule: height_cases [OF assms(1), of ?mid])
      case (1 h)
      obtain g where "bisect bs ?mid hi = Ok g" "?mid \<le> g" "g < hi" "stored bs g" "\<not> stored bs (Suc g)"
        using less.hyps [OF smaller(1) 1(2) less.prems(2) mid(2)] by auto
      with 1 True mid show ?thesis by (simp add: bisect.simps [of bs lo hi] Let_def)
    next
      case 2
      obtain g where "bisect bs lo ?mid = Ok g" "lo \<le> g" "g < ?mid" "stored bs g" "\<not> stored bs (Suc g)"
        using less.hyps [OF smaller(2) less.prems(1) 2(2) mid(1)] by auto
      with 2 True mid show ?thesis by (simp add: bisect.simps [of bs lo hi] Let_def)
    qed
  qed
qed

lemma highest_stored_edge:
  assumes "heights_readable bs" "stored bs 0" "\<forall>n < 2 ^ 64. stored bs n \<longrightarrow> n \<le> 2000000000"
  shows "\<exists>h \<le> 2000000000. highest_stored_height bs = Ok (Some (of_nat h)) \<and> stored bs h \<and> \<not> stored bs (Suc h)"
proof -
  obtain lo hi where g: "gallop bs 0 1 = Ok (lo, hi)" "stored bs lo" "lo < hi" "hi \<le> 4000000000"
    "stored bs hi \<longrightarrow> 2000000000 < hi"
    using gallop_spec [OF assms(1,2), of 1] by auto
  have low: "n \<le> 2000000000" if "stored bs n" "n \<le> 4000000000" for n
    using assms(3) [rule_format, of n] that by simp
  have hi: "\<not> stored bs hi" using low [of hi] g(4,5) by auto
  obtain h where h: "bisect bs lo hi = Ok h" "h < hi" "stored bs h" "\<not> stored bs (Suc h)"
    using bisect_spec [OF assms(1) g(2) hi g(3)] by auto
  have "get_hash_by_height (of_nat hi) bs = Ok None" by (cases rule: height_cases [OF assms(1), of hi]) (use hi in auto)
  moreover obtain h0 where "get_hash_by_height 0 bs = Ok (Some h0)" using assms(2) by (auto simp: stored_def)
  ultimately have "highest_stored_height bs = Ok (Some (of_nat h))"
    using g(1) h(1) by (simp add: highest_stored_height_def)
  moreover have "h \<le> 2000000000" using low [OF h(3)] h(2) g(4) by simp
  ultimately show ?thesis using h(3,4) by blast
qed

lemma probe_gap_none:
  assumes "\<forall>n < 2 ^ 64. probe \<le> n \<longrightarrow> get_hash_by_height (of_nat n) bs = Ok None"
  shows "probe_gap bs gap probe stride = Ok None"
  using assms
proof (induction bs gap probe stride rule: probe_gap.induct)
  case (1 bs gap probe stride)
  show ?case
  proof (cases "probe < 2000000000 \<and> stride > 0")
    case True
    then have "get_hash_by_height (of_nat probe) bs = Ok None" using "1.prems" by simp
    moreover from this have "probe_gap bs gap (probe + stride) (stride * 2) = Ok None"
      using True "1.prems" by (intro "1.IH") auto
    ultimately show ?thesis using True by (simp add: probe_gap.simps [of bs gap probe])
  next
    case False
    then show ?thesis by (subst probe_gap.simps) (simp only: if_False)
  qed
qed


lemma gallop_powers:
  assumes "heights_readable bs" "\<forall>i \<le> k. stored bs (2 ^ i)" "\<not> stored bs (2 ^ Suc k)" "k \<le> 30" "j \<le> k"
  shows "gallop bs lo (2 ^ j) = Ok (2 ^ k, 2 ^ Suc k)"
  using assms(5)
proof (induction "k - j" arbitrary: j lo)
  have small: "(2 :: nat) ^ i \<le> 2000000000" if "i \<le> k" for i
    using power_increasing [of i 30 "2 :: nat"] that assms(4) by simp
  have step: "gallop bs lo (2 ^ i) = gallop bs (2 ^ i) (2 ^ Suc i)" if "i \<le> k" for i lo
  proof (cases rule: height_cases [OF assms(1), of "2 ^ i"])
    case (1 h)
    then show ?thesis using small [OF that] by (subst gallop.simps) (simp add: mult.commute del: of_nat_power)
  qed (use assms(2) that in blast)
  {
    case 0
    have "gallop bs (2 ^ k) (2 ^ Suc k) = Ok (2 ^ k, 2 ^ Suc k)"
    proof (cases rule: height_cases [OF assms(1), of "2 ^ Suc k"])
      case 2
      then show ?thesis by (subst gallop.simps) (simp del: of_nat_power power_Suc)
    qed (use assms(3) in blast)
    with 0 step [of k lo] show ?case by simp
  next
    case (Suc n)
    then have "j < k" "n = k - Suc j" by linarith+
    with Suc.hyps(1) [of "Suc j" "2 ^ j"] step [of j lo] show ?case by simp
  }
qed

lemma probe_gap_cases: "heights_readable bs \<Longrightarrow> probe_gap bs gap probe stride \<in> {Ok None, Ok (Some gap)}"
proof (induction bs gap probe stride rule: probe_gap.induct)
  case (1 bs gap probe stride)
  then show ?case
    by (cases rule: height_cases [OF "1.prems", of probe]) (auto simp: probe_gap.simps [of bs gap probe stride])
qed


section \<open>The answer to getheaders\<close>

text \<open>A run of headers: each is the header of the active hash at its height and names the hash below it.\<close>

definition headers_follow :: "'c store_codec_scheme \<Rightarrow> block_store \<Rightarrow> nat \<Rightarrow> block_header list \<Rightarrow> bool" where
  "headers_follow C bs start hs \<longleftrightarrow>
     (\<forall>i < length hs. \<exists>h. get_hash_by_height (of_nat (start + i)) bs = Ok (Some h) \<and> get_header C h bs = Ok (Some (hs ! i))
        \<and> (\<forall>j. i = Suc j \<longrightarrow> get_hash_by_height (of_nat (start + j)) bs = Ok (Some (prev_block_hash (hs ! i)))))"

lemma collect_headers_follow:
  assumes "collect_headers C [n..<m] cap hash_stop expect bs = Ok hs"
  shows "length hs \<le> cap \<and> headers_follow C bs n hs
    \<and> (hs \<noteq> [] \<longrightarrow> (\<forall>prev. expect = Some prev \<longrightarrow> prev_block_hash (hd hs) = prev))"
  using assms
proof (induction "m - n" arbitrary: n cap expect hs)
  case 0
  then show ?case by (simp add: headers_follow_def)
next
  case (Suc k)
  then have range: "[n..<m] = n # [Suc n..<m]" by (simp add: upt_conv_Cons)
  show ?case
  proof (cases "hs = []")
    case True
    then show ?thesis by (simp add: headers_follow_def)
  next
    case False
    then obtain h hdr where h: "cap \<noteq> 0" "get_hash_by_height (of_nat n) bs = Ok (Some h)" "get_header C h bs = Ok (Some hdr)"
      "expect = None \<or> expect = Some (prev_block_hash hdr)"
      and rest: "hs = [hdr] \<or> (\<exists>hs'. collect_headers C [Suc n..<m] (cap - 1) hash_stop (Some h) bs = Ok hs' \<and> hs = hdr # hs')"
      using Suc.prems unfolding range by (auto split: if_splits sum.splits option.splits)
    from rest obtain hs' where hs: "hs = hdr # hs'" "length hs' \<le> cap - 1" "headers_follow C bs (Suc n) hs'"
      "hs' \<noteq> [] \<longrightarrow> prev_block_hash (hd hs') = h"
    proof
      assume "hs = [hdr]"
      then show thesis using that [of "[]"] by (simp add: headers_follow_def)
    next
      assume "\<exists>hs'. collect_headers C [Suc n..<m] (cap - 1) hash_stop (Some h) bs = Ok hs' \<and> hs = hdr # hs'"
      then obtain hs' where r: "collect_headers C [Suc n..<m] (cap - 1) hash_stop (Some h) bs = Ok hs'" "hs = hdr # hs'" by blast
      have "k = m - Suc n" using Suc.hyps(2) by simp
      from Suc.hyps(1) [OF this r(1)] r(2) show thesis using that [of hs'] by simp
    qed
    have "headers_follow C bs n hs"
      unfolding headers_follow_def
    proof (intro allI impI)
      fix i assume i: "i < length hs"
      show "\<exists>h. get_hash_by_height (of_nat (n + i)) bs = Ok (Some h) \<and> get_header C h bs = Ok (Some (hs ! i))
        \<and> (\<forall>j. i = Suc j \<longrightarrow> get_hash_by_height (of_nat (n + j)) bs = Ok (Some (prev_block_hash (hs ! i))))"
      proof (cases i)
        case 0
        with h hs(1) show ?thesis by simp
      next
        case i': (Suc j)
        then obtain g where g: "get_hash_by_height (of_nat (Suc n + j)) bs = Ok (Some g)" "get_header C g bs = Ok (Some (hs' ! j))"
          "\<forall>l. j = Suc l \<longrightarrow> get_hash_by_height (of_nat (Suc n + l)) bs = Ok (Some (prev_block_hash (hs' ! j)))"
          using hs(1,3) i unfolding headers_follow_def by auto
        have "get_hash_by_height (of_nat (n + j)) bs = Ok (Some (prev_block_hash (hs' ! j)))"
        proof (cases j)
          case 0
          then have "hs' ! j = hd hs'" using i i' hs(1) by (simp add: hd_conv_nth)
          with 0 h(2) hs(1,4) i i' show ?thesis by auto
        next
          case (Suc l)
          with g(3) show ?thesis by simp
        qed
        with g(1,2) i' hs(1) show ?thesis by (intro exI [of _ g]) simp
      qed
    qed
    with h hs show ?thesis by auto
  qed
qed


section \<open>A block beside the active chain\<close>

lemma get_hash_store_height:
  "get_hash_by_height n (store_height height h bs) = (if n = height then Ok (Some h) else get_hash_by_height n bs)"
  by (simp add: get_hash_by_height_def store_height_def)

lemma get_hash_store_block:
  "get_hash_by_height n (store_block_with_witness P C blk wits height bs) =
     (if n = height then Ok (Some (block_hash P blk)) else get_hash_by_height n bs)"
  by (simp add: get_hash_by_height_def store_block_with_witness_def Let_def)

lemma get_hash_other [simp]:
  "get_hash_by_height n (store_hash_height height h bs) = get_hash_by_height n bs"
  "get_hash_by_height n (store_recent_header C height header bs) = get_hash_by_height n bs"
  by (simp_all add: get_hash_by_height_def store_hash_height_def store_recent_header_def)

lemma side_block_heights:
  assumes "store_side_block P C blk wits height bs = Ok bs'"
  shows "get_hash_by_height n bs' =
    (if n = height \<and> get_hash_by_height height bs = Ok None then Ok (Some (block_hash P blk)) else get_hash_by_height n bs)"
  using assms
  by (auto simp: store_side_block_def Let_def get_hash_store_height get_hash_store_block
      split: sum.splits option.splits if_splits)



section \<open>Bounds of the search\<close>

lemma gallop_bound: "gallop bs lo hi = Ok (lo', hi') \<Longrightarrow> lo \<le> hi \<Longrightarrow> hi \<le> 4000000000 \<Longrightarrow> lo' \<le> hi' \<and> hi' \<le> 4000000000"
proof (induction bs lo hi rule: gallop.induct)
  case (1 bs lo hi)
  show ?case
  proof (cases "hi = 0 \<or> hi > 2000000000")
    case True
    with "1.prems" show ?thesis by (simp add: gallop.simps [of bs lo hi])
  next
    case False
    then show ?thesis using "1.IH" [OF False] "1.prems"
      by (auto simp: gallop.simps [of bs lo hi] split: sum.splits option.splits)
  qed
qed

lemma bisect_bound: "bisect bs lo hi = Ok h \<Longrightarrow> lo \<le> hi \<Longrightarrow> h \<le> hi"
proof (induction bs lo hi rule: bisect.induct)
  case (1 bs lo hi)
  show ?case
  proof (cases "lo + 1 < hi")
    case False
    with "1.prems" show ?thesis by (simp add: bisect.simps [of bs lo hi])
  next
    case True
    let ?mid = "lo + (hi - lo) div 2"
    have mid: "lo \<le> ?mid" "?mid \<le> hi" using True by auto
    show ?thesis
    proof (cases "get_hash_by_height (of_nat ?mid) bs")
      case (Inl e)
      with True "1.prems" show ?thesis by (simp add: bisect.simps [of bs lo hi] Let_def)
    next
      case (Inr found)
      show ?thesis
      proof (cases found)
        case None
        with Inr True "1.prems" have "bisect bs lo ?mid = Ok h" by (simp add: bisect.simps [of bs lo hi] Let_def)
        with "1.IH"(1) [OF True refl Inr None] mid show ?thesis by simp
      next
        case (Some g)
        with Inr True "1.prems" have "bisect bs ?mid hi = Ok h" by (simp add: bisect.simps [of bs lo hi] Let_def)
        with "1.IH"(2) [OF True refl Inr Some] mid show ?thesis by simp
      qed
    qed
  qed
qed

lemma highest_bound:
  assumes "highest_stored_height bs = Ok (Some h)"
  shows "unat h \<le> 4000000000"
proof -
  obtain lo hi where g: "gallop bs 0 1 = Ok (lo, hi)" and h: "h = of_nat hi \<or> (\<exists>n. bisect bs lo hi = Ok n \<and> h = of_nat n)"
    using assms by (auto simp: highest_stored_height_def split: sum.splits option.splits)
  have hi: "lo \<le> hi" "hi \<le> 4000000000" using gallop_bound [OF g] by auto
  from h hi bisect_bound [of bs lo hi] obtain n where "h = of_nat n" "n \<le> 4000000000" by force
  then show ?thesis by (simp add: unat_of_nat)
qed

lemma locate_fork_spec:
  "locate_fork locator bs = Ok (Some fork) \<Longrightarrow> \<exists>g \<in> set locator. get_hash_by_height fork bs = Ok (Some g)"
  by (induction locator) (auto split: sum.splits option.splits if_splits)


section \<open>Examples\<close>

definition demo_heights :: "(u64 \<times> hash) list \<Rightarrow> block_store" where
  "demo_heights rows = new_block_store \<lparr> height_index := map (\<lambda>(n, h). (u64_be n, hash_le h)) rows,
     hash_to_height := map (\<lambda>(n, h). (hash_le h, u64_be n)) rows,
     headers := map (\<lambda>(n, h). (hash_le h, hash_le (h - 1))) rows \<rparr>"

lemma map_of_u64_be: "map_of (map (\<lambda>(n, h). (u64_be n, hash_le h)) rows) (u64_be k) = map_option hash_le (map_of rows k)"
  by (induction rows) auto

lemma demo_heights_get: "get_hash_by_height n (demo_heights rows) = Ok (map_of rows n)"
  by (simp add: get_hash_by_height_def demo_heights_def map_of_u64_be split: option.split)

lemma demo_heights_readable: "heights_readable (demo_heights rows)"
  by (auto simp: heights_readable_def demo_heights_def)

definition demo_store_codec :: store_codec where
  "demo_store_codec = chain_codec.extend demo_chain_codec
     \<lparr> ser_header = (\<lambda>hdr. hash_le (prev_block_hash hdr)), de_header = (\<lambda>bs. Ok (demo_header (hash_of_bytes bs) 5)),
       ser_block = (\<lambda>_. []), de_block = (\<lambda>_. Err ''block''), ser_metadata = (\<lambda>_. []), de_metadata = (\<lambda>_. Err ''metadata''),
       ser_witnesses = (\<lambda>_. []), de_witnesses = (\<lambda>_. Err ''witnesses''), ser_undo = (\<lambda>_. []), de_undo = (\<lambda>_. Err ''undo''),
       deserialize_block_with_witnesses = (\<lambda>_. Err ''wire'') \<rparr>"

lemma small_of_nat: "n < 2 ^ 64 \<Longrightarrow> of_nat n = (numeral k :: u64) \<longleftrightarrow> n = unat (numeral k :: u64)"
  "n < 2 ^ 64 \<Longrightarrow> of_nat n = (0 :: u64) \<longleftrightarrow> n = 0" "n < 2 ^ 64 \<Longrightarrow> of_nat n = (1 :: u64) \<longleftrightarrow> n = 1"
  by (auto simp: word_unat_eq_iff unat_of_nat)


section \<open>Properties\<close>

text \<open>
  C17. The search for the highest stored height ends at an edge: when no height above two thousand million is stored, it
  returns a stored height whose successor is not stored, and when the stored heights are exactly those up to some
  height, it returns that height.
\<close>

theorem highest_stored_height_edge:
  assumes "heights_readable bs" "stored bs 0" "\<forall>n < 2 ^ 64. stored bs n \<longrightarrow> n \<le> 2000000000"
  shows "\<exists>h. highest_stored_height bs = Ok (Some (of_nat h)) \<and> stored bs h \<and> \<not> stored bs (Suc h)
    \<and> (\<forall>m. (\<forall>n < 2 ^ 64. stored bs n \<longleftrightarrow> n \<le> m) \<longrightarrow> h = m)"
proof -
  obtain h where h: "h \<le> 2000000000" "highest_stored_height bs = Ok (Some (of_nat h))" "stored bs h" "\<not> stored bs (Suc h)"
    using highest_stored_edge [OF assms] by blast
  have "h = m" if "\<forall>n < 2 ^ 64. stored bs n \<longleftrightarrow> n \<le> m" for m
    using that [rule_format, of h] that [rule_format, of "Suc h"] h(1,3,4) by simp
  with h(2-4) show ?thesis by blast
qed

theorem highest_stored_height_edge_witness:
  "highest_stored_height (demo_heights [(0, 1), (1, 2), (2, 3)]) = Ok (Some 2)"
proof -
  let ?bs = "demo_heights [(0, 1), (1, 2), (2, 3)]"
  have st: "stored ?bs n \<longleftrightarrow> n \<le> 2" if "n < 2 ^ 64" for n
    using that by (auto simp: stored_def demo_heights_get small_of_nat)
  have "\<forall>n < 2 ^ 64. stored ?bs n \<longrightarrow> n \<le> 2000000000" using st by fastforce
  moreover have "stored ?bs 0" using st [of 0] by simp
  ultimately obtain h where "highest_stored_height ?bs = Ok (Some (of_nat h))"
    "\<forall>m. (\<forall>n < 2 ^ 64. stored ?bs n \<longleftrightarrow> n \<le> m) \<longrightarrow> h = m"
    using highest_stored_height_edge [OF demo_heights_readable, of "[(0, 1), (1, 2), (2, 3)]"] by auto
  moreover from this(2) st have "h = 2" by blast
  ultimately show ?thesis by simp
qed

text \<open>
  C40. Holes below a power of two are overlooked: whenever height zero and the powers of two up to 2^k are stored and
  2^(k+1) is not, the height reported as the highest lies from 2^k up to below 2^(k+1), and the gap that is reported,
  if any, is the height right above it. Whatever other heights are missing below 2^k is never reported, although the
  search is meant to end at the contiguous prefix.
\<close>

theorem gap_overlooked:
  assumes "heights_readable bs" "stored bs 0" "\<forall>i \<le> k. stored bs (2 ^ i)" "\<not> stored bs (2 ^ Suc k)" "k \<le> 30"
  shows "\<exists>h. 2 ^ k \<le> h \<and> h < 2 ^ Suc k \<and> highest_stored_height bs = Ok (Some (of_nat h))
    \<and> stored_height_gap bs \<in> {Ok None, Ok (Some (of_nat (Suc h)))}"
proof -
  have "gallop bs 0 (2 ^ 0) = Ok (2 ^ k, 2 ^ Suc k)" by (rule gallop_powers [OF assms(1,3,4,5)]) simp
  moreover obtain h where h: "bisect bs (2 ^ k) (2 ^ Suc k) = Ok h" "2 ^ k \<le> h" "h < 2 ^ Suc k"
    using bisect_spec [OF assms(1), of "2 ^ k" "2 ^ Suc k"] assms(3,4) by auto
  moreover have "get_hash_by_height (of_nat (2 ^ Suc k)) bs = Ok None"
    by (cases rule: height_cases [OF assms(1), of "2 ^ Suc k"]) (use assms(4) in auto)
  moreover obtain h0 where "get_hash_by_height 0 bs = Ok (Some h0)" using assms(2) by (auto simp: stored_def)
  ultimately have top: "highest_stored_height bs = Ok (Some (of_nat h))"
    by (simp add: highest_stored_height_def del: of_nat_power)
  have "(2 :: nat) ^ Suc k \<le> 2 ^ 31" using assms(5) by (intro power_increasing) simp_all
  then have "h < 2 ^ 31" using h(3) by (rule less_le_trans [rotated])
  then have "saturating_add (of_nat h) 1 = (of_nat (Suc h) :: u64)" by (simp add: saturating_add_def unat_of_nat)
  then have "stored_height_gap bs \<in> {Ok None, Ok (Some (of_nat (Suc h)))}"
    using probe_gap_cases [OF assms(1), of "of_nat (Suc h)"] by (simp add: stored_height_gap_def top Let_def)
  with top h show ?thesis by blast
qed

theorem gap_overlooked_witness:
  "let bs = demo_heights [(0, 1), (1, 2), (2, 3), (4, 5)] in
   \<not> stored bs 3 \<and> (\<exists>h. 4 \<le> h \<and> highest_stored_height bs = Ok (Some (of_nat h))
     \<and> stored_height_gap bs \<in> {Ok None, Ok (Some (of_nat (Suc h)))})"
proof -
  let ?bs = "demo_heights [(0, 1), (1, 2), (2, 3), (4, 5)]"
  have st: "stored ?bs n \<longleftrightarrow> n \<in> {0, 1, 2, 4}" if "n < 2 ^ 64" for n
    using that by (auto simp: stored_def demo_heights_get small_of_nat)
  have "i = 0 \<or> i = 1 \<or> i = 2" if "i \<le> 2" for i :: nat using that by auto
  then have "\<forall>i \<le> 2. stored ?bs (2 ^ i)" using st by fastforce
  then have "\<exists>h. 2 ^ 2 \<le> h \<and> h < 2 ^ Suc 2 \<and> highest_stored_height ?bs = Ok (Some (of_nat h))
      \<and> stored_height_gap ?bs \<in> {Ok None, Ok (Some (of_nat (Suc h)))}"
    using st by (intro gap_overlooked [OF demo_heights_readable]) auto
  then show ?thesis using st [of 3] by (auto simp: Let_def)
qed

text \<open>
  C13. A \<^verbatim>\<open>getheaders\<close> answer is one chain: for a locator that is not empty, the headers sent are at most the limit, start
  right above an active block of the locator and name it as their parent, and each further header is that of the next
  active height and names the active hash below it.
\<close>

theorem headers_response_continuous:
  assumes "build_headers_response C locator hash_stop max_headers bs = Ok hs" "locator \<noteq> []"
  shows "length hs \<le> max max_headers 1
    \<and> (hs \<noteq> [] \<longrightarrow> (\<exists>fork g. g \<in> set locator \<and> get_hash_by_height fork bs = Ok (Some g)
         \<and> prev_block_hash (hd hs) = g \<and> headers_follow C bs (Suc (unat fork)) hs))"
proof (cases "hs = []")
  case True
  then show ?thesis by simp
next
  case False
  then obtain tip_h fork expect where tip: "highest_stored_height bs = Ok (Some tip_h)"
    and fork: "locate_fork locator bs = Ok (Some fork)" and le: "saturating_add fork 1 \<le> tip_h"
    and expect: "(if saturating_add fork 1 = 0 then Ok None else get_hash_by_height (saturating_add fork 1 - 1) bs) = Ok expect"
    and run: "collect_headers C [unat (saturating_add fork 1)..<Suc (unat tip_h)] (max max_headers 1) hash_stop expect bs = Ok hs"
    using assms by (auto simp: build_headers_response_def Let_def not_less split: sum.splits option.splits if_splits)
  have "unat (saturating_add fork 1) \<le> 4000000000"
    using highest_bound [OF tip] le by (simp add: word_le_nat_alt)
  then have start: "unat (saturating_add fork 1) = Suc (unat fork)"
    using unat_bound [of fork] by (simp add: unat_saturating_add min_def split: if_splits)
  have "saturating_add fork 1 = of_nat (unat (saturating_add fork 1))" by simp
  also have "\<dots> = fork + 1" unfolding start by simp
  finally have "saturating_add fork 1 = fork + 1" .
  moreover have "saturating_add fork 1 \<noteq> 0" using start by auto
  ultimately have e: "get_hash_by_height fork bs = Ok expect" using expect by simp
  obtain g where g: "g \<in> set locator" "get_hash_by_height fork bs = Ok (Some g)" using locate_fork_spec [OF fork] by blast
  from collect_headers_follow [OF run [unfolded start]] e g False show ?thesis by auto
qed

theorem headers_response_continuous_witness:
  "\<exists>hs. build_headers_response demo_store_codec [1] 0 2000 (demo_heights [(0, 1), (1, 2)]) = Ok hs \<and> length hs = 1
     \<and> prev_block_hash (hd hs) = 1"
proof -
  let ?bs = "demo_heights [(0, 1), (1, 2)]"
  have "gallop ?bs 0 1 = Ok (1, 2)" by (simp add: gallop.simps demo_heights_get)
  moreover have "bisect ?bs 1 2 = Ok 1" by (simp add: bisect.simps)
  ultimately have "highest_stored_height ?bs = Ok (Some 1)" by (simp add: highest_stored_height_def demo_heights_get)
  moreover have "get_height_by_hash 1 ?bs = Ok (Some 0)" "get_height_by_hash 2 ?bs = Ok (Some 1)"
    by (simp_all add: get_height_by_hash_def demo_heights_def)
  moreover from this have "get_header demo_store_codec 2 ?bs = Ok (Some (demo_header 1 5))"
    by (simp add: get_header_def row_of_def demo_heights_def block_height_row_key_def demo_store_codec_def chain_codec.defs)
  ultimately have *: "build_headers_response demo_store_codec [1] 0 2000 ?bs = Ok [demo_header 1 5]"
    by (simp add: build_headers_response_def demo_heights_get saturating_add_def Let_def demo_header_def upt_conv_Cons)
  from headers_response_continuous [OF *] * show ?thesis by auto
qed

text \<open>
  C23. Storing a block beside the active chain does not touch the active hash of an occupied height, although the
  storage of its body writes the height index; at a height that had no hash the block becomes the active one.
\<close>

theorem side_block_active_heights:
  assumes "store_side_block P C blk wits height bs = Ok bs'"
  shows "get_hash_by_height n bs' =
    (if n = height \<and> get_hash_by_height height bs = Ok None then Ok (Some (block_hash P blk)) else get_hash_by_height n bs)"
  by (rule side_block_heights [OF assms])

theorem side_block_active_heights_witness:
  "\<exists>bs'. store_side_block demo demo_store_codec \<lparr> blk_header = demo_header 1 7, block_txs = [] \<rparr> [] 1
       (demo_heights [(0, 1), (1, 2)]) = Ok bs' \<and> get_hash_by_height 1 bs' = Ok (Some 2)"
proof -
  let ?bs = "demo_heights [(0, 1), (1, 2)]" and ?blk = "\<lparr> blk_header = demo_header 1 7, block_txs = [] \<rparr>"
  have "get_height_by_hash 2 ?bs = Ok (Some 1)" by (simp add: get_height_by_hash_def demo_heights_def)
  then have "get_header demo_store_codec 2 ?bs = Ok (Some (demo_header 1 5))"
    by (simp add: get_header_def row_of_def demo_heights_def block_height_row_key_def demo_store_codec_def chain_codec.defs)
  then have "\<exists>r. get_header_at_height demo_store_codec 1 ?bs = Ok r"
    by (simp add: get_header_at_height_def demo_heights_get)
  then obtain bs' where *: "store_side_block demo demo_store_codec ?blk [] 1 ?bs = Ok bs'"
    by (auto simp: store_side_block_def demo_heights_get Let_def)
  from side_block_active_heights [OF *, of 1] * show ?thesis by (simp add: demo_heights_get)
qed

end
