(* ===== verification/Spec2Isabelle.thy ===== *)
theory Spec2Isabelle
  imports Script_Grammar Mempool_System Core_Format Tx_Inflight Compact_Blocks Block_Store
begin

text \<open>
  A verification of parts of \<^verbatim>\<open>blvm-node\<close>, a Bitcoin node in Rust. Paths below are relative to \<^verbatim>\<open>src/src/\<close>.

  \<^bold>\<open>The program.\<close> Peers announce transactions and blocks. The request tracker (\<^verbatim>\<open>network/tx_inflight.rs\<close>) decides which
  announced transactions are asked for; the mempool (\<^verbatim>\<open>node/mempool.rs\<close>) admits them, replaces, evicts, ranks and
  persists them. Compact block relay (\<^verbatim>\<open>network/compact_blocks.rs\<close>, handlers in \<^verbatim>\<open>network/wire_dispatch.rs\<close>) rebuilds a
  block from the mempool. A connected block is stored (\<^verbatim>\<open>node/block_processor.rs\<close>, \<^verbatim>\<open>storage/blockstore.rs\<close>), entered in
  the block index (\<^verbatim>\<open>storage/block_index.rs\<close>) and the chain state (\<^verbatim>\<open>storage/chainstate.rs\<close>), compared with the active
  tip (\<^verbatim>\<open>node/chain_selector.rs\<close>), and taken out of the mempool. All stores are trees of a key-value database
  (\<^verbatim>\<open>storage/database/mod.rs\<close>). The RPC interface answers proofs of inclusion (\<^verbatim>\<open>rpc/merkle_block.rs\<close>), and an importer
  reads the databases of Bitcoin Core (\<^verbatim>\<open>storage/bitcoin_core_format.rs\<close>).

  \<^bold>\<open>Conventions.\<close> A Rust integer of a fixed width is a word of that width, with the saturating and checked operations of
  the source; \<^verbatim>\<open>usize\<close> is a natural number except where the source wraps; a hash is a 256-bit word. A \<^verbatim>\<open>HashMap\<close> is an
  association list and a \<^verbatim>\<open>HashSet\<close> a list, their order standing for the iteration order. \<^verbatim>\<open>Result\<close> is a sum with \<open>Ok\<close>
  and \<open>Err\<close>. A method takes and returns the record of its state. Functions of other crates are fields of records that
  the definitions take as an argument: \<open>P\<close> (theory \<^verbatim>\<open>Protocol\<close>) for \<^verbatim>\<open>blvm_protocol\<close>, \<^verbatim>\<open>blvm_consensus\<close> and \<^verbatim>\<open>sha2\<close>, and
  \<open>C\<close> for bincode and the header codecs. What a theorem needs of them is a hypothesis, and a concrete instance in its
  witness meets it.

  \<^bold>\<open>Foundations.\<close>
  \<^item> \<^verbatim>\<open>Prelude\<close>: integers, slices, byte strings and collections; the locale \<open>hash_map\<close>, interpreted on the lists.
  \<^item> \<^verbatim>\<open>Worklist\<close>: the three stack loops of the graph walks; each ends and computes a reachability set.
  \<^item> \<^verbatim>\<open>Float64\<close>: the binary64 multiplication, rounding and casts of the fee-rate comparison.
  \<^item> \<^verbatim>\<open>Protocol\<close>, \<^verbatim>\<open>Demo_Protocol\<close>, \<^verbatim>\<open>Demo_Pool\<close>: the data and functions of other crates, one concrete instance of them,
    and a small pool for the witnesses.

  \<^bold>\<open>Mempool\<close> (\<^verbatim>\<open>node/mempool.rs\<close>, \<^verbatim>\<open>config/mempool.rs\<close>).
  \<^item> \<^verbatim>\<open>Script_Policy\<close>, \<^verbatim>\<open>Script_Grammar\<close>: standardness, dust and the push parsers, which accept exactly a grammar of pushes
    (locale \<open>push_parser\<close>).
  \<^item> \<^verbatim>\<open>Mempool_Config\<close>, \<^verbatim>\<open>Mempool_State\<close>: policy, defaults, the state and the two operations that write the pool.
  \<^item> \<^verbatim>\<open>Mempool_Invariant\<close>: the invariants of the pool and that the two operations keep them. The locales
    \<open>pool_invariant\<close> (\<^verbatim>\<open>Mempool_Admit\<close>), \<open>ranked_invariant\<close> (\<^verbatim>\<open>Mempool_Persist\<close>) and \<open>live_invariant\<close> (\<^verbatim>\<open>Mempool_System\<close>) carry
    them to every operation built from the two.
  \<^item> \<^verbatim>\<open>Mempool_View\<close>, \<^verbatim>\<open>Mempool_Graph\<close>, \<^verbatim>\<open>Mempool_Rbf\<close>, \<^verbatim>\<open>Mempool_Evict\<close>, \<^verbatim>\<open>Mempool_Fees\<close>: fees and coins of a candidate,
    packages and limits, replacement, eviction and the fee ranking, each against a direct description.
  \<^item> \<^verbatim>\<open>Mempool_Admit\<close>, \<^verbatim>\<open>Mempool_Package\<close>, \<^verbatim>\<open>Mempool_Chain\<close>: admission with all its checks, what a replacement pays for and
    when a failed one loses transactions, packages with their rollback and the truth of their flags, connected blocks,
    reorganisations and \<^verbatim>\<open>clear\<close>.
  \<^item> \<^verbatim>\<open>Core_Mempool_Dat\<close>, \<^verbatim>\<open>Mempool_Persist\<close>: the dump file (\<^verbatim>\<open>node/core_mempool_dat.rs\<close>), saving and loading, with every
    outcome of the file system as an argument; what a save wrote, a load restores or refuses.
  \<^item> \<^verbatim>\<open>Mempool_System\<close>: the pool as a transition system. In every reachable state no outpoint has two spenders and the
    tables have the same keys.

  \<^bold>\<open>Storage and chain.\<close>
  \<^item> \<^verbatim>\<open>Kv_Store\<close>: trees, batches and \<^verbatim>\<open>commit_keyed\<close>.
  \<^item> \<^verbatim>\<open>Block_Links\<close>, \<^verbatim>\<open>Block_Index\<close>: parent links (locale \<open>block_links\<close>, interpreted on the index), insertion, marks, chain
    tips and branch lengths. Rows are always readable, sequence ids are unique, and the branch length is characterised
    with its two limits of ten thousand blocks.
  \<^item> \<^verbatim>\<open>Chain_State\<close>: the tip, the work caches, invalid blocks, checkpoint labels, and the fork choice, which is shown to
    prefer exactly the chain with strictly more work.
  \<^item> \<^verbatim>\<open>Block_Store\<close>: bodies, headers, witnesses, undo logs and the height indexes; the search for the highest height,
    the answer to \<^verbatim>\<open>getheaders\<close>, and the storage of a block on the active chain and beside it.
  \<^item> \<^verbatim>\<open>Core_Format\<close>: the record formats of Bitcoin Core, inverse to its encoders; the curve library that expands a public
    key is a parameter.

  \<^bold>\<open>Network and RPC.\<close>
  \<^item> \<^verbatim>\<open>Tx_Inflight\<close>: requests per peer stay bounded, and a waiting hash is eventually asked for when the peer is polled.
  \<^item> \<^verbatim>\<open>Compact_Blocks\<close>: a compact block is completed to the block it was made from, and the pending assemblies stay
    within their caps.
  \<^item> \<^verbatim>\<open>Merkle_Block\<close>: a verified proof shows transactions of the block or exhibits a collision of the hash, and which of the
    node's own proofs verify.

  \<^bold>\<open>Termination and fuel.\<close> No definition carries fuel. The graph walks and the walks over the block index end because
  they mark hashes, of which there are finitely many. The search for the highest height ends because its bound doubles up
  to two thousand million and its interval halves; the probes for a gap double as well. The
  other loops are structural or have a decreasing measure, such as the bytes left of a script.

  \<^bold>\<open>Not modelled.\<close> Concurrency: a method that takes locks is one step. Failures of the key-value engine: a store operation
  succeeds, on the default build with LMDB and without compression. Consensus validation and script execution, which are
  calls into other crates. Sockets, tasks, timers, the initial download, the coin database, mining templates, the RPC
  servers, the modules and the configuration outside the mempool section. In \<^verbatim>\<open>chainstate.rs\<close> the statistics of the coin
  set and the estimate of the hash rate are left out, in \<^verbatim>\<open>blockstore.rs\<close> the script spans read from raw bodies, and in
  \<^verbatim>\<open>block_processor.rs\<close> the validation and the transaction index.
\<close>

end
